(* ===== verification/C_Base.thy ===== *)
theory C_Base
  imports Main "HOL-Library.Word"
begin

text \<open>
  The part of C and of its string library that the repository's programs use.

  A computation that may go wrong returns \<open>stop + 'a\<close>: \<open>UB f\<close> is an execution that C
  leaves undefined (the programs crash or corrupt memory there), \<open>Exit m\<close> is a call of
  \<open>failHandler(m)\<close>, which prints \<open>m\<close> and ends the process.  A C string is a
  list of characters without the terminating zero byte; a character buffer is the list of
  its bytes, and \<open>cstr\<close> reads the string it holds.  A pointer that may be NULL is an
  \<open>option\<close>.
\<close>

section \<open>Outcomes of a C computation\<close>

datatype fault =
    Null_Pointer      \<comment> \<open>a NULL pointer handed to a function that reads through it\<close>
  | Out_Of_Bounds     \<comment> \<open>an access outside the object\<close>
  | Unterminated      \<comment> \<open>a string function on a buffer with no zero byte\<close>
  | Uninitialised     \<comment> \<open>the use of an indeterminate value\<close>
  | Division_By_Zero
  | Overflow        \<comment> \<open>a signed result that its type cannot hold\<close>

datatype stop = UB fault | Exit string

type_synonym 'a res = "stop + 'a"

named_theorems res_simps \<open>evaluation of computations that may stop\<close>
named_theorems cstr_simps \<open>evaluation of the C string functions\<close>
named_theorems array_simps \<open>the bounds-checked array accesses\<close>

abbreviation Ok :: "'a \<Rightarrow> 'a res" where
  "Ok \<equiv> Inr"

abbreviation ub :: "fault \<Rightarrow> 'a res" where
  "ub f \<equiv> Inl (UB f)"

definition res_bind :: "'a res \<Rightarrow> ('a \<Rightarrow> 'b res) \<Rightarrow> 'b res" where
  "res_bind m f = (case m of Inl e \<Rightarrow> Inl e | Inr x \<Rightarrow> f x)"

lemma res_bind_simps [simp, res_simps]:
  "res_bind (Inl e) f = Inl e"
  "res_bind (Inr x) f = f x"
  by (simp_all add: res_bind_def)

lemma res_bind_Ok_iff [res_simps]:
  "res_bind m f = Inr y \<longleftrightarrow> (\<exists>x. m = Inr x \<and> f x = Inr y)"
  by (cases m) auto

lemma res_bind_stop_iff [res_simps]:
  "res_bind m f = Inl e \<longleftrightarrow> m = Inl e \<or> (\<exists>x. m = Inr x \<and> f x = Inl e)"
  by (cases m) auto

lemma res_bind_assoc [simp]:
  "res_bind (res_bind m f) g = res_bind m (\<lambda>x. res_bind (f x) g)"
  by (cases m) auto

lemma res_bind_cong [fundef_cong]:
  "m = m' \<Longrightarrow> (\<And>x. m' = Inr x \<Longrightarrow> f x = g x) \<Longrightarrow> res_bind m f = res_bind m' g"
  by (cases m') auto

text \<open>Reading through a pointer that may be NULL.\<close>

definition deref :: "'a option \<Rightarrow> 'a res" where
  "deref p = (case p of None \<Rightarrow> ub Null_Pointer | Some x \<Rightarrow> Ok x)"

lemma deref_simps [simp, res_simps]:
  "deref None = ub Null_Pointer" "deref (Some x) = Ok x"
  by (simp_all add: deref_def)

lemma deref_Ok_iff: "deref p = Inr x \<longleftrightarrow> p = Some x"
  by (cases p) auto

section \<open>Arrays with bounds\<close>

text \<open>\<open>a[i]\<close> as a value and \<open>a[i] = v\<close> as an update, undefined outside the object.\<close>

definition peek :: "'a list \<Rightarrow> int \<Rightarrow> 'a res" where
  "peek xs i = (if 0 \<le> i \<and> i < int (length xs) then Ok (xs ! nat i) else ub Out_Of_Bounds)"

definition poke :: "'a list \<Rightarrow> int \<Rightarrow> 'a \<Rightarrow> 'a list res" where
  "poke xs i v = (if 0 \<le> i \<and> i < int (length xs) then Ok (xs[nat i := v]) else ub Out_Of_Bounds)"

lemma peek_Ok [array_simps]: "0 \<le> i \<Longrightarrow> i < int (length xs) \<Longrightarrow> peek xs i = Ok (xs ! nat i)"
  by (simp add: peek_def)

lemma poke_Ok [array_simps]: "0 \<le> i \<Longrightarrow> i < int (length xs) \<Longrightarrow> poke xs i v = Ok (xs[nat i := v])"
  by (simp add: poke_def)

lemma peek_nat [simp]: "n < length xs \<Longrightarrow> peek xs (int n) = Ok (xs ! n)"
  by (simp add: peek_def)

lemma poke_nat [simp]: "n < length xs \<Longrightarrow> poke xs (int n) v = Ok (xs[n := v])"
  by (simp add: poke_def)

text \<open>
  \<open>realloc\<close> keeps the old elements; the new ones hold nothing usable (\<open>None\<close>).
\<close>

definition realloc :: "'a option list \<Rightarrow> nat \<Rightarrow> 'a option list" where
  "realloc xs n = take n xs @ replicate (n - length xs) None"

lemma length_realloc [simp]: "length (realloc xs n) = n"
  by (simp add: realloc_def)

lemma take_realloc: "k \<le> n \<Longrightarrow> k \<le> length xs \<Longrightarrow> take k (realloc xs n) = take k xs"
  by (simp add: realloc_def min_def)

section \<open>Buffers and strings\<close>

abbreviation NUL :: char where
  "NUL \<equiv> CHR 0x00"

definition no_nul :: "string \<Rightarrow> bool" where
  "no_nul s \<longleftrightarrow> NUL \<notin> set s"

lemma no_nul_simps [simp]:
  "no_nul []" "no_nul (c # s) \<longleftrightarrow> c \<noteq> NUL \<and> no_nul s"
  "no_nul (s @ t) \<longleftrightarrow> no_nul s \<and> no_nul t"
  by (auto simp: no_nul_def)

text \<open>A buffer of \<open>n\<close> zero bytes whose first bytes have been overwritten by \<open>d\<close>.\<close>

definition zbuf :: "nat \<Rightarrow> char list \<Rightarrow> char list" where
  "zbuf n d = d @ replicate (n - length d) NUL"

text \<open>The C string a buffer holds: its bytes up to the first zero byte.\<close>

definition cstr :: "char list \<Rightarrow> string res" where
  "cstr b = (if NUL \<in> set b then Ok (takeWhile (\<lambda>c. c \<noteq> NUL) b) else ub Unterminated)"

lemma cstr_zbuf [cstr_simps]:
  "cstr (zbuf n d) =
    (if NUL \<in> set d then Ok (takeWhile (\<lambda>c. c \<noteq> NUL) d)
     else if length d < n then Ok d else ub Unterminated)"
  by (auto simp: cstr_def zbuf_def takeWhile_append takeWhile_eq_all_conv)

lemma cstr_terminated: "no_nul s \<Longrightarrow> cstr (s @ NUL # t) = Ok s"
  by (auto simp: cstr_def no_nul_def takeWhile_append)

lemma cstr_zbuf_string: "no_nul s \<Longrightarrow> length s < n \<Longrightarrow> cstr (zbuf n s) = Ok s"
  by (simp add: cstr_zbuf no_nul_def)

lemma zbuf_idem [simp]: "zbuf n (zbuf n d) = zbuf n d"
  by (simp add: zbuf_def)

lemma cstr_no_nul: "cstr b = Ok s \<Longrightarrow> no_nul s"
  by (auto simp: cstr_def no_nul_def split: if_splits dest: set_takeWhileD)

text \<open>
  \<open>strcpy\<close>, \<open>strcat\<close> and \<open>sprintf\<close> leave the string \<open>s\<close> in an object of
  \<open>n\<close> bytes: defined only where \<open>s\<close> and its zero byte fit.
\<close>

definition cstore :: "nat \<Rightarrow> string \<Rightarrow> string res" where
  "cstore n s = (if length s < n then Ok s else ub Out_Of_Bounds)"

lemma cstore_Ok [cstr_simps]: "length s < n \<Longrightarrow> cstore n s = Ok s"
  by (simp add: cstore_def)

lemma cstore_Ok_iff: "cstore n s = Inr t \<longleftrightarrow> t = s \<and> length s < n"
  by (auto simp: cstore_def)

end
