(* ===== verification/Dyn_Array.thy ===== *)
theory Dyn_Array
  imports C_Base
begin

text \<open>
  What the repository's array lists have in common.  Each is a block of pointer slots with a
  count of the occupied ones; the code appends at the end, reads by index and removes by moving
  the later elements down one slot.  The first section has the slot block and the moving loop,
  the second the three interfaces (append, index, remove) as locales with the facts their
  clients use.  The lists themselves are in the theories of their programs, which interpret the
  locales.
\<close>

section \<open>Slot blocks\<close>

text \<open>The first \<open>n\<close> slots hold pointers; \<open>live\<close> is the list of the objects they point to.\<close>

definition filled :: "'a option list \<Rightarrow> int \<Rightarrow> bool" where
  "filled xs n \<longleftrightarrow> 0 \<le> n \<and> n \<le> int (length xs) \<and> None \<notin> set (take (nat n) xs)"

definition live :: "'a option list \<Rightarrow> int \<Rightarrow> 'a list" where
  "live xs n = map the (take (nat n) xs)"

lemma filled_bounds: "filled xs n \<Longrightarrow> 0 \<le> n \<and> n \<le> int (length xs)"
  by (simp add: filled_def)

lemma length_live: "filled xs n \<Longrightarrow> length (live xs n) = nat n"
  by (auto simp: filled_def live_def min_def)

lemma int_length_live: "filled xs n \<Longrightarrow> int (length (live xs n)) = n"
  by (auto simp: length_live filled_def)

lemma live_nth:
  assumes "filled xs n" "k < nat n"
  shows "xs ! k = Some (live xs n ! k)"
proof -
  from assms have "xs ! k \<in> set (take (nat n) xs)"
    by (auto simp: filled_def in_set_conv_nth intro!: exI [of _ k])
  with assms show ?thesis
    by (cases "xs ! k") (auto simp: filled_def live_def)
qed

lemma live_Nil [simp]: "live xs 0 = []" "filled xs 0"
  by (simp_all add: live_def filled_def)

lemma peek_live:
  "filled xs n \<Longrightarrow> 0 \<le> i \<Longrightarrow> i < n \<Longrightarrow> peek xs i = Ok (Some (live xs n ! nat i))"
  using live_nth [of xs n "nat i"] by (simp add: peek_def filled_def)

text \<open>Writing the slot behind the last occupied one appends.\<close>

lemma poke_append:
  assumes "filled xs n" "n < int (length xs)"
  shows "\<exists>ys. poke xs n (Some v) = Ok ys \<and> length ys = length xs \<and> filled ys (n + 1)
    \<and> live ys (n + 1) = live xs n @ [v]"
proof -
  from assms have n: "nat n < length xs" "nat (n + 1) = Suc (nat n)" "0 \<le> n"
    by (auto simp: filled_def)
  have "take (Suc (nat n)) (xs[nat n := Some v]) = take (nat n) xs @ [Some v]"
    using n(1) by (simp add: take_Suc_conv_app_nth)
  with assms n show ?thesis
    by (auto simp: poke_def filled_def live_def)
qed

lemma realloc_filled:
  assumes "filled xs n" "length xs \<le> k"
  shows "filled (realloc xs k) n \<and> live (realloc xs k) n = live xs n"
  using assms take_realloc [of "nat n" k xs] by (auto simp: filled_def live_def)

text \<open>Growing by \<open>k\<close> slots when the block is full makes room and keeps the contents.\<close>

lemma grow_room:
  assumes "filled xs n" "0 < k" "n \<le> int (length xs)"
    and "ys = (if int (length xs) = n then realloc xs (nat (k + n)) else xs)"
  shows "filled ys n \<and> live ys n = live xs n \<and> n < int (length ys)"
proof (cases "int (length xs) = n")
  case True
  with assms(2) have "length xs \<le> nat (k + n)" by linarith
  with realloc_filled [OF assms(1)] assms(2,4) True show ?thesis
    by (simp add: assms(4) filled_def)
next
  case False
  with assms show ?thesis by auto
qed

section \<open>The moving loop\<close>

text \<open>\<open>for (t = idx; t < hi; t++) array[t] = array[t+1];\<close>\<close>

function shift_left :: "'a list \<Rightarrow> int \<Rightarrow> int \<Rightarrow> 'a list res" where
  "shift_left xs t hi =
    (if t < hi
     then res_bind (peek xs (t + 1)) (\<lambda>v.
          res_bind (poke xs t v) (\<lambda>xs'. shift_left xs' (t + 1) hi))
     else Ok xs)"
  by pat_completeness auto
termination
  by (relation "measure (\<lambda>(xs, t, hi). nat (hi - t))") auto

declare shift_left.simps [simp del]

lemma shift_left_nth:
  assumes "0 \<le> t" "hi < int (length xs)"
  shows "\<exists>ys. shift_left xs t hi = Ok ys \<and> length ys = length xs \<and>
    (\<forall>k. ys ! k = (if nat t \<le> k \<and> int k < hi then xs ! Suc k else xs ! k))"
  using assms
proof (induction xs t hi rule: shift_left.induct)
  case (1 xs t hi)
  show ?case
  proof (cases "t < hi")
    case False
    with 1(2) have "\<not> (nat t \<le> k \<and> int k < hi)" for k by linarith
    with False show ?thesis by (auto simp: shift_left.simps [of xs t hi])
  next
    case True
    define xs' where "xs' = xs[nat t := xs ! Suc (nat t)]"
    have p: "peek xs (t + 1) = Ok (xs ! Suc (nat t))" "poke xs t (xs ! Suc (nat t)) = Ok xs'"
      using True 1(2,3) by (simp_all add: peek_def poke_def xs'_def nat_add_distrib)
    obtain ys where ys: "shift_left xs' (t + 1) hi = Ok ys" "length ys = length xs'"
      "\<forall>k. ys ! k = (if nat (t + 1) \<le> k \<and> int k < hi then xs' ! Suc k else xs' ! k)"
      using 1(1) [OF True p] 1(2,3) by (auto simp: xs'_def)
    have "ys ! k = (if nat t \<le> k \<and> int k < hi then xs ! Suc k else xs ! k)" for k
    proof (cases "k = nat t")
      case True
      with ys(3) \<open>t < hi\<close> 1(2,3) show ?thesis by (simp add: xs'_def)
    next
      case False
      then have "nat (t + 1) \<le> k \<longleftrightarrow> nat t \<le> k" using 1(2) by linarith
      with False ys(3) show ?thesis by (auto simp: xs'_def nth_list_update_neq)
    qed
    with ys(1,2) p True show ?thesis
      by (auto simp: shift_left.simps [of xs t hi] xs'_def)
  qed
qed

text \<open>Moving down over slot \<open>i\<close> and dropping the last occupied slot removes element \<open>i\<close>.\<close>

lemma shift_left_live:
  assumes "filled xs n" "0 \<le> i" "i < n"
  shows "\<exists>ys. shift_left xs i (n - 1) = Ok ys \<and> length ys = length xs \<and> filled ys (n - 1)
    \<and> live ys (n - 1) = take (nat i) (live xs n) @ drop (Suc (nat i)) (live xs n)"
proof -
  from assms have n: "n - 1 < int (length xs)" "nat (n - 1) < nat n" "nat n \<le> length xs"
    by (auto simp: filled_def)
  obtain ys where ys: "shift_left xs i (n - 1) = Ok ys" "length ys = length xs"
    "\<And>k. ys ! k = (if nat i \<le> k \<and> int k < n - 1 then xs ! Suc k else xs ! k)"
    using shift_left_nth [OF assms(2) n(1)] by blast
  let ?L = "live xs n"
  let ?R = "take (nat i) ?L @ drop (Suc (nat i)) ?L"
  have len: "length ?R = nat (n - 1)" "nat i < length ?L"
    using assms by (auto simp: length_live min_def)
  have "take (nat (n - 1)) ys = map Some ?R"
  proof (rule nth_equalityI)
    show "length (take (nat (n - 1)) ys) = length (map Some ?R)"
      using len n ys(2) by simp
    fix k assume k: "k < length (take (nat (n - 1)) ys)"
    then have k': "k < nat (n - 1)" by simp
    have "ys ! k = Some (?R ! k)"
      using k' assms len live_nth [of xs n k] live_nth [of xs n "Suc k"]
      by (auto simp: ys(3) nth_append min_def)
    with k k' len show "take (nat (n - 1)) ys ! k = map Some ?R ! k"
      by (simp del: map_append)
  qed
  with ys(1,2) assms n show ?thesis by (auto simp: filled_def live_def)
qed

section \<open>The interfaces\<close>

text \<open>
  A list one can append to: \<open>items\<close> is its contents, \<open>wf\<close> its invariant, and
  \<open>room\<close> says that one more object may be added (always, for a list that grows).
\<close>

locale append_array =
  fixes wf :: "'s \<Rightarrow> bool" and items :: "'s \<Rightarrow> 'a list"
    and room :: "'s \<Rightarrow> 'a \<Rightarrow> bool" and add :: "'s \<Rightarrow> 'a \<Rightarrow> 's res"
  assumes add: "wf s \<Longrightarrow> room s x \<Longrightarrow> \<exists>s'. add s x = Ok s' \<and> wf s' \<and> items s' = items s @ [x]"
begin

lemma add_cases:
  assumes "wf s" "room s x"
  obtains s' where "add s x = Ok s'" "wf s'" "items s' = items s @ [x]"
  using add [OF assms] by blast

lemma add_result:
  assumes "wf s" "room s x" "add s x = Ok s'"
  shows "wf s' \<and> items s' = items s @ [x]"
  using add [OF assms(1,2)] assms(3) by auto

lemma add_no_stop: "wf s \<Longrightarrow> room s x \<Longrightarrow> add s x \<noteq> Inl e"
  using add by fastforce

end

text \<open>A list that always has room.\<close>

locale growing_array = append_array +
  assumes room: "wf s \<Longrightarrow> room s x"
begin

lemma grow_cases:
  assumes "wf s"
  obtains s' where "add s x = Ok s'" "wf s'" "items s' = items s @ [x]"
  using add_cases [OF assms room [OF assms]] by blast

lemma grow_result: "wf s \<Longrightarrow> add s x = Ok s' \<Longrightarrow> wf s' \<and> items s' = items s @ [x]"
  using add_result room by blast

end

text \<open>A list one can read by index; \<open>get\<close> returns a pointer.\<close>

locale indexed_array = append_array +
  fixes get :: "'s \<Rightarrow> int \<Rightarrow> 'a option res"
  assumes get: "wf s \<Longrightarrow> 0 \<le> i \<Longrightarrow> i < int (length (items s)) \<Longrightarrow> get s i = Ok (Some (items s ! nat i))"
begin

lemma get_last: "wf s \<Longrightarrow> items s = xs @ [x] \<Longrightarrow> get s (int (length xs)) = Ok (Some x)"
  by (simp add: get)

lemma get_added:
  assumes "wf s" "room s x" "add s x = Ok s'"
  shows "get s' (int (length (items s))) = Ok (Some x)"
  using add_result [OF assms] by (simp add: get)

end

text \<open>A list one can also remove from.\<close>

locale removable_array = indexed_array +
  fixes remove :: "'s \<Rightarrow> int \<Rightarrow> 's res"
  assumes remove_in: "wf s \<Longrightarrow> 0 \<le> i \<Longrightarrow> i < int (length (items s)) \<Longrightarrow>
      \<exists>s'. remove s i = Ok s' \<and> wf s'
        \<and> items s' = take (nat i) (items s) @ drop (Suc (nat i)) (items s)"
    and remove_out: "wf s \<Longrightarrow> i < 0 \<or> int (length (items s)) \<le> i \<Longrightarrow> remove s i = Ok s"
begin

lemma remove_wf: "wf s \<Longrightarrow> \<exists>s'. remove s i = Ok s' \<and> wf s'"
  using remove_in [of s i] remove_out [of s i] by (cases "0 \<le> i \<and> i < int (length (items s))") auto

lemma remove_nth:
  assumes "wf s" "items s = xs @ x # ys"
  shows "\<exists>s'. remove s (int (length xs)) = Ok s' \<and> wf s' \<and> items s' = xs @ ys"
  using remove_in [OF assms(1), of "int (length xs)"] assms(2) by simp

lemma remove_last:
  assumes "wf s" "items s = xs @ [x]"
  shows "\<exists>s'. remove s (int (length xs)) = Ok s' \<and> wf s' \<and> items s' = xs"
  using remove_nth [of s xs x "[]"] assms by simp

text \<open>Taking the last object out undoes an append: the lists work as stacks.\<close>

lemma remove_added:
  assumes "wf s" "room s x" "add s x = Ok s'"
  shows "\<exists>t. remove s' (int (length (items s))) = Ok t \<and> wf t \<and> items t = items s"
  using add_result [OF assms] remove_last by blast

end

end
