(* ===== verification/C_String.thy ===== *)
theory C_String
  imports C_Base
begin

text \<open>
  The C library's string functions the programs call: \<open>strtok\<close>, \<open>strstr\<close>,
  \<open>strncpy\<close>, \<open>atoi\<close>/\<open>atol\<close>, the \<open>%d\<close> of \<open>sprintf\<close> and the \<open>%s\<close> of
  \<open>sscanf\<close>.
\<close>

section \<open>strtok\<close>

text \<open>
  \<open>strtok\<close> keeps a static pointer into the string it cuts.  The model passes the text behind
  that pointer: the result is the token (\<open>None\<close> for NULL) and the text left.  A call
  \<open>strtok(s, d)\<close> starts with \<open>s\<close>, a call \<open>strtok(NULL, d)\<close> with the text left.
\<close>

definition strtok :: "char list \<Rightarrow> string \<Rightarrow> string option \<times> string" where
  "strtok ds s =
    (let s1 = dropWhile (\<lambda>c. c \<in> set ds) s
     in if s1 = [] then (None, [])
        else (Some (takeWhile (\<lambda>c. c \<notin> set ds) s1),
              tl (dropWhile (\<lambda>c. c \<notin> set ds) s1)))"

lemma strtok_Nil [simp]: "strtok ds [] = (None, [])"
  by (simp add: strtok_def)

text \<open>A token followed by a delimiter, and a token that ends the string.\<close>

lemma strtok_token [cstr_simps]:
  assumes "t \<noteq> []" "set t \<inter> set ds = {}" "d \<in> set ds"
  shows "strtok ds (t @ d # s) = (Some t, s)"
proof -
  from assms(1,2) have "dropWhile (\<lambda>c. c \<in> set ds) (t @ d # s) = t @ d # s"
    by (cases t) auto
  moreover from assms have "takeWhile (\<lambda>c. c \<notin> set ds) (t @ d # s) = t"
    by (auto simp: takeWhile_append)
  moreover from assms have "dropWhile (\<lambda>c. c \<notin> set ds) (t @ d # s) = d # s"
    by (auto simp: dropWhile_append)
  ultimately show ?thesis by (simp add: strtok_def)
qed

lemma strtok_last:
  assumes "t \<noteq> []" "set t \<inter> set ds = {}"
  shows "strtok ds t = (Some t, [])"
proof -
  from assms have "dropWhile (\<lambda>c. c \<in> set ds) t = t" by (cases t) auto
  moreover from assms(2) have "takeWhile (\<lambda>c. c \<notin> set ds) t = t"
    by (auto simp: takeWhile_eq_all_conv)
  moreover from assms(2) have "dropWhile (\<lambda>c. c \<notin> set ds) t = []"
    by (auto simp: dropWhile_eq_Nil_conv)
  ultimately show ?thesis using assms(1) by (simp add: strtok_def del: dropWhile_eq_Nil_conv takeWhile_eq_all_conv)
qed

lemma strtok_skip: "d \<in> set ds \<Longrightarrow> strtok ds (d # s) = strtok ds s"
  by (simp add: strtok_def)

lemma strtok_Some_nonempty: "strtok ds s = (Some t, r) \<Longrightarrow> t \<noteq> []"
proof -
  assume a: "strtok ds s = (Some t, r)"
  then have ne: "dropWhile (\<lambda>c. c \<in> set ds) s \<noteq> []" and
    t: "t = takeWhile (\<lambda>c. c \<notin> set ds) (dropWhile (\<lambda>c. c \<in> set ds) s)"
    by (auto simp: strtok_def Let_def split: if_splits)
  from hd_dropWhile [OF ne] ne t show "t \<noteq> []"
    by (cases "dropWhile (\<lambda>c. c \<in> set ds) s") auto
qed

lemma strtok_token_delims: "strtok ds s = (Some t, r) \<Longrightarrow> set t \<inter> set ds = {}"
  by (auto simp: strtok_def Let_def split: if_splits dest: set_takeWhileD)

lemma strtok_token_set: "strtok ds s = (Some t, r) \<Longrightarrow> set t \<subseteq> set s"
  by (auto simp: strtok_def Let_def split: if_splits dest!: set_takeWhileD set_dropWhileD)

lemma set_tl_subset: "set (tl xs) \<subseteq> set xs"
  by (cases xs) auto

lemma set_dropWhile_subset: "set (dropWhile P xs) \<subseteq> set xs"
  by (auto dest: set_dropWhileD)

lemma strtok_rest_length: "strtok ds s = (p, r) \<Longrightarrow> length r \<le> length s"
proof -
  have "length (tl (dropWhile P (dropWhile Q s))) \<le> length s" for P Q
    using length_dropWhile_le [of P "dropWhile Q s"] length_dropWhile_le [of Q s] by simp
  then show "strtok ds s = (p, r) \<Longrightarrow> length r \<le> length s"
    by (auto simp: strtok_def Let_def split: if_splits)
qed

lemma strtok_rest_set: "strtok ds s = (p, r) \<Longrightarrow> set r \<subseteq> set s"
proof -
  have "set (tl (dropWhile P (dropWhile Q s))) \<subseteq> set s" for P Q
    using set_tl_subset set_dropWhile_subset by (metis subset_trans)
  then show "strtok ds s = (p, r) \<Longrightarrow> set r \<subseteq> set s"
    by (auto simp: strtok_def Let_def split: if_splits)
qed

lemma strtok_None_iff: "fst (strtok ds s) = None \<longleftrightarrow> set s \<subseteq> set ds"
  by (auto simp: strtok_def Let_def dropWhile_eq_Nil_conv)

section \<open>strstr and strncpy\<close>

text \<open>Whether \<open>strstr(s, p)\<close> finds \<open>p\<close>, and the suffix it then returns.\<close>

fun strstr :: "string \<Rightarrow> string \<Rightarrow> string option" where
  "strstr [] p = (if p = [] then Some [] else None)"
| "strstr (c # s) p = (if take (length p) (c # s) = p then Some (c # s) else strstr s p)"

lemma strstr_Some_iff: "(\<exists>r. strstr s p = Some r) \<longleftrightarrow> (\<exists>u v. s = u @ p @ v)"
proof (induction s)
  case Nil
  then show ?case by auto
next
  case (Cons c s)
  have "(\<exists>u v. c # s = u @ p @ v) \<longleftrightarrow> (\<exists>v. c # s = p @ v) \<or> (\<exists>u v. s = u @ p @ v)"
    by (metis append_Cons append_Nil list.exhaust list.inject)
  moreover have "take (length p) (c # s) = p \<longleftrightarrow> (\<exists>v. c # s = p @ v)"
    by (metis append_eq_conv_conj append_take_drop_id)
  ultimately show ?case using Cons.IH by auto
qed

lemma strstr_occurs: "strstr s p \<noteq> None \<longleftrightarrow> (\<exists>u v. s = u @ p @ v)"
  using strstr_Some_iff [of s p] by auto

lemma strstr_Some_split: "strstr s p = Some r \<Longrightarrow> \<exists>u v. s = u @ r \<and> r = p @ v"
proof (induction s)
  case Nil
  then show ?case by (auto split: if_splits)
next
  case (Cons c s)
  show ?case
  proof (cases "take (length p) (c # s) = p")
    case True
    with Cons.prems have "r = c # s" by simp
    with True show ?thesis by (metis append_Nil append_take_drop_id)
  next
    case False
    with Cons obtain u v where "s = u @ r" "r = p @ v" by auto
    then show ?thesis by (metis append_Cons)
  qed
qed

text \<open>
  \<open>strncpy\<close> of \<open>n\<close> bytes of a string into a zeroed object of \<open>cap\<close> bytes, as the
  string the object then holds.
\<close>

definition strncpy_zeroed :: "nat \<Rightarrow> string \<Rightarrow> nat \<Rightarrow> string res" where
  "strncpy_zeroed cap s n =
    (if cap < n then ub Out_Of_Bounds else cstr (zbuf cap (take n s)))"

lemma strncpy_zeroed_Ok [cstr_simps]:
  "n < cap \<Longrightarrow> no_nul s \<Longrightarrow> strncpy_zeroed cap s n = Ok (take n s)"
  by (auto simp: strncpy_zeroed_def cstr_zbuf no_nul_def dest: in_set_takeD)

section \<open>Numbers in text\<close>

text \<open>
  \<open>sprintf(\<dots>, "%d", n)\<close>: the decimal digits, with a minus sign for a negative number.
\<close>

definition digit_char :: "nat \<Rightarrow> char" where
  "digit_char d = ''0123456789'' ! d"

definition is_digit :: "char \<Rightarrow> bool" where
  "is_digit c \<longleftrightarrow> c \<in> set ''0123456789''"

definition digit_val :: "char \<Rightarrow> nat" where
  "digit_val c = length (takeWhile (\<lambda>x. x \<noteq> c) ''0123456789'')"

fun show_nat :: "nat \<Rightarrow> string" where
  "show_nat n = (if n < 10 then [digit_char n] else show_nat (n div 10) @ [digit_char (n mod 10)])"

declare show_nat.simps [simp del]

definition show_int :: "int \<Rightarrow> string" where
  "show_int n = (if n < 0 then CHR ''-'' # show_nat (nat (- n)) else show_nat (nat n))"

text \<open>
  \<open>strtol\<close> in base ten: leading white space, an optional sign, digits; the value is
  clamped to the range of a 64-bit \<open>long\<close>.  The C library's \<open>atol\<close> is \<open>strtol\<close>
  and its \<open>atoi\<close> is \<open>(int) strtol\<close>, so \<open>atoi\<close> keeps the low 32 bits.
\<close>

definition is_space :: "char \<Rightarrow> bool" where
  "is_space c \<longleftrightarrow> c \<in> {CHR '' '', CHR 0x09, CHR 0x0A, CHR 0x0B, CHR 0x0C, CHR 0x0D}"

fun digits_val :: "nat \<Rightarrow> string \<Rightarrow> nat" where
  "digits_val acc [] = acc"
| "digits_val acc (c # s) = (if is_digit c then digits_val (10 * acc + digit_val c) s else acc)"

definition clamp_long :: "int \<Rightarrow> int" where
  "clamp_long n = max (- (2 ^ 63)) (min (2 ^ 63 - 1) n)"

definition strtol :: "string \<Rightarrow> int" where
  "strtol s =
    (case dropWhile is_space s of
       [] \<Rightarrow> 0
     | c # r \<Rightarrow>
         if c = CHR ''-'' then clamp_long (- int (digits_val 0 r))
         else if c = CHR ''+'' then clamp_long (int (digits_val 0 r))
         else clamp_long (int (digits_val 0 (c # r))))"

definition atol :: "string \<Rightarrow> int" where
  "atol s = strtol s"

definition to_int32 :: "int \<Rightarrow> int" where
  "to_int32 n = (n + 2 ^ 31) mod 2 ^ 32 - 2 ^ 31"

definition atoi :: "string \<Rightarrow> int" where
  "atoi s = to_int32 (strtol s)"

definition fits_int32 :: "int \<Rightarrow> bool" where
  "fits_int32 n \<longleftrightarrow> - (2 ^ 31) \<le> n \<and> n < 2 ^ 31"

definition fits_int64 :: "int \<Rightarrow> bool" where
  "fits_int64 n \<longleftrightarrow> - (2 ^ 63) \<le> n \<and> n < 2 ^ 63"

lemma to_int32_id: "fits_int32 n \<Longrightarrow> to_int32 n = n"
  by (simp add: to_int32_def fits_int32_def)

lemma to_int32_fits: "fits_int32 (to_int32 n)"
proof -
  have "0 \<le> (n + 2 ^ 31) mod 2 ^ 32" "(n + 2 ^ 31) mod 2 ^ 32 < (2::int) ^ 32"
    by (rule pos_mod_sign, simp, rule pos_mod_bound, simp)
  then show ?thesis by (simp add: to_int32_def fits_int32_def)
qed

lemma atoi_fits: "fits_int32 (atoi s)"
  by (simp add: atoi_def to_int32_fits)

lemma clamp_long_id: "fits_int64 n \<Longrightarrow> clamp_long n = n"
  by (auto simp: clamp_long_def fits_int64_def)

lemma digit_cases: "d < 10 \<Longrightarrow> d \<in> {0, 1, 2, 3, 4, 5, 6, 7, 8, 9::nat}"
  by auto

lemma digit_char_facts:
  assumes "d < 10"
  shows "is_digit (digit_char d) \<and> digit_val (digit_char d) = d \<and> \<not> is_space (digit_char d)
    \<and> digit_char d \<noteq> CHR ''-'' \<and> digit_char d \<noteq> CHR ''+'' \<and> digit_char d \<noteq> CHR '':'' \<and> digit_char d \<noteq> NUL"
  using digit_cases [OF assms]
  by (auto simp: is_digit_def digit_val_def digit_char_def is_space_def)

lemma digits_val_append:
  "(\<forall>c \<in> set t. is_digit c) \<Longrightarrow> digits_val acc (t @ r) = digits_val (digits_val acc t) r"
  by (induction t arbitrary: acc) auto

lemma digits_val_stop: "(\<forall>c s. r = c # s \<longrightarrow> \<not> is_digit c) \<Longrightarrow> digits_val acc r = acc"
  by (cases r) auto

lemma show_nat_digits: "\<forall>c \<in> set (show_nat n). is_digit c"
proof (induction n rule: show_nat.induct)
  case (1 n)
  show ?case
  proof (cases "n < 10")
    case True
    then show ?thesis by (simp add: show_nat.simps [of n] digit_char_facts)
  next
    case False
    with 1 show ?thesis by (auto simp: show_nat.simps [of n] digit_char_facts)
  qed
qed

lemma show_nat_nonempty [simp]: "show_nat n \<noteq> []"
  by (simp add: show_nat.simps [of n])

lemma digits_val_show_nat: "digits_val acc (show_nat n) = acc * 10 ^ length (show_nat n) + n"
proof (induction n arbitrary: acc rule: show_nat.induct)
  case (1 n)
  show ?case
  proof (cases "n < 10")
    case True
    then show ?thesis by (simp add: show_nat.simps [of n] digit_char_facts)
  next
    case False
    let ?q = "show_nat (n div 10)"
    from False have "show_nat n = ?q @ [digit_char (n mod 10)]"
      by (simp add: show_nat.simps [of n])
    moreover have "digits_val acc ?q = acc * 10 ^ length ?q + n div 10"
      using 1 False by blast
    ultimately show ?thesis
      by (simp add: digits_val_append show_nat_digits digit_char_facts algebra_simps)
  qed
qed

lemma show_nat_hd: "\<exists>d s. show_nat n = d # s \<and> is_digit d"
  using show_nat_digits [of n] by (cases "show_nat n") auto

lemma is_digit_not_special:
  "is_digit c \<Longrightarrow> \<not> is_space c \<and> c \<noteq> CHR ''-'' \<and> c \<noteq> CHR ''+'' \<and> c \<noteq> CHR '':'' \<and> c \<noteq> NUL"
  by (auto simp: is_digit_def is_space_def)

lemma show_int_chars: "c \<in> set (show_int n) \<Longrightarrow> is_digit c \<or> c = CHR ''-''"
  using show_nat_digits by (auto simp: show_int_def split: if_splits)

lemma show_int_clean: "show_int n \<noteq> [] \<and> CHR '':'' \<notin> set (show_int n) \<and> no_nul (show_int n)"
proof (intro conjI)
  show "show_int n \<noteq> []" by (simp add: show_int_def)
  show "CHR '':'' \<notin> set (show_int n)"
    using show_int_chars [of "CHR '':''" n] is_digit_not_special by auto
  show "no_nul (show_int n)"
    using show_int_chars [of NUL n] is_digit_not_special by (auto simp: no_nul_def)
qed

text \<open>\<open>strtol\<close> reads back what \<open>%d\<close> printed, whatever non-digit follows.\<close>

lemma strtol_show_int:
  assumes "fits_int64 n" "\<forall>c s. r = c # s \<longrightarrow> \<not> is_digit c"
  shows "strtol (show_int n @ r) = n"
proof (cases "n < 0")
  case True
  have "\<not> is_space CHR ''-''" by (simp add: is_space_def)
  with True have "strtol (show_int n @ r) = clamp_long (- int (digits_val 0 (show_nat (nat (- n)) @ r)))"
    by (simp add: strtol_def show_int_def)
  with True assms show ?thesis
    by (simp add: digits_val_append show_nat_digits digits_val_show_nat digits_val_stop clamp_long_id)
next
  case False
  obtain d s where ds: "show_nat (nat n) = d # s" "is_digit d"
    using show_nat_hd by blast
  with False have "strtol (show_int n @ r) = clamp_long (int (digits_val 0 (show_nat (nat n) @ r)))"
    using is_digit_not_special [OF ds(2)] by (simp add: strtol_def show_int_def)
  with False assms show ?thesis
    by (simp add: digits_val_append show_nat_digits digits_val_show_nat digits_val_stop clamp_long_id)
qed

lemma atoi_show_int: "fits_int32 n \<Longrightarrow> atoi (show_int n) = n"
  using strtol_show_int [of n "[]"]
  by (simp add: atoi_def to_int32_id fits_int32_def fits_int64_def)

lemma atol_show_int: "fits_int64 n \<Longrightarrow> atol (show_int n) = n"
  using strtol_show_int [of n "[]"] by (simp add: atol_def)

lemma length_show_nat: "n < 10 ^ k \<Longrightarrow> 0 < k \<Longrightarrow> length (show_nat n) \<le> k"
proof (induction n arbitrary: k rule: show_nat.induct)
  case (1 n)
  show ?case
  proof (cases "n < 10")
    case True
    with 1 show ?thesis by (simp add: show_nat.simps [of n])
  next
    case False
    with 1(2,3) have "1 < k" by (cases "k = 1") auto
    then have "n div 10 < 10 ^ (k - 1)" "0 < k - 1"
      using 1(2) by (cases k; simp add: less_mult_imp_div_less mult.commute)+
    with 1(1) False have "length (show_nat (n div 10)) \<le> k - 1" by blast
    with False \<open>1 < k\<close> show ?thesis by (simp add: show_nat.simps [of n])
  qed
qed

lemma length_show_int32: 
  assumes "fits_int32 n"
  shows "length (show_int n) \<le> 11"
proof -
  from assms have "nat n < 10 ^ 10" "nat (- n) < 10 ^ 10"
    by (auto simp: fits_int32_def nat_less_iff)
  then have "length (show_nat (nat n)) \<le> 10" "length (show_nat (nat (- n))) \<le> 10"
    by (auto intro: length_show_nat)
  then show ?thesis by (simp add: show_int_def)
qed

end
