(* ===== verification/Pro_Protocol.thy ===== *)
theory Pro_Protocol
  imports C_String
begin

text \<open>
  \<^verbatim>\<open>pro/src/myprotocol.c\<close> and \<^verbatim>\<open>myprotocol.h\<close>: the command messages a chat client
  sends.  Each \<open>format_\<dots>_cmd\<close> measures the message, allocates that many zeroed bytes and
  prints into them; it returns the string and the length stored through \<open>cmd_length\<close>.  The
  client writes \<open>cmd_length\<close> bytes of the block.
\<close>

section \<open>Constants\<close>

definition BUFFER_SIZE :: nat where "BUFFER_SIZE = 1024"
definition CMD_CONFIRM_JOIN :: string where "CMD_CONFIRM_JOIN = ''a:c::''"
definition CMD_REJECTION_JOIN :: string where "CMD_REJECTION_JOIN = ''a:r::''"
definition CMD_JOIN :: string where "CMD_JOIN = ''a''"
definition CMD_WAIT :: string where "CMD_WAIT = ''w''"
definition CMD_QUIT :: string where "CMD_QUIT = ''q''"
definition CMD_LIST :: string where "CMD_LIST = ''l''"
definition CMD_CONNECT :: string where "CMD_CONNECT = ''c''"
definition CMD_LEAVEWAIT :: string where "CMD_LEAVEWAIT = ''r''"
definition CLIENT_NAME_LENGTH :: nat where "CLIENT_NAME_LENGTH = 16"

lemmas cmd_defs = CMD_JOIN_def CMD_WAIT_def CMD_QUIT_def CMD_LIST_def CMD_CONNECT_def
  CMD_LEAVEWAIT_def

text \<open>\<open>"\n"\<close> as a string.\<close>

definition newline :: string where "newline = [CHR 0x0A]"

definition wrong_cmd_msg :: string where
  "wrong_cmd_msg = ''Undefined command!'' @ newline"
definition talk_self_msg :: string where
  "talk_self_msg = ''Cannot connect with your self!'' @ newline"
definition no_such_client_msg :: string where
  "no_such_client_msg = ''This client is not available!'' @ newline"
definition no_available_client_msg :: string where
  "no_available_client_msg = ''There are no available clients for now!'' @ newline"

section \<open>The messages\<close>

definition format_join_cmd :: "string \<Rightarrow> (string \<times> nat) res" where
  "format_join_cmd my_name =
    (let cmd_length = length my_name + 4
     in res_bind (cstore cmd_length (''a:'' @ my_name @ '':'')) (\<lambda>buf. Ok (buf, cmd_length)))"

definition format_wait_cmd :: "string \<Rightarrow> int \<Rightarrow> (string \<times> nat) res" where
  "format_wait_cmd my_name port =
    res_bind (cstore 8 (show_int port)) (\<lambda>port_s.
      let cmd_length = length my_name + length port_s + 5
      in res_bind (cstore cmd_length (''w:'' @ my_name @ '':'' @ port_s @ '':'')) (\<lambda>buf.
           Ok (buf, cmd_length)))"

definition format_quit_cmd :: "string \<Rightarrow> (string \<times> nat) res" where
  "format_quit_cmd my_name =
    (let cmd_length = length my_name + 4
     in res_bind (cstore cmd_length (''q:'' @ my_name @ '':'')) (\<lambda>buf. Ok (buf, cmd_length)))"

definition format_list_cmd :: "string \<Rightarrow> (string \<times> nat) res" where
  "format_list_cmd my_name =
    (let cmd_length = length my_name + 4
     in res_bind (cstore cmd_length (''l:'' @ my_name @ '':'')) (\<lambda>buf. Ok (buf, cmd_length)))"

definition format_connect_cmd :: "string \<Rightarrow> string \<Rightarrow> (string \<times> nat) res" where
  "format_connect_cmd my_name peer_name =
    (let cmd_length = length my_name + length peer_name + 5
     in res_bind (cstore cmd_length (''c:'' @ my_name @ '':'' @ peer_name @ '':'')) (\<lambda>buf.
          Ok (buf, cmd_length)))"

definition format_leavewait_cmd :: "string \<Rightarrow> (string \<times> nat) res" where
  "format_leavewait_cmd my_name =
    (let cmd_length = length my_name + 4
     in res_bind (cstore cmd_length (''r:'' @ my_name @ '':'')) (\<lambda>buf. Ok (buf, cmd_length)))"

definition check_user_name_length :: "string \<Rightarrow> int" where
  "check_user_name_length name = (if CLIENT_NAME_LENGTH - 1 < length name then 0 else 1)"

text \<open>\<open>write(fd, buf, n)\<close> of a zeroed block of \<open>n\<close> bytes that holds the string \<open>buf\<close>.\<close>

definition wire :: "string \<times> nat \<Rightarrow> char list" where
  "wire m = zbuf (snd m) (fst m)"

text \<open>Every message fits the block measured for it, and the block ends with its zero byte.\<close>

lemma format_cmds:
  "format_join_cmd n = Ok (''a:'' @ n @ '':'', length n + 4)"
  "format_quit_cmd n = Ok (''q:'' @ n @ '':'', length n + 4)"
  "format_list_cmd n = Ok (''l:'' @ n @ '':'', length n + 4)"
  "format_leavewait_cmd n = Ok (''r:'' @ n @ '':'', length n + 4)"
  "format_connect_cmd n p = Ok (''c:'' @ n @ '':'' @ p @ '':'', length n + length p + 5)"
  by (simp_all add: format_join_cmd_def format_quit_cmd_def format_list_cmd_def
      format_leavewait_cmd_def format_connect_cmd_def cstore_def)

lemma format_wait_cmd_eq:
  "format_wait_cmd n p =
    (if length (show_int p) < 8
     then Ok (''w:'' @ n @ '':'' @ show_int p @ '':'', length n + length (show_int p) + 5)
     else ub Out_Of_Bounds)"
  by (simp add: format_wait_cmd_def cstore_def)

text \<open>A port number has at most five digits.\<close>

lemma port_text: "0 \<le> p \<Longrightarrow> p < 65536 \<Longrightarrow> length (show_int p) < 8"
proof -
  assume p: "0 \<le> p" "p < 65536"
  then have "nat p < 10 ^ 5" by (simp add: nat_less_iff)
  then have "length (show_nat (nat p)) \<le> 5" by (rule length_show_nat) simp
  with p show ?thesis by (simp add: show_int_def)
qed

end
