(* ===== verification/Pro_Array.thy ===== *)
theory Pro_Array
  imports Dyn_Array Pro_Protocol
begin

text \<open>
  \<^verbatim>\<open>pro/src/dynamicarray.c\<close>: the chat server's two tables, the waiting clients
  (\<open>client_list_t\<close>) and the names in use (\<open>client_name_list_t\<close>), with every
  operation the server calls and the text of a list reply (\<open>printList\<close>).  A
  \<open>char *\<close> argument is a \<open>string option\<close>, \<open>None\<close> for NULL.
\<close>

section \<open>Data\<close>

definition ADD_SIZE :: int where
  "ADD_SIZE = 5"

record client_t =
  client :: string
  ip :: string
  port :: int

record client_list_t =
  cl_array :: "client_t option list"
  cl_occupied :: int
  cl_size :: int

record client_name_list_t =
  nl_array :: "string option list"
  nl_occupied :: int
  nl_size :: int

section \<open>The list of waiting clients\<close>

definition initArray :: client_list_t where
  "initArray = \<lparr>cl_array = replicate (nat ADD_SIZE) None, cl_occupied = 0, cl_size = ADD_SIZE\<rparr>"

definition addItem :: "client_list_t \<Rightarrow> client_t \<Rightarrow> client_list_t res" where
  "addItem a item =
    (let a1 = (if cl_size a = cl_occupied a
               then let n_size = ADD_SIZE + cl_size a
                    in a\<lparr>cl_array := realloc (cl_array a) (nat n_size), cl_size := n_size\<rparr>
               else a)
     in res_bind (poke (cl_array a1) (cl_occupied a1) (Some item)) (\<lambda>arr.
          Ok (a1\<lparr>cl_array := arr, cl_occupied := cl_occupied a1 + 1\<rparr>)))"

definition getItem :: "client_list_t \<Rightarrow> int \<Rightarrow> client_t option res" where
  "getItem a idx = (if cl_occupied a \<le> idx then Ok None else peek (cl_array a) idx)"

definition removeItem :: "client_list_t \<Rightarrow> int \<Rightarrow> client_list_t res" where
  "removeItem a idx =
    (if idx < 0 \<or> cl_occupied a \<le> idx then Ok a
     else res_bind (shift_left (cl_array a) idx (cl_occupied a - 1)) (\<lambda>arr.
          Ok (a\<lparr>cl_array := arr, cl_occupied := cl_occupied a - 1\<rparr>)))"

definition popItem :: "client_list_t \<Rightarrow> int \<Rightarrow> (client_t option \<times> client_list_t) res" where
  "popItem a idx =
    (if idx < 0 \<or> cl_occupied a \<le> idx then Ok (None, a)
     else res_bind (getItem a idx) (\<lambda>n.
          res_bind (removeItem a idx) (\<lambda>a'. Ok (n, a'))))"

function findItem_from :: "client_list_t \<Rightarrow> string option \<Rightarrow> int \<Rightarrow> int res" where
  "findItem_from a name i =
    (if i < cl_occupied a
     then res_bind (getItem a i) (\<lambda>p. res_bind (deref p) (\<lambda>item. res_bind (deref name) (\<lambda>s.
          if client item = s then Ok i else findItem_from a name (i + 1))))
     else Ok (- 1))"
  by pat_completeness auto
termination
  by (relation "measure (\<lambda>(a, name, i). nat (cl_occupied a - i))") auto

declare findItem_from.simps [simp del]

definition findItem :: "client_list_t \<Rightarrow> string option \<Rightarrow> int res" where
  "findItem a name = findItem_from a name 0"

text \<open>
  \<open>printList\<close> builds the reply in a heap block of \<open>temp_size\<close> bytes; the loop state is
  the block's size, the string in it and \<open>t_len\<close>.
\<close>

definition printList_item :: "client_t \<Rightarrow> nat \<times> string \<times> nat \<Rightarrow> (nat \<times> string \<times> nat) res" where
  "printList_item item st =
    (case st of (temp_size, temp, t_len) \<Rightarrow>
      let t_len' = t_len + length (client item) + 1;
          temp_size' = (if temp_size < t_len' then temp_size * 2 else temp_size)
      in res_bind (cstore temp_size' (temp @ client item)) (\<lambda>temp1.
         res_bind (cstore temp_size' (temp1 @ '':'')) (\<lambda>temp2.
           Ok (temp_size', temp2, t_len'))))"

function printList_from :: "client_list_t \<Rightarrow> int \<Rightarrow> nat \<times> string \<times> nat \<Rightarrow> (nat \<times> string \<times> nat) res" where
  "printList_from a i st =
    (if i < cl_occupied a
     then res_bind (getItem a i) (\<lambda>p. res_bind (deref p) (\<lambda>item.
          res_bind (printList_item item st) (\<lambda>st'. printList_from a (i + 1) st')))
     else Ok st)"
  by pat_completeness auto
termination
  by (relation "measure (\<lambda>(a, i, st). nat (cl_occupied a - i))") auto

declare printList_from.simps [simp del]

definition printList :: "client_list_t \<Rightarrow> (string \<times> nat) res" where
  "printList a =
    res_bind (printList_from a 0 (1024, ''l:'', 2)) (\<lambda>(temp_size, temp, t_len).
    res_bind (cstore temp_size (temp @ '':'')) (\<lambda>temp'. Ok (temp', t_len + 1)))"

section \<open>The list of names\<close>

definition initNameArray :: client_name_list_t where
  "initNameArray = \<lparr>nl_array = replicate (nat ADD_SIZE) None, nl_occupied = 0, nl_size = ADD_SIZE\<rparr>"

definition addNameItem :: "client_name_list_t \<Rightarrow> string \<Rightarrow> client_name_list_t res" where
  "addNameItem a n =
    (let a1 = (if nl_size a = nl_occupied a
               then let n_size = ADD_SIZE + nl_size a
                    in a\<lparr>nl_array := realloc (nl_array a) (nat n_size), nl_size := n_size\<rparr>
               else a)
     in res_bind (poke (nl_array a1) (nl_occupied a1) (Some n)) (\<lambda>arr.
          Ok (a1\<lparr>nl_array := arr, nl_occupied := nl_occupied a1 + 1\<rparr>)))"

function hasNameItem_from :: "client_name_list_t \<Rightarrow> string option \<Rightarrow> int \<Rightarrow> int res" where
  "hasNameItem_from a n i =
    (if i < nl_occupied a
     then res_bind (peek (nl_array a) i) (\<lambda>p. res_bind (deref n) (\<lambda>s. res_bind (deref p) (\<lambda>item.
          if s = item then Ok 1 else hasNameItem_from a n (i + 1))))
     else Ok 0)"
  by pat_completeness auto
termination
  by (relation "measure (\<lambda>(a, n, i). nat (nl_occupied a - i))") auto

declare hasNameItem_from.simps [simp del]

definition hasNameItem :: "client_name_list_t \<Rightarrow> string option \<Rightarrow> int res" where
  "hasNameItem a n = hasNameItem_from a n 0"

text \<open>The search loop of \<open>removeNameItem\<close> has no \<open>break\<close>: it ends at the last match.\<close>

function lastNameItem_from :: "client_name_list_t \<Rightarrow> string option \<Rightarrow> int \<Rightarrow> int \<Rightarrow> int res" where
  "lastNameItem_from a n i idx =
    (if i < nl_occupied a
     then res_bind (peek (nl_array a) i) (\<lambda>p. res_bind (deref n) (\<lambda>s. res_bind (deref p) (\<lambda>item.
          lastNameItem_from a n (i + 1) (if s = item then i else idx))))
     else Ok idx)"
  by pat_completeness auto
termination
  by (relation "measure (\<lambda>(a, n, i, idx). nat (nl_occupied a - i))") auto

declare lastNameItem_from.simps [simp del]

definition removeNameItem :: "client_name_list_t \<Rightarrow> string option \<Rightarrow> client_name_list_t res" where
  "removeNameItem a n =
    res_bind (lastNameItem_from a n 0 (- 1)) (\<lambda>idx.
      if idx = - 1 then Ok a
      else res_bind (shift_left (nl_array a) idx (nl_occupied a - 1)) (\<lambda>arr.
           Ok (a\<lparr>nl_array := arr, nl_occupied := nl_occupied a - 1\<rparr>)))"

section \<open>Invariants and contents\<close>

definition clist_wf :: "client_list_t \<Rightarrow> bool" where
  "clist_wf a \<longleftrightarrow> cl_size a = int (length (cl_array a)) \<and> filled (cl_array a) (cl_occupied a)
    \<and> 0 < cl_size a \<and> cl_size a mod ADD_SIZE = 0"

definition clist_items :: "client_list_t \<Rightarrow> client_t list" where
  "clist_items a = live (cl_array a) (cl_occupied a)"

definition nlist_wf :: "client_name_list_t \<Rightarrow> bool" where
  "nlist_wf a \<longleftrightarrow> nl_size a = int (length (nl_array a)) \<and> filled (nl_array a) (nl_occupied a)
    \<and> 0 < nl_size a \<and> nl_size a mod ADD_SIZE = 0"

definition nlist_items :: "client_name_list_t \<Rightarrow> string list" where
  "nlist_items a = live (nl_array a) (nl_occupied a)"

lemma initArray_wf: "clist_wf initArray" "clist_items initArray = []"
  by (simp_all add: clist_wf_def clist_items_def initArray_def ADD_SIZE_def)

lemma initNameArray_wf: "nlist_wf initNameArray" "nlist_items initNameArray = []"
  by (simp_all add: nlist_wf_def nlist_items_def initNameArray_def ADD_SIZE_def)

lemma clist_count: "clist_wf a \<Longrightarrow> cl_occupied a = int (length (clist_items a))"
  by (simp add: clist_wf_def clist_items_def int_length_live)

lemma nlist_count: "nlist_wf a \<Longrightarrow> nl_occupied a = int (length (nlist_items a))"
  by (simp add: nlist_wf_def nlist_items_def int_length_live)

lemma addItem_spec:
  assumes "clist_wf a"
  shows "\<exists>a'. addItem a x = Ok a' \<and> clist_wf a' \<and> clist_items a' = clist_items a @ [x]"
proof -
  define a1 where "a1 = (if cl_size a = cl_occupied a
    then a\<lparr>cl_array := realloc (cl_array a) (nat (ADD_SIZE + cl_size a)), cl_size := ADD_SIZE + cl_size a\<rparr>
    else a)"
  have a1: "clist_wf a1 \<and> clist_items a1 = clist_items a \<and> cl_occupied a1 < int (length (cl_array a1))"
    using assms grow_room [of "cl_array a" "cl_occupied a" ADD_SIZE "cl_array a1"]
    by (auto simp: a1_def clist_wf_def clist_items_def ADD_SIZE_def filled_bounds)
  then obtain arr where arr: "poke (cl_array a1) (cl_occupied a1) (Some x) = Ok arr"
    "length arr = length (cl_array a1)" "filled arr (cl_occupied a1 + 1)"
    "live arr (cl_occupied a1 + 1) = live (cl_array a1) (cl_occupied a1) @ [x]"
    using poke_append [of "cl_array a1" "cl_occupied a1" x] by (auto simp: clist_wf_def)
  have "addItem a x = Ok (a1\<lparr>cl_array := arr, cl_occupied := cl_occupied a1 + 1\<rparr>)"
    unfolding addItem_def Let_def a1_def [symmetric] using arr(1) by simp
  with arr a1 show ?thesis by (auto simp: clist_wf_def clist_items_def)
qed

lemma getItem_in:
  assumes "clist_wf a" "0 \<le> i" "i < int (length (clist_items a))"
  shows "getItem a i = Ok (Some (clist_items a ! nat i))"
proof -
  from assms have "i < cl_occupied a" "filled (cl_array a) (cl_occupied a)"
    using clist_count [OF assms(1)] by (simp_all add: clist_wf_def)
  then show ?thesis
    using peek_live assms(2) by (simp add: getItem_def clist_items_def)
qed

lemma getItem_past: "clist_wf a \<Longrightarrow> int (length (clist_items a)) \<le> i \<Longrightarrow> getItem a i = Ok None"
  using clist_count [of a] by (simp add: getItem_def)

text \<open>A negative index passes the check of \<open>getItem\<close> and reads in front of the block.\<close>

lemma getItem_negative: "clist_wf a \<Longrightarrow> i < 0 \<Longrightarrow> getItem a i = ub Out_Of_Bounds"
  by (auto simp: getItem_def clist_wf_def peek_def filled_def)

lemma removeItem_in:
  assumes "clist_wf a" "0 \<le> i" "i < int (length (clist_items a))"
  shows "\<exists>a'. removeItem a i = Ok a' \<and> clist_wf a'
    \<and> clist_items a' = take (nat i) (clist_items a) @ drop (Suc (nat i)) (clist_items a)"
proof -
  from assms have i: "i < cl_occupied a" and f: "filled (cl_array a) (cl_occupied a)"
    using clist_count [OF assms(1)] by (simp_all add: clist_wf_def)
  from shift_left_live [OF f assms(2) i] assms i show ?thesis
    by (auto simp: removeItem_def clist_wf_def clist_items_def)
qed

lemma removeItem_out:
  "clist_wf a \<Longrightarrow> i < 0 \<or> int (length (clist_items a)) \<le> i \<Longrightarrow> removeItem a i = Ok a"
  using clist_count [of a] by (auto simp: removeItem_def)

interpretation clients_array: growing_array clist_wf clist_items "\<lambda>_ _. True" addItem
  by unfold_locales (use addItem_spec in auto)

interpretation clients_store: removable_array clist_wf clist_items "\<lambda>_ _. True" addItem getItem removeItem
  by unfold_locales (simp_all add: getItem_in removeItem_in removeItem_out)

lemma addNameItem_spec:
  assumes "nlist_wf a"
  shows "\<exists>a'. addNameItem a x = Ok a' \<and> nlist_wf a' \<and> nlist_items a' = nlist_items a @ [x]"
proof -
  define a1 where "a1 = (if nl_size a = nl_occupied a
    then a\<lparr>nl_array := realloc (nl_array a) (nat (ADD_SIZE + nl_size a)), nl_size := ADD_SIZE + nl_size a\<rparr>
    else a)"
  have a1: "nlist_wf a1 \<and> nlist_items a1 = nlist_items a \<and> nl_occupied a1 < int (length (nl_array a1))"
    using assms grow_room [of "nl_array a" "nl_occupied a" ADD_SIZE "nl_array a1"]
    by (auto simp: a1_def nlist_wf_def nlist_items_def ADD_SIZE_def filled_bounds)
  then obtain arr where arr: "poke (nl_array a1) (nl_occupied a1) (Some x) = Ok arr"
    "length arr = length (nl_array a1)" "filled arr (nl_occupied a1 + 1)"
    "live arr (nl_occupied a1 + 1) = live (nl_array a1) (nl_occupied a1) @ [x]"
    using poke_append [of "nl_array a1" "nl_occupied a1" x] by (auto simp: nlist_wf_def)
  have "addNameItem a x = Ok (a1\<lparr>nl_array := arr, nl_occupied := nl_occupied a1 + 1\<rparr>)"
    unfolding addNameItem_def Let_def a1_def [symmetric] using arr(1) by simp
  with arr a1 show ?thesis by (auto simp: nlist_wf_def nlist_items_def)
qed

interpretation names_array: growing_array nlist_wf nlist_items "\<lambda>_ _. True" addNameItem
  by unfold_locales (use addNameItem_spec in auto)

section \<open>Searching\<close>

text \<open>Where the first entry named \<open>s\<close> is, or \<open>-1\<close>.\<close>

definition client_index :: "string \<Rightarrow> client_t list \<Rightarrow> int" where
  "client_index s xs =
    (let j = length (takeWhile (\<lambda>c. client c \<noteq> s) xs) in if j < length xs then int j else - 1)"

lemma client_index_Cons:
  "client_index s (c # xs) =
    (if client c = s then 0 else if client_index s xs = - 1 then - 1 else client_index s xs + 1)"
  by (simp add: client_index_def Let_def)

lemma client_index_Nil [simp]: "client_index s [] = - 1"
  by (simp add: client_index_def)

lemma client_index_absent: "s \<notin> client ` set xs \<Longrightarrow> client_index s xs = - 1"
  by (induction xs) (auto simp: client_index_Cons)

lemma client_index_present:
  "s \<notin> client ` set xs \<Longrightarrow> client c = s \<Longrightarrow> client_index s (xs @ c # ys) = int (length xs)"
  by (induction xs) (auto simp: client_index_Cons)

lemma client_index_bound: "- 1 \<le> client_index s xs \<and> client_index s xs < int (length xs)"
  by (simp add: client_index_def Let_def)

lemma client_split:
  assumes "s \<in> client ` set xs"
  obtains ys c zs where "xs = ys @ c # zs" "client c = s" "s \<notin> client ` set ys"
proof -
  from assms obtain c where "c \<in> set xs" "client c = s" by auto
  then obtain ys d zs where "xs = ys @ d # zs" "client d = s" "\<forall>e\<in>set ys. client e \<noteq> s"
    using split_list_first_prop [of xs "\<lambda>e. client e = s"] by blast
  then show ?thesis by (intro that [of ys d zs]) auto
qed

lemma findItem_from_spec:
  assumes "clist_wf a" "0 \<le> i"
  shows "findItem_from a (Some s) i =
    Ok (let r = client_index s (drop (nat i) (clist_items a)) in if r = - 1 then - 1 else i + r)"
  using assms
proof (induction a "Some s" i rule: findItem_from.induct)
  case (1 a i)
  note cnt = clist_count [OF 1(2)]
  show ?case
  proof (cases "i < cl_occupied a")
    case False
    with 1(3) cnt show ?thesis by (simp add: findItem_from.simps [of a _ i])
  next
    case True
    with 1(3) cnt have k: "nat i < length (clist_items a)" by linarith
    let ?c = "clist_items a ! nat i"
    have d: "drop (nat i) (clist_items a) = ?c # drop (nat (i + 1)) (clist_items a)"
      using Cons_nth_drop_Suc [OF k] 1(3) by (simp add: nat_add_distrib)
    have g: "getItem a i = Ok (Some ?c)"
      using True cnt 1(2,3) by (simp add: getItem_in)
    from 1(1) [OF True g] True 1(2,3) g client_index_bound [of s "drop (nat (i + 1)) (clist_items a)"]
    show ?thesis
      by (auto simp: findItem_from.simps [of a _ i] d client_index_Cons Let_def)
  qed
qed

lemma findItem_spec: "clist_wf a \<Longrightarrow> findItem a (Some s) = Ok (client_index s (clist_items a))"
  by (simp add: findItem_def findItem_from_spec Let_def)

text \<open>A NULL name is read only when there is an entry to compare it with.\<close>

lemma findItem_NULL:
  assumes "clist_wf a"
  shows "findItem a None = (if clist_items a = [] then Ok (- 1) else ub Null_Pointer)"
  using clist_count [OF assms] getItem_in [OF assms, of 0]
  by (auto simp: findItem_def findItem_from.simps [of a None 0])

lemma hasNameItem_from_spec:
  assumes "nlist_wf a" "0 \<le> i"
  shows "hasNameItem_from a (Some s) i = Ok (if s \<in> set (drop (nat i) (nlist_items a)) then 1 else 0)"
  using assms
proof (induction a "Some s" i rule: hasNameItem_from.induct)
  case (1 a i)
  note cnt = nlist_count [OF 1(2)]
  show ?case
  proof (cases "i < nl_occupied a")
    case False
    with 1(3) cnt show ?thesis by (simp add: hasNameItem_from.simps [of a _ i])
  next
    case True
    with 1(3) cnt have k: "nat i < length (nlist_items a)" by linarith
    let ?c = "nlist_items a ! nat i"
    have d: "drop (nat i) (nlist_items a) = ?c # drop (nat (i + 1)) (nlist_items a)"
      using Cons_nth_drop_Suc [OF k] 1(3) by (simp add: nat_add_distrib)
    have g: "peek (nl_array a) i = Ok (Some ?c)"
      using True 1(2,3) by (simp add: nlist_wf_def nlist_items_def peek_live)
    from 1(1) [OF True g] True 1(2,3) g show ?thesis
      by (auto simp: hasNameItem_from.simps [of a _ i] d)
  qed
qed

lemma hasNameItem_spec:
  "nlist_wf a \<Longrightarrow> hasNameItem a (Some s) = Ok (if s \<in> set (nlist_items a) then 1 else 0)"
  by (simp add: hasNameItem_def hasNameItem_from_spec)

lemma nlist_peek:
  assumes "nlist_wf a" "0 \<le> i" "i < nl_occupied a"
  shows "peek (nl_array a) i = Ok (Some (nlist_items a ! nat i))"
  using assms by (simp add: nlist_wf_def nlist_items_def peek_live)

lemma hasNameItem_NULL:
  assumes "nlist_wf a"
  shows "hasNameItem a None = (if nlist_items a = [] then Ok 0 else ub Null_Pointer)"
  using nlist_count [OF assms] nlist_peek [OF assms, of 0]
  by (auto simp: hasNameItem_def hasNameItem_from.simps [of a None 0])

lemma lastNameItem_absent:
  assumes "nlist_wf a" "0 \<le> i" "s \<notin> set (drop (nat i) (nlist_items a))"
  shows "lastNameItem_from a (Some s) i idx = Ok idx"
  using assms
proof (induction a "Some s" i idx rule: lastNameItem_from.induct)
  case (1 a i idx)
  show ?case
  proof (cases "i < nl_occupied a")
    case False
    then show ?thesis by (simp add: lastNameItem_from.simps [of a _ i])
  next
    case True
    with 1(3) nlist_count [OF 1(2)] have k: "nat i < length (nlist_items a)" by linarith
    let ?c = "nlist_items a ! nat i"
    have d: "drop (nat i) (nlist_items a) = ?c # drop (nat (i + 1)) (nlist_items a)"
      using Cons_nth_drop_Suc [OF k] 1(3) by (simp add: nat_add_distrib)
    have g: "peek (nl_array a) i = Ok (Some ?c)" using True 1(2,3) by (simp add: nlist_peek)
    from 1(4) d have "s \<noteq> ?c" "s \<notin> set (drop (nat (i + 1)) (nlist_items a))" by auto
    with 1(1) [OF True g, of s ?c] True 1(2,3) g show ?thesis
      by (simp add: lastNameItem_from.simps [of a _ i])
  qed
qed

lemma lastNameItem_present:
  assumes "nlist_wf a" "0 \<le> i" "i \<le> int (length xs)" "nlist_items a = xs @ s # ys" "s \<notin> set ys"
  shows "lastNameItem_from a (Some s) i idx = Ok (int (length xs))"
  using assms
proof (induction a "Some s" i idx rule: lastNameItem_from.induct)
  case (1 a i idx)
  from 1(2,4,5) nlist_count [OF 1(2)] have lt: "i < nl_occupied a" by simp
  let ?c = "nlist_items a ! nat i"
  have g: "peek (nl_array a) i = Ok (Some ?c)" using lt 1(2,3) by (simp add: nlist_peek)
  show ?case
  proof (cases "i = int (length xs)")
    case True
    have "lastNameItem_from a (Some s) (i + 1) i = Ok i"
      using 1(2,3,5,6) True by (intro lastNameItem_absent) (simp_all add: nat_add_distrib)
    with True lt g 1(5) show ?thesis by (subst lastNameItem_from.simps) simp
  next
    case False
    with 1(1) [OF lt g, of s ?c] 1(2-6) lt g show ?thesis
      by (simp add: lastNameItem_from.simps [of a _ i])
  qed
qed

text \<open>\<open>removeNameItem\<close> removes the last entry equal to the name.\<close>

definition remove_last :: "'a \<Rightarrow> 'a list \<Rightarrow> 'a list" where
  "remove_last x xs = rev (remove1 x (rev xs))"

lemma remove_last_absent: "x \<notin> set xs \<Longrightarrow> remove_last x xs = xs"
  by (simp add: remove_last_def remove1_idem)

lemma remove_last_split: "x \<notin> set ys \<Longrightarrow> remove_last x (xs @ x # ys) = xs @ ys"
  by (simp add: remove_last_def remove1_append)

lemma remove_last_distinct: "distinct xs \<Longrightarrow> remove_last x xs = filter (\<lambda>y. y \<noteq> x) xs"
  by (simp add: remove_last_def distinct_remove1_removeAll removeAll_filter_not_eq rev_filter eq_commute)

lemma removeNameItem_spec:
  assumes "nlist_wf a"
  shows "\<exists>a'. removeNameItem a (Some s) = Ok a' \<and> nlist_wf a'
    \<and> nlist_items a' = remove_last s (nlist_items a)"
proof (cases "s \<in> set (nlist_items a)")
  case False
  with assms show ?thesis
    by (simp add: removeNameItem_def lastNameItem_absent remove_last_absent)
next
  case True
  then obtain xs ys where L: "nlist_items a = xs @ s # ys" "s \<notin> set ys"
    using split_list_last by fastforce
  have f: "filled (nl_array a) (nl_occupied a)" "int (length xs) < nl_occupied a"
    using assms nlist_count [OF assms] L(1) by (simp_all add: nlist_wf_def)
  have idx: "lastNameItem_from a (Some s) 0 (- 1) = Ok (int (length xs))"
    using assms L by (intro lastNameItem_present) auto
  obtain arr where "shift_left (nl_array a) (int (length xs)) (nl_occupied a - 1) = Ok arr"
    "length arr = length (nl_array a)" "filled arr (nl_occupied a - 1)"
    "live arr (nl_occupied a - 1) = xs @ ys"
    using shift_left_live [OF f(1) _ f(2)] L(1) by (auto simp: nlist_items_def)
  with assms idx L show ?thesis
    by (auto simp: removeNameItem_def nlist_wf_def nlist_items_def remove_last_split)
qed

section \<open>The text of a list reply\<close>

definition names_text :: "client_t list \<Rightarrow> string" where
  "names_text xs = concat (map (\<lambda>c. client c @ '':'') xs)"

lemma names_text_simps [simp]:
  "names_text [] = []" "names_text (c # xs) = client c @ '':'' @ names_text xs"
  "names_text (xs @ ys) = names_text xs @ names_text ys"
  by (simp_all add: names_text_def)

text \<open>
  One item: while the block need not grow, the step succeeds when the name and its colon leave
  room for the zero byte, and it writes one byte past the block when they fill it exactly.
\<close>

lemma printList_item_fits:
  "length temp = t \<Longrightarrow> t + length (client c) + 1 < S \<Longrightarrow>
    printList_item c (S, temp, t) = Ok (S, temp @ client c @ '':'', t + length (client c) + 1)"
  by (simp add: printList_item_def cstore_def)

lemma printList_item_full:
  "length temp = t \<Longrightarrow> t + length (client c) + 1 = S \<Longrightarrow> printList_item c (S, temp, t) = ub Out_Of_Bounds"
  by (auto simp: printList_item_def cstore_def)

lemma printList_item_result:
  "length temp = t \<Longrightarrow> printList_item c (S, temp, t) = Ok (S', temp', t') \<Longrightarrow>
    temp' = temp @ client c @ '':'' \<and> t' = length temp'"
  by (auto simp: printList_item_def cstore_Ok_iff res_simps Let_def)

text \<open>The loop over the occupied slots is a fold over the contents.\<close>

fun print_items :: "client_t list \<Rightarrow> nat \<times> string \<times> nat \<Rightarrow> (nat \<times> string \<times> nat) res" where
  "print_items [] st = Ok st"
| "print_items (c # xs) st = res_bind (printList_item c st) (print_items xs)"

lemma printList_from_items:
  assumes "clist_wf a" "0 \<le> i"
  shows "printList_from a i st = print_items (drop (nat i) (clist_items a)) st"
  using assms
proof (induction a i st rule: printList_from.induct)
  case (1 a i st)
  note cnt = clist_count [OF 1(2)]
  show ?case
  proof (cases "i < cl_occupied a")
    case False
    with 1(3) cnt show ?thesis by (simp add: printList_from.simps [of a i])
  next
    case True
    with 1(3) cnt have k: "nat i < length (clist_items a)" by linarith
    let ?c = "clist_items a ! nat i"
    have d: "drop (nat i) (clist_items a) = ?c # drop (nat (i + 1)) (clist_items a)"
      using Cons_nth_drop_Suc [OF k] 1(3) by (simp add: nat_add_distrib)
    have g: "getItem a i = Ok (Some ?c)"
      using True cnt 1(2,3) by (simp add: getItem_in)
    have "res_bind (printList_item ?c st) (\<lambda>st'. printList_from a (i + 1) st')
      = res_bind (printList_item ?c st) (\<lambda>st'. print_items (drop (nat (i + 1)) (clist_items a)) st')"
      by (rule res_bind_cong [OF refl]) (use 1(1) [OF True g] 1(2,3) in simp)
    with True g show ?thesis by (simp add: printList_from.simps [of a i] d)
  qed
qed

lemma print_items_result:
  "length temp = t \<Longrightarrow> print_items xs (S, temp, t) = Ok (S', temp', t') \<Longrightarrow>
    temp' = temp @ names_text xs \<and> t' = length temp'"
proof (induction xs arbitrary: S temp t)
  case Nil
  then show ?case by simp
next
  case (Cons c xs)
  from Cons.prems(2) obtain S1 temp1 t1 where
    i: "printList_item c (S, temp, t) = Ok (S1, temp1, t1)" "print_items xs (S1, temp1, t1) = Ok (S', temp', t')"
    by (auto simp: res_simps)
  from printList_item_result [OF Cons.prems(1) i(1)] have "temp1 = temp @ client c @ '':''" "t1 = length temp1"
    by auto
  with Cons.IH [OF _ i(2)] show ?case by simp
qed

lemma print_items_fits:
  "length temp = t \<Longrightarrow> t + length (names_text xs) < S \<Longrightarrow>
    print_items xs (S, temp, t) = Ok (S, temp @ names_text xs, t + length (names_text xs))"
proof (induction xs arbitrary: temp t)
  case Nil
  then show ?case by simp
next
  case (Cons c xs)
  from Cons.prems have "printList_item c (S, temp, t) = Ok (S, temp @ client c @ '':'', t + length (client c) + 1)"
    by (intro printList_item_fits) simp_all
  with Cons.IH [of "temp @ client c @ '':''" "t + length (client c) + 1"] Cons.prems
  show ?case by simp
qed

lemma print_items_full:
  "xs \<noteq> [] \<Longrightarrow> length temp = t \<Longrightarrow> t + length (names_text xs) = S \<Longrightarrow>
    print_items xs (S, temp, t) = ub Out_Of_Bounds"
proof (induction xs arbitrary: temp t)
  case Nil
  then show ?case by simp
next
  case (Cons c xs)
  show ?case
  proof (cases xs)
    case Nil
    with Cons.prems show ?thesis by (simp add: printList_item_full)
  next
    case (Cons d ys)
    with Cons.prems have "printList_item c (S, temp, t) = Ok (S, temp @ client c @ '':'', t + length (client c) + 1)"
      by (intro printList_item_fits) simp_all
    with Cons.IH [of "temp @ client c @ '':''" "t + length (client c) + 1"] Cons.prems Cons
    show ?thesis by simp
  qed
qed

text \<open>The reply \<open>l:name1:\<dots>:namek::\<close> and its length without the zero byte.\<close>

definition list_reply :: "client_t list \<Rightarrow> string" where
  "list_reply xs = ''l:'' @ names_text xs @ '':''"

lemma length_list_reply: "length (list_reply xs) = length (names_text xs) + 3"
  by (simp add: list_reply_def)

lemma printList_alt:
  assumes "clist_wf a"
  shows "printList a = res_bind (print_items (clist_items a) (1024, ''l:'', 2)) (\<lambda>(S, temp, t).
    res_bind (cstore S (temp @ '':'')) (\<lambda>temp'. Ok (temp', t + 1)))"
  using printList_from_items [OF assms, of 0] by (simp add: printList_def)

lemma printList_result:
  assumes "clist_wf a" "printList a = Ok (text, n)"
  shows "text = list_reply (clist_items a) \<and> n = length text"
proof -
  from assms(2) obtain S temp t where
    p: "print_items (clist_items a) (1024, ''l:'', 2) = Ok (S, temp, t)"
      "text = temp @ '':''" "n = t + 1"
    by (auto simp: printList_alt [OF assms(1)] res_simps cstore_Ok_iff)
  from print_items_result [OF _ p(1)] have "temp = ''l:'' @ names_text (clist_items a)" "t = length temp"
    by auto
  with p(2,3) show ?thesis by (simp add: list_reply_def)
qed

text \<open>
  Up to the point where the block would have to grow, the reply is right exactly when it and its
  zero byte fit the block; the two lengths 1023 and 1024 of the part before the last colon
  overflow it.
\<close>

lemma printList_short:
  assumes "clist_wf a" "length (list_reply (clist_items a)) \<le> 1025"
  shows "printList a =
    (if length (list_reply (clist_items a)) < 1024
     then Ok (list_reply (clist_items a), length (list_reply (clist_items a)))
     else ub Out_Of_Bounds)"
proof (cases "length (names_text (clist_items a)) + 2 < 1024")
  case True
  then have "print_items (clist_items a) (1024, ''l:'', 2)
      = Ok (1024, ''l:'' @ names_text (clist_items a), 2 + length (names_text (clist_items a)))"
    by (intro print_items_fits) simp_all
  with assms True show ?thesis
    by (simp add: printList_alt cstore_def list_reply_def)
next
  case False
  then have n: "length (names_text (clist_items a)) + 2 = 1024"
    using assms(2) by (simp add: length_list_reply)
  then have "clist_items a \<noteq> []" by auto
  then have "print_items (clist_items a) (1024, ''l:'', 2) = ub Out_Of_Bounds"
    using n by (intro print_items_full) simp_all
  with assms n show ?thesis by (simp add: printList_alt length_list_reply)
qed

text \<open>
  In general: with names shorter than the block, the block is overrun exactly when the text of
  some prefix of the list, or the whole text before the last colon and that colon, is as long as
  the block is at that moment.
\<close>

fun list_overflow :: "nat \<Rightarrow> nat \<Rightarrow> client_t list \<Rightarrow> bool" where
  "list_overflow S t [] \<longleftrightarrow> t + 1 = S"
| "list_overflow S t (c # xs) \<longleftrightarrow>
    (let t' = t + length (client c) + 1
     in t' = S \<or> list_overflow (if S < t' then S * 2 else S) t' xs)"

lemma print_items_overflow:
  assumes "length temp = t" "t < S" "CLIENT_NAME_LENGTH < S"
    and "\<forall>c \<in> set xs. length (client c) < CLIENT_NAME_LENGTH"
  shows "res_bind (print_items xs (S, temp, t)) (\<lambda>(S, temp, t).
      res_bind (cstore S (temp @ '':'')) (\<lambda>temp'. Ok (temp', t + 1)))
    = (if list_overflow S t xs then ub Out_Of_Bounds
       else Ok (temp @ names_text xs @ '':'', t + length (names_text xs) + 1))"
  using assms
proof (induction xs arbitrary: S temp t)
  case Nil
  then show ?case by (auto simp: cstore_def)
next
  case (Cons c xs)
  let ?t = "t + length (client c) + 1"
  let ?S = "if S < ?t then S * 2 else S"
  show ?case
  proof (cases "?t = S")
    case True
    with Cons.prems(1) show ?thesis by (simp add: printList_item_full)
  next
    case False
    have len: "length (client c) < CLIENT_NAME_LENGTH" using Cons.prems(4) by simp
    with False Cons.prems(2,3) have fits: "?t < ?S" "CLIENT_NAME_LENGTH < ?S" by auto
    then have "printList_item c (S, temp, t) = Ok (?S, temp @ client c @ '':'', ?t)"
      using Cons.prems(1) by (simp add: printList_item_def Let_def cstore_def)
    with Cons.IH [of "temp @ client c @ '':''" ?t ?S] Cons.prems(1,4) fits False
    show ?thesis by (simp add: Let_def)
  qed
qed

lemma printList_exact:
  assumes "clist_wf a" "\<forall>c \<in> set (clist_items a). length (client c) < CLIENT_NAME_LENGTH"
  shows "printList a =
    (if list_overflow 1024 2 (clist_items a) then ub Out_Of_Bounds
     else Ok (list_reply (clist_items a), length (list_reply (clist_items a))))"
  using print_items_overflow [of "''l:''" 2 1024 "clist_items a"] assms
  by (simp add: printList_alt list_reply_def CLIENT_NAME_LENGTH_def)

end
