(* ===== verification/Regex.thy ===== *)
theory Regex
  imports C_Base
begin

text \<open>
  Regular expressions as \<open>regcomp\<close> and \<open>regexec\<close> treat the two anchored patterns of
  \<^verbatim>\<open>util.c\<close>: bracket expressions, concatenation, alternation, \<open>*\<close> and bounded
  repetition \<open>{m,n}\<close>.  A pattern between \<open>^\<close> and \<open>$\<close> matches the whole string.  The
  matcher takes derivatives; \<open>matches_lang\<close> proves it right for the denoted language.
\<close>

datatype re =
    Nothing
  | Empty
  | Chars "char list"
  | Seq re re
  | Alt re re
  | Star re

fun nullable :: "re \<Rightarrow> bool" where
  "nullable Nothing = False"
| "nullable Empty = True"
| "nullable (Chars cs) = False"
| "nullable (Seq r s) = (nullable r \<and> nullable s)"
| "nullable (Alt r s) = (nullable r \<or> nullable s)"
| "nullable (Star r) = True"

fun deriv :: "char \<Rightarrow> re \<Rightarrow> re" where
  "deriv c Nothing = Nothing"
| "deriv c Empty = Nothing"
| "deriv c (Chars cs) = (if c \<in> set cs then Empty else Nothing)"
| "deriv c (Seq r s) = (if nullable r then Alt (Seq (deriv c r) s) (deriv c s) else Seq (deriv c r) s)"
| "deriv c (Alt r s) = Alt (deriv c r) (deriv c s)"
| "deriv c (Star r) = Seq (deriv c r) (Star r)"

fun matches :: "re \<Rightarrow> string \<Rightarrow> bool" where
  "matches r [] = nullable r"
| "matches r (c # s) = matches (deriv c r) s"

text \<open>\<open>r{n}\<close> and \<open>r{m,m+k}\<close>.\<close>

fun times :: "nat \<Rightarrow> re \<Rightarrow> re" where
  "times 0 r = Empty"
| "times (Suc n) r = Seq r (times n r)"

fun up_to :: "nat \<Rightarrow> re \<Rightarrow> re" where
  "up_to 0 r = Empty"
| "up_to (Suc n) r = Alt Empty (Seq r (up_to n r))"

definition between :: "nat \<Rightarrow> nat \<Rightarrow> re \<Rightarrow> re" where
  "between m n r = Seq (times m r) (up_to (n - m) r)"

section \<open>The denoted language\<close>

inductive_set star :: "string set \<Rightarrow> string set" for A where
  star_empty: "[] \<in> star A"
| star_step: "u \<in> A \<Longrightarrow> v \<in> star A \<Longrightarrow> u @ v \<in> star A"

fun lang :: "re \<Rightarrow> string set" where
  "lang Nothing = {}"
| "lang Empty = {[]}"
| "lang (Chars cs) = {[c] |c. c \<in> set cs}"
| "lang (Seq r s) = {u @ v |u v. u \<in> lang r \<and> v \<in> lang s}"
| "lang (Alt r s) = lang r \<union> lang s"
| "lang (Star r) = star (lang r)"

lemma nullable_lang: "nullable r \<longleftrightarrow> [] \<in> lang r"
  by (induction r) (auto intro: star.intros)

lemma star_Cons:
  "w \<in> star A \<Longrightarrow> w = c # s \<Longrightarrow> \<exists>u v. s = u @ v \<and> c # u \<in> A \<and> v \<in> star A"
proof (induction arbitrary: s rule: star.induct)
  case star_empty
  then show ?case by simp
next
  case (star_step u v)
  then show ?case by (cases u) auto
qed

lemma deriv_lang: "s \<in> lang (deriv c r) \<longleftrightarrow> c # s \<in> lang r"
proof (induction r arbitrary: s)
  case (Seq r1 r2)
  have split: "(\<exists>u v. c # s = u @ v \<and> u \<in> lang r1 \<and> v \<in> lang r2) \<longleftrightarrow>
      ([] \<in> lang r1 \<and> c # s \<in> lang r2) \<or> (\<exists>u v. s = u @ v \<and> c # u \<in> lang r1 \<and> v \<in> lang r2)"
    by (auto simp: Cons_eq_append_conv)
  show ?case
    using Seq by (auto simp: nullable_lang split)
next
  case (Star r)
  have "c # s \<in> star (lang r) \<longleftrightarrow> (\<exists>u v. s = u @ v \<and> c # u \<in> lang r \<and> v \<in> star (lang r))"
    using star_Cons [of "c # s" "lang r" c s] by (auto dest: star_step)
  with Star show ?case by simp
qed auto

lemma matches_lang: "matches r s \<longleftrightarrow> s \<in> lang r"
  by (induction s arbitrary: r) (simp_all add: nullable_lang deriv_lang)

section \<open>Languages of the constructions the patterns use\<close>

lemma lang_Seq_Chars: "s \<in> lang (Seq (Chars cs) r) \<longleftrightarrow> (\<exists>c t. s = c # t \<and> c \<in> set cs \<and> t \<in> lang r)"
proof
  assume "s \<in> lang (Seq (Chars cs) r)"
  then show "\<exists>c t. s = c # t \<and> c \<in> set cs \<and> t \<in> lang r" by auto
next
  assume "\<exists>c t. s = c # t \<and> c \<in> set cs \<and> t \<in> lang r"
  then obtain c t where "s = [c] @ t" "[c] \<in> lang (Chars cs)" "t \<in> lang r" by auto
  then show "s \<in> lang (Seq (Chars cs) r)" unfolding lang.simps by blast
qed

lemma lang_Star_Chars: "lang (Star (Chars cs)) = {s. set s \<subseteq> set cs}"
proof (intro set_eqI iffI)
  fix s assume "s \<in> lang (Star (Chars cs))"
  then have "s \<in> star (lang (Chars cs))" by simp
  then show "s \<in> {s. set s \<subseteq> set cs}"
    by (induction rule: star.induct) auto
next
  fix s assume "s \<in> {s. set s \<subseteq> set cs}"
  then have "set s \<subseteq> set cs" by simp
  then have "s \<in> star (lang (Chars cs))"
  proof (induction s)
    case Nil
    show ?case by (rule star_empty)
  next
    case (Cons c s)
    then show ?case using star_step [of "[c]" "lang (Chars cs)" s] by simp
  qed
  then show "s \<in> lang (Star (Chars cs))" by simp
qed

lemma lang_times: "lang (times n r) = {concat ss |ss. length ss = n \<and> set ss \<subseteq> lang r}"
proof (induction n)
  case 0
  show ?case by auto
next
  case (Suc n)
  have "s \<in> lang (times (Suc n) r) \<longleftrightarrow> s \<in> {concat ss |ss. length ss = Suc n \<and> set ss \<subseteq> lang r}" for s
  proof
    assume "s \<in> lang (times (Suc n) r)"
    then obtain u ss where "s = u @ concat ss" "u \<in> lang r" "length ss = n" "set ss \<subseteq> lang r"
      using Suc by auto
    then have "s = concat (u # ss) \<and> length (u # ss) = Suc n \<and> set (u # ss) \<subseteq> lang r" by simp
    then show "s \<in> {concat ss |ss. length ss = Suc n \<and> set ss \<subseteq> lang r}" by blast
  next
    assume "s \<in> {concat ss |ss. length ss = Suc n \<and> set ss \<subseteq> lang r}"
    then obtain u ss where "s = concat (u # ss)" "length ss = n" "set (u # ss) \<subseteq> lang r"
      by (auto simp: length_Suc_conv)
    then show "s \<in> lang (times (Suc n) r)" using Suc by auto
  qed
  then show ?case by blast
qed

lemma lang_times_Chars: "lang (times n (Chars cs)) = {s. length s = n \<and> set s \<subseteq> set cs}"
proof (induction n)
  case 0
  show ?case by auto
next
  case (Suc n)
  have "s \<in> lang (times (Suc n) (Chars cs)) \<longleftrightarrow> length s = Suc n \<and> set s \<subseteq> set cs" for s
    using Suc by (cases s) (auto simp: lang_Seq_Chars simp del: lang.simps)
  then show ?case by blast
qed

lemma lang_up_to_Chars: "lang (up_to n (Chars cs)) = {s. length s \<le> n \<and> set s \<subseteq> set cs}"
proof (induction n)
  case 0
  show ?case by auto
next
  case (Suc n)
  have "s \<in> lang (up_to (Suc n) (Chars cs)) \<longleftrightarrow> s = [] \<or> s \<in> lang (Seq (Chars cs) (up_to n (Chars cs)))" for s
    by simp
  then have "s \<in> lang (up_to (Suc n) (Chars cs)) \<longleftrightarrow> length s \<le> Suc n \<and> set s \<subseteq> set cs" for s
    using Suc by (cases s) (auto simp: lang_Seq_Chars simp del: lang.simps)
  then show ?case by blast
qed

lemma lang_between_Chars:
  "m \<le> n \<Longrightarrow> lang (between m n (Chars cs)) = {s. m \<le> length s \<and> length s \<le> n \<and> set s \<subseteq> set cs}"
proof (intro set_eqI iffI)
  fix s assume m: "m \<le> n" and "s \<in> lang (between m n (Chars cs))"
  then show "s \<in> {s. m \<le> length s \<and> length s \<le> n \<and> set s \<subseteq> set cs}"
    by (auto simp: between_def lang_times_Chars lang_up_to_Chars)
next
  fix s assume "s \<in> {s. m \<le> length s \<and> length s \<le> n \<and> set s \<subseteq> set cs}"
  then have "s = take m s @ drop m s \<and> length (take m s) = m \<and> set (take m s) \<subseteq> set cs
    \<and> length (drop m s) \<le> n - m \<and> set (drop m s) \<subseteq> set cs"
    by (auto dest: in_set_takeD in_set_dropD)
  then show "s \<in> lang (between m n (Chars cs))"
    unfolding between_def lang.simps lang_times_Chars lang_up_to_Chars by blast
qed

end
