(* ===== verification/Pro_Util.thy ===== *)
theory Pro_Util
  imports Regex C_String
begin

text \<open>
  \<^verbatim>\<open>pro/src/util.c\<close>: checks of arguments and files.  \<^verbatim>\<open>HW3\<close>, \<^verbatim>\<open>HW4\<close> and
  \<^verbatim>\<open>hw5\<close> hold copies of the same functions.  The calls of the operating system and of the
  network library are parameters: \<open>inet_pton\<close> (positive for an address it accepts),
  \<open>access\<close> (\<open>-1\<close> when the file cannot be reached) and \<open>stat_size\<close> (\<open>None\<close> when
  \<open>stat\<close> fails).
\<close>

section \<open>The two patterns\<close>

definition digits :: "char list" where
  "digits = ''0123456789''"

definition alnum :: "char list" where
  "alnum = ''abcdefghijklmnopqrstuvwxyzABCDEFGHIJKLMNOPQRSTUVWXYZ0123456789''"

text \<open>\<^verbatim>\<open>^([0-9]{1,3}\.|\*\.){3}([0-9]{1,3}|\*){1}$\<close>\<close>

definition octet :: re where
  "octet = between 1 3 (Chars digits)"

definition ip_pattern :: re where
  "ip_pattern =
    Seq (times 3 (Alt (Seq octet (Chars ''.'')) (Seq (Chars ''*'') (Chars ''.''))))
        (times 1 (Alt octet (Chars ''*'')))"

text \<open>\<^verbatim>\<open>^[a-zA-Z0-9]*$\<close>\<close>

definition name_pattern :: re where
  "name_pattern = Star (Chars alnum)"

section \<open>The functions\<close>

definition isValidIP :: "(string \<Rightarrow> int) \<Rightarrow> string \<Rightarrow> int" where
  "isValidIP inet_pton ipaddr =
    (if \<not> matches ip_pattern ipaddr then 0
     else let result = inet_pton ipaddr in if 0 < result then 1 else 0)"

definition isValidPort :: "string \<Rightarrow> int" where
  "isValidPort port = (let p = atoi port in if p = 0 then p else 1)"

definition failHandler :: "string \<Rightarrow> 'a res" where
  "failHandler failMessage = Inl (Exit failMessage)"

definition hasFile :: "(string \<Rightarrow> int) \<Rightarrow> string \<Rightarrow> int" where
  "hasFile access fname = (if access fname \<noteq> - 1 then 1 else 0)"

definition isNumber :: "string \<Rightarrow> int" where
  "isNumber connectnum = (let p = atoi connectnum in if p = 0 then p else 1)"

text \<open>The result of \<open>stat\<close> is not checked: where it fails the size is indeterminate.\<close>

definition file_length :: "(string \<Rightarrow> int option) \<Rightarrow> string \<Rightarrow> int res" where
  "file_length stat_size filename =
    (case stat_size filename of None \<Rightarrow> ub Uninitialised | Some st_size \<Rightarrow> Ok st_size)"

definition isOnlyLettersOrNumbers :: "string \<Rightarrow> int" where
  "isOnlyLettersOrNumbers name = (if matches name_pattern name then 1 else 0)"

section \<open>What the patterns accept\<close>

lemma name_pattern_set: "matches name_pattern s \<longleftrightarrow> set s \<subseteq> set alnum"
  by (simp add: matches_lang name_pattern_def lang_Star_Chars del: lang.simps)

lemma isOnlyLettersOrNumbers_iff: "isOnlyLettersOrNumbers s = 1 \<longleftrightarrow> set s \<subseteq> set alnum"
  by (simp add: isOnlyLettersOrNumbers_def name_pattern_set)

lemma alnum_not_special: "set s \<subseteq> set alnum \<Longrightarrow> CHR '':'' \<notin> set s \<and> no_nul s"
  by (auto simp: alnum_def no_nul_def)

text \<open>A field of an address pattern: a star or one to three digits.\<close>

definition ip_field :: "string \<Rightarrow> bool" where
  "ip_field f \<longleftrightarrow> f = ''*'' \<or> (1 \<le> length f \<and> length f \<le> 3 \<and> set f \<subseteq> set digits)"

lemma lang_octet: "lang octet = {s. 1 \<le> length s \<and> length s \<le> 3 \<and> set s \<subseteq> set digits}"
  unfolding octet_def by (rule lang_between_Chars) simp

lemma lang_dotted_field:
  "lang (Alt (Seq octet (Chars ''.'')) (Seq (Chars ''*'') (Chars ''.''))) = {f @ ''.'' |f. ip_field f}"
  by (auto simp: lang_octet ip_field_def)

lemma lang_last_field: "lang (times 1 (Alt octet (Chars ''*''))) = {f. ip_field f}"
  by (auto simp: lang_octet ip_field_def)

lemma lang_times_3: "lang (times 3 r) = {x @ y @ z |x y z. x \<in> lang r \<and> y \<in> lang r \<and> z \<in> lang r}"
  by (auto simp: eval_nat_numeral)

lemma ip_pattern_fields:
  "matches ip_pattern s \<longleftrightarrow>
    (\<exists>a b c d. ip_field a \<and> ip_field b \<and> ip_field c \<and> ip_field d
      \<and> s = a @ ''.'' @ b @ ''.'' @ c @ ''.'' @ d)"
proof -
  let ?F = "{f @ ''.'' |f. ip_field f}"
  have m: "matches ip_pattern s \<longleftrightarrow> (\<exists>x y z d. s = (x @ y @ z) @ d \<and> x \<in> ?F \<and> y \<in> ?F \<and> z \<in> ?F \<and> ip_field d)"
    unfolding matches_lang ip_pattern_def lang.simps(4) lang_last_field lang_times_3 lang_dotted_field
    by blast
  show ?thesis
  proof
    assume "matches ip_pattern s"
    then obtain a b c d where f: "ip_field a" "ip_field b" "ip_field c" "ip_field d"
      and s: "s = ((a @ ''.'') @ (b @ ''.'') @ (c @ ''.'')) @ d"
      unfolding m by blast
    from s have "s = a @ ''.'' @ b @ ''.'' @ c @ ''.'' @ d" by simp
    with f show "\<exists>a b c d. ip_field a \<and> ip_field b \<and> ip_field c \<and> ip_field d
      \<and> s = a @ ''.'' @ b @ ''.'' @ c @ ''.'' @ d" by blast
  next
    assume "\<exists>a b c d. ip_field a \<and> ip_field b \<and> ip_field c \<and> ip_field d
      \<and> s = a @ ''.'' @ b @ ''.'' @ c @ ''.'' @ d"
    then obtain a b c d where f: "ip_field a" "ip_field b" "ip_field c" "ip_field d"
      and s: "s = a @ ''.'' @ b @ ''.'' @ c @ ''.'' @ d" by blast
    from s have "s = ((a @ ''.'') @ (b @ ''.'') @ (c @ ''.'')) @ d" by simp
    with f show "matches ip_pattern s" unfolding m by blast
  qed
qed

lemma isValidIP_fields:
  "isValidIP inet_pton s = 1 \<longleftrightarrow> 0 < inet_pton s \<and>
    (\<exists>a b c d. ip_field a \<and> ip_field b \<and> ip_field c \<and> ip_field d
      \<and> s = a @ ''.'' @ b @ ''.'' @ c @ ''.'' @ d)"
  by (simp add: isValidIP_def Let_def ip_pattern_fields)

end
