(* ===== verification/Sockets.thy ===== *)
theory Sockets
  imports Pro_Util
begin

text \<open>
  The set-up of sockets that the programs share: \<^verbatim>\<open>hw2/mysocket.c\<close>, of which
  \<^verbatim>\<open>HW3/mysocket.c\<close> holds a copy.  The results of the system calls are arguments.
\<close>

text \<open>A socket address: the address and the port in host order.\<close>

record sockaddr_in =
  sin_addr :: "32 word"
  sin_port :: "16 word"

definition INADDR_ANY :: "32 word" where "INADDR_ANY = 0"

definition init_socket :: "int \<Rightarrow> string \<Rightarrow> int res" where
  "init_socket tcpsocket failMessage = (if tcpsocket < 0 then failHandler failMessage else Ok tcpsocket)"

text \<open>\<open>htons\<close> keeps the low sixteen bits of the port.\<close>

definition init_address :: "32 word \<Rightarrow> int \<Rightarrow> sockaddr_in" where
  "init_address address port_no = \<lparr>sin_addr = address, sin_port = word_of_int port_no\<rparr>"

definition server_socket_bind_listen :: "int \<Rightarrow> int \<Rightarrow> string \<Rightarrow> unit res" where
  "server_socket_bind_listen bound listening failMessage =
    (if bound < 0 then failHandler failMessage else if listening < 0 then failHandler failMessage else Ok ())"

definition server_socket_accept :: "int \<Rightarrow> string \<Rightarrow> int res" where
  "server_socket_accept accepted failMessage = (if accepted < 0 then failHandler failMessage else Ok accepted)"

definition client_socket_connect :: "int \<Rightarrow> string \<Rightarrow> unit res" where
  "client_socket_connect connected failMessage = (if connected < 0 then failHandler failMessage else Ok ())"

lemma init_socket_Ok_iff: "init_socket s m = Ok t \<longleftrightarrow> 0 \<le> s \<and> t = s"
  by (auto simp: init_socket_def failHandler_def)

lemma bind_listen_Ok_iff: "server_socket_bind_listen b l m = Ok () \<longleftrightarrow> 0 \<le> b \<and> 0 \<le> l"
  by (auto simp: server_socket_bind_listen_def failHandler_def)

lemma accept_Ok_iff: "server_socket_accept a m = Ok t \<longleftrightarrow> 0 \<le> a \<and> t = a"
  by (auto simp: server_socket_accept_def failHandler_def)

text \<open>A port in the range of a port is the one connected to; any other is reduced modulo \<open>2 ^ 16\<close>.\<close>

lemma init_address_port: "uint (sin_port (init_address a p)) = p mod 2 ^ 16"
  by (simp add: init_address_def uint_word_of_int)

end
