(* ===== verification/Pro_Server.thy ===== *)
theory Pro_Server
  imports Pro_Array Sockets
begin

text \<open>
  \<^verbatim>\<open>pro/src/server.c\<close>: what one connection's thread does with the messages it reads
  (\<open>command_response\<close>), on the two global tables.  This theory runs one thread at a time;
  \<open>Pro_Server_Threads\<close> interleaves several.

  \<open>peer\<close> is the address \<open>inet_ntoa\<close> prints for the connection's peer.  A message is the
  list of bytes one \<open>read\<close> returns.  The model asks for the zero byte in the 1024-byte buffer
  before \<open>strtok\<close> runs; the code would notice its absence only when a token reaches the end.
\<close>

section \<open>State and actions\<close>

definition SERVER_BUFF_SIZE :: nat where
  "SERVER_BUFF_SIZE = 1024"

record server =
  clients :: client_list_t
  client_names :: client_name_list_t

datatype action = Send "char list" | CloseFd

text \<open>The bytes of a string literal and its zero byte.\<close>

definition with_nul :: "string \<Rightarrow> char list" where
  "with_nul s = s @ [NUL]"

text \<open>The state after a message, what was sent, and whether the reading loop goes on.\<close>

type_synonym outcome = "(server \<times> action list \<times> bool) res"

section \<open>The handlers\<close>

definition get_client_ip :: "string \<Rightarrow> string res" where
  "get_client_ip peer = cstore 16 peer"

definition send_client :: "client_t \<Rightarrow> char list res" where
  "send_client c =
    res_bind (cstore SERVER_BUFF_SIZE
        (''c:'' @ client c @ '':'' @ ip c @ '':'' @ show_int (port c) @ '':''))
      (\<lambda>buf. Ok (zbuf SERVER_BUFF_SIZE buf))"

definition on_join :: "string \<Rightarrow> server \<Rightarrow> outcome" where
  "on_join saved s =
    (let clientname = fst (strtok '':'' saved)
     in res_bind (hasNameItem (client_names s) clientname) (\<lambda>has.
        if has = 1 then Ok (s, [Send (with_nul CMD_REJECTION_JOIN), CloseFd], False)
        else res_bind (deref clientname) (\<lambda>name.
             res_bind (cstore CLIENT_NAME_LENGTH name) (\<lambda>storename.
             res_bind (addNameItem (client_names s) storename) (\<lambda>ns.
               Ok (s\<lparr>client_names := ns\<rparr>, [Send (with_nul CMD_CONFIRM_JOIN)], True))))))"

definition on_quit :: "string \<Rightarrow> server \<Rightarrow> outcome" where
  "on_quit saved s =
    (let clientname = fst (strtok '':'' saved)
     in res_bind (findItem (clients s) clientname) (\<lambda>idx.
        res_bind (if 0 \<le> idx then removeItem (clients s) idx else Ok (clients s)) (\<lambda>cs.
        res_bind (removeNameItem (client_names s) clientname) (\<lambda>ns.
          Ok (s\<lparr>clients := cs, client_names := ns\<rparr>, [CloseFd], False)))))"

definition on_connect :: "string \<Rightarrow> server \<Rightarrow> outcome" where
  "on_connect saved s =
    (let saved1 = snd (strtok '':'' saved);
         peername = fst (strtok '':'' saved1)
     in res_bind (findItem (clients s) peername) (\<lambda>idx.
        if 0 \<le> idx
        then res_bind (popItem (clients s) idx) (\<lambda>(p, cs).
             res_bind (deref p) (\<lambda>c.
             res_bind (send_client c) (\<lambda>out.
               Ok (s\<lparr>clients := cs\<rparr>, [Send out], True))))
        else Ok (s, [Send (with_nul ''c::'')], True)))"

definition on_wait :: "string \<Rightarrow> string \<Rightarrow> server \<Rightarrow> outcome" where
  "on_wait peer saved s =
    (let (clientname, saved1) = strtok '':'' saved;
         port_str = fst (strtok '':'' saved1)
     in res_bind (deref port_str) (\<lambda>ps.
        res_bind (deref clientname) (\<lambda>name.
        res_bind (cstore CLIENT_NAME_LENGTH name) (\<lambda>nm.
        res_bind (get_client_ip peer) (\<lambda>addr.
        res_bind (addItem (clients s) \<lparr>client = nm, ip = addr, port = atoi ps\<rparr>) (\<lambda>cs.
          Ok (s\<lparr>clients := cs\<rparr>, [], True)))))))"

definition on_list :: "server \<Rightarrow> outcome" where
  "on_list s =
    res_bind (printList (clients s)) (\<lambda>(listbuf, list_length).
      Ok (s, [Send (take list_length listbuf)], True))"

definition on_leavewait :: "string \<Rightarrow> server \<Rightarrow> outcome" where
  "on_leavewait saved s =
    (let clientname = fst (strtok '':'' saved)
     in res_bind (findItem (clients s) clientname) (\<lambda>idx.
        res_bind (if 0 \<le> idx then removeItem (clients s) idx else Ok (clients s)) (\<lambda>cs.
          Ok (s\<lparr>clients := cs\<rparr>, [], True))))"

definition on_unknown :: "server \<Rightarrow> outcome" where
  "on_unknown s = Ok (s, [Send (zbuf SERVER_BUFF_SIZE wrong_cmd_msg)], True)"

text \<open>One pass of the loop of \<open>command_response\<close>, and the loop over what \<open>read\<close> returns.\<close>

definition handle :: "string \<Rightarrow> char list \<Rightarrow> server \<Rightarrow> outcome" where
  "handle peer msg s =
    res_bind (cstr (zbuf SERVER_BUFF_SIZE msg)) (\<lambda>buf.
      let (command, saved) = strtok '':'' buf
      in res_bind (deref command) (\<lambda>cmd.
         if cmd = CMD_JOIN then on_join saved s
         else if cmd = CMD_QUIT then on_quit saved s
         else if cmd = CMD_CONNECT then on_connect saved s
         else if cmd = CMD_WAIT then on_wait peer saved s
         else if cmd = CMD_LIST then on_list s
         else if cmd = CMD_LEAVEWAIT then on_leavewait saved s
         else on_unknown s))"

fun command_response :: "string \<Rightarrow> char list list \<Rightarrow> server \<Rightarrow> (server \<times> action list) res" where
  "command_response peer [] s = Ok (s, [])"
| "command_response peer (msg # msgs) s =
    (if msg = [] then Ok (s, [])
     else res_bind (handle peer msg s) (\<lambda>(s', out, continue).
       if continue
       then res_bind (command_response peer msgs s') (\<lambda>(s'', out'). Ok (s'', out @ out'))
       else Ok (s', out)))"

text \<open>The tables \<open>main\<close> sets up before it listens.\<close>

definition init_server :: server where
  "init_server = \<lparr>clients = initArray, client_names = initNameArray\<rparr>"

text \<open>
  \<open>main\<close> up to its accept loop, given the results of \<open>socket\<close>, \<open>bind\<close> and
  \<open>listen\<close>: the tables and the address listened on.  A pass of the loop starts a thread for
  each connection or ends the program.
\<close>

definition server_check_param :: "string list \<Rightarrow> unit res" where
  "server_check_param argv =
    (if length argv \<noteq> 2 then failHandler ''Please use server by correct input! usage: ./server <portnumber>''
     else if isValidPort (argv ! 1) = 0 then failHandler ''Please use legal port number!''
     else Ok ())"

definition start_server :: "string list \<Rightarrow> int \<Rightarrow> int \<Rightarrow> int \<Rightarrow> (server \<times> sockaddr_in) res" where
  "start_server argv listen_fd bound listening =
    res_bind (server_check_param argv) (\<lambda>_.
      if listen_fd < 0 then failHandler ''create socket error!''
      else if bound < 0 then failHandler ''bind socket error!''
      else if listening < 0 then failHandler ''listen socket error!''
      else Ok (init_server, init_address INADDR_ANY (atoi (argv ! 1))))"

definition accept_client :: "int \<Rightarrow> int \<Rightarrow> int res" where
  "accept_client server_fd create_ret =
    (if server_fd < 0 then failHandler ''accopt socket error!''
     else if create_ret \<noteq> 0 then failHandler ''create thread error!''
     else Ok server_fd)"

section \<open>What the tables always hold\<close>

definition name_ok :: "string \<Rightarrow> bool" where
  "name_ok n \<longleftrightarrow> n \<noteq> [] \<and> length n < CLIENT_NAME_LENGTH \<and> CHR '':'' \<notin> set n \<and> no_nul n"

definition addr_ok :: "string \<Rightarrow> bool" where
  "addr_ok a \<longleftrightarrow> a \<noteq> [] \<and> length a < 16 \<and> CHR '':'' \<notin> set a \<and> no_nul a"

definition entry_ok :: "client_t \<Rightarrow> bool" where
  "entry_ok c \<longleftrightarrow> name_ok (client c) \<and> addr_ok (ip c) \<and> fits_int32 (port c)"

definition waiting :: "server \<Rightarrow> client_t list" where
  "waiting s = clist_items (clients s)"

definition names :: "server \<Rightarrow> string list" where
  "names s = nlist_items (client_names s)"

definition server_ok :: "server \<Rightarrow> bool" where
  "server_ok s \<longleftrightarrow> clist_wf (clients s) \<and> nlist_wf (client_names s)
    \<and> (\<forall>c \<in> set (waiting s). entry_ok c) \<and> (\<forall>n \<in> set (names s). name_ok n)"

lemma server_okD:
  assumes "server_ok s"
  shows "clist_wf (clients s)" "nlist_wf (client_names s)"
    "\<And>c. c \<in> set (waiting s) \<Longrightarrow> entry_ok c" "\<And>n. n \<in> set (names s) \<Longrightarrow> name_ok n"
  using assms by (auto simp: server_ok_def)

lemma init_server_ok: "server_ok init_server"
  by (simp add: server_ok_def init_server_def waiting_def names_def initArray_wf initNameArray_wf)

lemma no_nul_subset: "set t \<subseteq> set u \<Longrightarrow> no_nul u \<Longrightarrow> no_nul t"
  by (auto simp: no_nul_def)

lemma token_name_ok:
  assumes "strtok '':'' u = (Some t, r)" "no_nul u" "length t < CLIENT_NAME_LENGTH"
  shows "name_ok t"
  using strtok_Some_nonempty [OF assms(1)] strtok_token_delims [OF assms(1)]
    no_nul_subset [OF strtok_token_set [OF assms(1)] assms(2)] assms(3)
  by (auto simp: name_ok_def)

text \<open>Removing the first entry of a name.\<close>

fun remove_entry :: "string \<Rightarrow> client_t list \<Rightarrow> client_t list" where
  "remove_entry n [] = []"
| "remove_entry n (c # xs) = (if client c = n then xs else c # remove_entry n xs)"

lemma remove_entry_set: "set (remove_entry n xs) \<subseteq> set xs"
  by (induction xs) auto

lemma remove_entry_absent: "n \<notin> client ` set xs \<Longrightarrow> remove_entry n xs = xs"
  by (induction xs) auto

lemma remove_entry_split:
  "n \<notin> client ` set ys \<Longrightarrow> client c = n \<Longrightarrow> remove_entry n (ys @ c # zs) = ys @ zs"
  by (induction ys) auto

text \<open>The search and removal that QUIT and LEAVEWAIT share.\<close>

definition drop_waiting :: "server \<Rightarrow> string option \<Rightarrow> client_list_t res" where
  "drop_waiting s p = res_bind (findItem (clients s) p) (\<lambda>idx.
    if 0 \<le> idx then removeItem (clients s) idx else Ok (clients s))"

lemma drop_waiting_name:
  assumes "clist_wf (clients s)"
  shows "\<exists>cs. drop_waiting s (Some n) = Ok cs \<and> clist_wf cs
    \<and> clist_items cs = remove_entry n (waiting s)"
proof (cases "n \<in> client ` set (waiting s)")
  case False
  with assms show ?thesis
    by (simp add: drop_waiting_def findItem_spec client_index_absent remove_entry_absent waiting_def)
next
  case True
  then obtain ys c zs where w: "waiting s = ys @ c # zs" "client c = n" "n \<notin> client ` set ys"
    by (rule client_split)
  from clients_store.remove_nth [OF assms] w show ?thesis
    by (simp add: drop_waiting_def findItem_spec [OF assms] client_index_present
        remove_entry_split waiting_def)
qed

lemma drop_waiting_NULL:
  "clist_wf (clients s) \<Longrightarrow> drop_waiting s None = (if waiting s = [] then Ok (clients s) else ub Null_Pointer)"
  by (simp add: drop_waiting_def findItem_NULL waiting_def)

lemma on_quit_alt:
  "on_quit saved s =
    res_bind (drop_waiting s (fst (strtok '':'' saved))) (\<lambda>cs.
    res_bind (removeNameItem (client_names s) (fst (strtok '':'' saved))) (\<lambda>ns.
      Ok (s\<lparr>clients := cs, client_names := ns\<rparr>, [CloseFd], False)))"
  by (simp add: on_quit_def drop_waiting_def Let_def)

lemma on_leavewait_alt:
  "on_leavewait saved s =
    res_bind (drop_waiting s (fst (strtok '':'' saved))) (\<lambda>cs. Ok (s\<lparr>clients := cs\<rparr>, [], True))"
  by (simp add: on_leavewait_def drop_waiting_def Let_def)

text \<open>The search and removal of CONNECT.\<close>

lemma popItem_name:
  assumes "clist_wf (clients s)" "waiting s = ys @ c # zs"
  shows "\<exists>cs. popItem (clients s) (int (length ys)) = Ok (Some c, cs) \<and> clist_wf cs
    \<and> clist_items cs = ys @ zs"
proof -
  from assms(2) have w: "clist_items (clients s) = ys @ c # zs" by (simp add: waiting_def)
  have "\<not> cl_occupied (clients s) \<le> int (length ys)"
    using clist_count [OF assms(1)] w by simp
  with clients_store.remove_nth [OF assms(1) w] clients_store.get [OF assms(1), of "int (length ys)"] w
  show ?thesis by (auto simp: popItem_def)
qed

lemma send_client_ok:
  assumes "entry_ok c"
  shows "send_client c = Ok (zbuf SERVER_BUFF_SIZE
    (''c:'' @ client c @ '':'' @ ip c @ '':'' @ show_int (port c) @ '':''))"
  using assms length_show_int32 [of "port c"]
  by (auto simp: send_client_def cstore_def entry_ok_def name_ok_def addr_ok_def
      CLIENT_NAME_LENGTH_def SERVER_BUFF_SIZE_def)

section \<open>Each handler on a good state\<close>

lemma on_join_NULL: "server_ok s \<Longrightarrow> fst (strtok '':'' u) = None \<Longrightarrow> on_join u s = ub Null_Pointer"
  by (auto simp: on_join_def hasNameItem_NULL dest: server_okD)

lemma on_join_taken:
  "server_ok s \<Longrightarrow> fst (strtok '':'' u) = Some n \<Longrightarrow> n \<in> set (names s) \<Longrightarrow>
    on_join u s = Ok (s, [Send (with_nul CMD_REJECTION_JOIN), CloseFd], False)"
  by (simp add: on_join_def hasNameItem_spec server_okD names_def)

lemma on_join_new:
  assumes "server_ok s" "fst (strtok '':'' u) = Some n" "n \<notin> set (names s)" "length n < CLIENT_NAME_LENGTH"
  shows "\<exists>ns. on_join u s = Ok (s\<lparr>client_names := ns\<rparr>, [Send (with_nul CMD_CONFIRM_JOIN)], True)
    \<and> nlist_wf ns \<and> nlist_items ns = names s @ [n]"
proof -
  obtain ns where "addNameItem (client_names s) n = Ok ns" "nlist_wf ns" "nlist_items ns = names s @ [n]"
    using names_array.grow_cases [OF server_okD(2) [OF assms(1)]] by (auto simp: names_def)
  with assms show ?thesis
    by (auto simp: on_join_def hasNameItem_spec server_okD names_def cstore_def)
qed

lemma on_join_long:
  "server_ok s \<Longrightarrow> fst (strtok '':'' u) = Some n \<Longrightarrow> n \<notin> set (names s) \<Longrightarrow> CLIENT_NAME_LENGTH \<le> length n \<Longrightarrow>
    on_join u s = ub Out_Of_Bounds"
  by (simp add: on_join_def hasNameItem_spec server_okD names_def cstore_def)

lemma lastNameItem_NULL:
  assumes "nlist_wf a" "nlist_items a \<noteq> []"
  shows "lastNameItem_from a None 0 idx = ub Null_Pointer"
proof -
  have "0 < nl_occupied a" using nlist_count [OF assms(1)] assms(2) by simp
  with nlist_peek [OF assms(1) order_refl] show ?thesis
    by (simp add: lastNameItem_from.simps [of a None 0])
qed

lemma removeNameItem_NULL:
  assumes "nlist_wf a"
  shows "removeNameItem a None = (if nlist_items a = [] then Ok a else ub Null_Pointer)"
proof (cases "nlist_items a = []")
  case True
  then have "lastNameItem_from a None 0 (- 1) = Ok (- 1)"
    using nlist_count [OF assms] by (simp add: lastNameItem_from.simps [of a None 0])
  with True show ?thesis by (simp add: removeNameItem_def)
next
  case False
  then show ?thesis using assms by (simp add: removeNameItem_def lastNameItem_NULL)
qed

lemma on_quit_NULL:
  "server_ok s \<Longrightarrow> fst (strtok '':'' u) = None \<Longrightarrow>
    on_quit u s = (if waiting s = [] \<and> names s = [] then Ok (s, [CloseFd], False) else ub Null_Pointer)"
  using server_okD(1,2) [of s] by (auto simp: on_quit_alt drop_waiting_NULL removeNameItem_NULL names_def)

lemma on_quit_name:
  assumes "server_ok s" "fst (strtok '':'' u) = Some n"
  shows "\<exists>cs ns. on_quit u s = Ok (s\<lparr>clients := cs, client_names := ns\<rparr>, [CloseFd], False)
    \<and> clist_wf cs \<and> clist_items cs = remove_entry n (waiting s)
    \<and> nlist_wf ns \<and> nlist_items ns = remove_last n (names s)"
proof -
  obtain cs where "drop_waiting s (Some n) = Ok cs" "clist_wf cs" "clist_items cs = remove_entry n (waiting s)"
    using drop_waiting_name [OF server_okD(1) [OF assms(1)]] by blast
  moreover obtain ns where "removeNameItem (client_names s) (Some n) = Ok ns" "nlist_wf ns"
      "nlist_items ns = remove_last n (names s)"
    using removeNameItem_spec [OF server_okD(2) [OF assms(1)]] by (auto simp: names_def)
  ultimately show ?thesis using assms(2) by (auto simp: on_quit_alt)
qed

lemma on_leavewait_NULL:
  "server_ok s \<Longrightarrow> fst (strtok '':'' u) = None \<Longrightarrow>
    on_leavewait u s = (if waiting s = [] then Ok (s, [], True) else ub Null_Pointer)"
  using server_okD(1) [of s] by (auto simp: on_leavewait_alt drop_waiting_NULL)

lemma on_leavewait_name:
  assumes "server_ok s" "fst (strtok '':'' u) = Some n"
  shows "\<exists>cs. on_leavewait u s = Ok (s\<lparr>clients := cs\<rparr>, [], True)
    \<and> clist_wf cs \<and> clist_items cs = remove_entry n (waiting s)"
  using drop_waiting_name [OF server_okD(1) [OF assms(1)], of n] assms(2)
  by (auto simp: on_leavewait_alt)

lemma on_connect_NULL:
  "server_ok s \<Longrightarrow> fst (strtok '':'' (snd (strtok '':'' u))) = None \<Longrightarrow>
    on_connect u s = (if waiting s = [] then Ok (s, [Send (with_nul ''c::'')], True) else ub Null_Pointer)"
  by (auto simp: on_connect_def findItem_NULL waiting_def Let_def dest: server_okD)

lemma on_connect_absent:
  "server_ok s \<Longrightarrow> fst (strtok '':'' (snd (strtok '':'' u))) = Some n \<Longrightarrow> n \<notin> client ` set (waiting s) \<Longrightarrow>
    on_connect u s = Ok (s, [Send (with_nul ''c::'')], True)"
  by (simp add: on_connect_def findItem_spec server_okD client_index_absent waiting_def Let_def)

text \<open>The bytes that hand out a waiting client.\<close>

definition peer_text :: "client_t \<Rightarrow> string" where
  "peer_text c = ''c:'' @ client c @ '':'' @ ip c @ '':'' @ show_int (port c) @ '':''"

lemma on_connect_present:
  assumes "server_ok s" "fst (strtok '':'' (snd (strtok '':'' u))) = Some n"
    and w: "waiting s = ys @ c # zs" "client c = n" "n \<notin> client ` set ys"
  shows "\<exists>cs. on_connect u s = Ok (s\<lparr>clients := cs\<rparr>, [Send (zbuf SERVER_BUFF_SIZE (peer_text c))], True)
    \<and> clist_wf cs \<and> clist_items cs = ys @ zs"
proof -
  note wf = server_okD(1) [OF assms(1)]
  have "findItem (clients s) (Some n) = Ok (int (length ys))"
    using findItem_spec [OF wf] client_index_present [OF w(3,2)] w(1) by (simp add: waiting_def)
  moreover obtain cs where "popItem (clients s) (int (length ys)) = Ok (Some c, cs)"
      "clist_wf cs" "clist_items cs = ys @ zs"
    using popItem_name [OF wf w(1)] by blast
  moreover have "entry_ok c" using server_okD(3) [OF assms(1)] w(1) by simp
  ultimately show ?thesis
    using assms(2) send_client_ok by (auto simp: on_connect_def Let_def peer_text_def)
qed

lemma on_wait_result:
  assumes "server_ok s" "addr_ok peer"
    and "strtok '':'' u = (Some n, v)" "fst (strtok '':'' v) = Some ps" "length n < CLIENT_NAME_LENGTH"
  shows "\<exists>cs. on_wait peer u s = Ok (s\<lparr>clients := cs\<rparr>, [], True) \<and> clist_wf cs
    \<and> clist_items cs = waiting s @ [\<lparr>client = n, ip = peer, port = atoi ps\<rparr>]"
proof -
  obtain cs where "addItem (clients s) \<lparr>client = n, ip = peer, port = atoi ps\<rparr> = Ok cs" "clist_wf cs"
    "clist_items cs = waiting s @ [\<lparr>client = n, ip = peer, port = atoi ps\<rparr>]"
    using clients_array.grow_cases [OF server_okD(1) [OF assms(1)]] by (auto simp: waiting_def)
  with assms show ?thesis
    by (auto simp: on_wait_def get_client_ip_def addr_ok_def cstore_def)
qed

lemma on_wait_NULL:
  "strtok '':'' u = (p, v) \<Longrightarrow> p = None \<or> fst (strtok '':'' v) = None \<Longrightarrow> on_wait peer u s = ub Null_Pointer"
  by (cases "fst (strtok '':'' v)") (auto simp: on_wait_def)

lemma on_wait_long:
  "strtok '':'' u = (Some n, v) \<Longrightarrow> fst (strtok '':'' v) = Some ps \<Longrightarrow> CLIENT_NAME_LENGTH \<le> length n \<Longrightarrow>
    on_wait peer u s = ub Out_Of_Bounds"
  by (simp add: on_wait_def cstore_def)

lemmas handler_defs = cmd_defs SERVER_BUFF_SIZE_def CLIENT_NAME_LENGTH_def

end
