(* ===== verification/Pro_Accept.thy ===== *)
theory Pro_Accept
  imports Pro_Server
begin

text \<open>
  The hand-over of connections in \<^verbatim>\<open>pro/src/server.c\<close>.  The accept loop of \<open>main\<close> starts a
  thread for each connection and passes it the address of the local variable \<open>server_fd\<close>; the thread
  reads the descriptor from there when it runs.  The variable is local to the loop's body: each pass
  has a new one, whose address the language does not fix.  The model gives it the same place in every
  pass, as compilers do, so a thread that is late reads the descriptor of a later connection; the
  thread's pointer to the variable of a pass that has ended is invalid in any case.
\<close>

section \<open>The loop and its threads\<close>

text \<open>
  The variable, the number of threads that have not read it yet, and the descriptors read by those
  that have.
\<close>

record accept_loop =
  server_fd :: int
  created :: nat
  served :: "int list"

text \<open>A pass of the loop with the results of \<open>accept\<close> and \<open>pthread_create\<close>, or the first step of a thread,
  whose \<open>pthread_detach\<close> is taken to succeed, as it does for a thread just created.\<close>

datatype accept_event = Accepted int int | Thread_reads

definition accept_start :: accept_loop where
  "accept_start = \<lparr>server_fd = 0, created = 0, served = []\<rparr>"

definition client_handler :: "accept_loop \<Rightarrow> accept_loop" where
  "client_handler s =
    (if created s = 0 then s else s\<lparr>created := created s - 1, served := served s @ [server_fd s]\<rparr>)"

fun accept_step :: "accept_event \<Rightarrow> accept_loop \<Rightarrow> accept_loop res" where
  "accept_step (Accepted fd create_ret) s =
    res_bind (accept_client fd create_ret) (\<lambda>fd. Ok (s\<lparr>server_fd := fd, created := created s + 1\<rparr>))"
| "accept_step Thread_reads s = Ok (client_handler s)"

fun accept_run :: "accept_event list \<Rightarrow> accept_loop \<Rightarrow> accept_loop res" where
  "accept_run [] s = Ok s"
| "accept_run (ev # evs) s = res_bind (accept_step ev s) (accept_run evs)"

section \<open>When every connection gets a thread\<close>

fun accepted :: "accept_event list \<Rightarrow> int list" where
  "accepted [] = []"
| "accepted (Accepted fd ret # evs) = fd # accepted evs"
| "accepted (Thread_reads # evs) = accepted evs"

text \<open>No connection is accepted while a thread has not read its descriptor; \<open>k\<close> such threads at first.\<close>

fun in_turn :: "accept_event list \<Rightarrow> nat \<Rightarrow> bool" where
  "in_turn [] k = True"
| "in_turn (Accepted fd ret # evs) k = (k = 0 \<and> in_turn evs (k + 1))"
| "in_turn (Thread_reads # evs) k = in_turn evs (k - 1)"

lemma accept_client_result: "accept_client fd ret = Ok x \<Longrightarrow> x = fd"
  by (auto simp: accept_client_def failHandler_def split: if_splits)

text \<open>What a pending thread reads is what the variable holds or one of the later descriptors.\<close>

lemma pending_reads:
  "accept_run evs s = Ok s' \<Longrightarrow> created s' = 0 \<Longrightarrow> 0 < created s \<Longrightarrow>
    \<exists>fd xs. served s' = served s @ fd # xs \<and> fd \<in> insert (server_fd s) (set (accepted evs))"
proof (induction evs arbitrary: s)
  case Nil
  then show ?case by simp
next
  case (Cons ev evs)
  have grows: "\<exists>xs. served s2 = served s1 @ xs" if "accept_run es s1 = Ok s2" for es s1 s2
    using that
  proof (induction es arbitrary: s1)
    case Nil
    then show ?case by simp
  next
    case (Cons e es)
    obtain s3 where s3: "accept_step e s1 = Ok s3" "accept_run es s3 = Ok s2" using Cons(2) by (auto simp: res_simps)
    have "\<exists>ys. served s3 = served s1 @ ys" using s3(1) by (cases e) (auto simp: client_handler_def res_simps)
    with Cons(1) [OF s3(2)] show ?case by auto
  qed
  show ?case
  proof (cases ev)
    case (Accepted fd ret)
    then obtain x where "accept_client fd ret = Ok x"
      "accept_run evs (s\<lparr>server_fd := x, created := created s + 1\<rparr>) = Ok s'"
      using Cons(2) by (auto simp: res_simps)
    with Cons(1) [of "s\<lparr>server_fd := x, created := created s + 1\<rparr>"] Cons(3) Accepted accept_client_result
    show ?thesis by auto
  next
    case Thread_reads
    then have "accept_run evs (client_handler s) = Ok s'" using Cons(2) by simp
    from grows [OF this] Cons(4) show ?thesis by (auto simp: client_handler_def)
  qed
qed

lemma turns_decide:
  "accept_run evs s = Ok s' \<Longrightarrow> created s' = 0 \<Longrightarrow> created s \<le> 1 \<Longrightarrow>
    distinct ((if created s = 0 then [] else [server_fd s]) @ accepted evs) \<Longrightarrow>
    served s' = served s @ (if created s = 0 then [] else [server_fd s]) @ accepted evs \<longleftrightarrow> in_turn evs (created s)"
proof (induction evs arbitrary: s)
  case Nil
  then show ?case by simp
next
  case (Cons ev evs)
  show ?case
  proof (cases ev)
    case (Accepted fd ret)
    then obtain x where x: "accept_client fd ret = Ok x"
      "accept_run evs (s\<lparr>server_fd := x, created := created s + 1\<rparr>) = Ok s'"
      using Cons(2) by (auto simp: res_simps)
    have fd: "x = fd" by (rule accept_client_result [OF x(1)])
    show ?thesis
    proof (cases "created s = 0")
      case True
      with Cons(1) [OF x(2) Cons(3)] Cons(5) Accepted fd show ?thesis by simp
    next
      case False
      obtain y ys where "served s' = served s @ y # ys" "y \<in> insert fd (set (accepted evs))"
        using pending_reads [OF x(2) Cons(3)] fd by auto
      with False Cons(5) Accepted show ?thesis by auto
    qed
  next
    case Thread_reads
    then have "accept_run evs (client_handler s) = Ok s'" using Cons(2) by simp
    from Cons(1) [OF this Cons(3)] Cons(4,5) Thread_reads show ?thesis
      by (cases "created s = 0") (auto simp: client_handler_def)
  qed
qed

text \<open>
  Property C14.  For connections of different descriptors, and the loop's variable at the same
  address on every pass: threads serve the connections accepted, each one by one thread and in order,
  exactly when no connection is accepted while a thread has not yet read its descriptor.
\<close>

theorem threads_serve_in_turn:
  assumes "accept_run evs accept_start = Ok s" "created s = 0" "distinct (accepted evs)"
  shows "served s = accepted evs \<longleftrightarrow> in_turn evs 0"
  using turns_decide [OF assms(1,2)] assms(3) by (simp add: accept_start_def)

text \<open>Two connections in quick succession: the first is not served, the second by two threads.\<close>

theorem threads_serve_in_turn_witness:
  "\<exists>s. accept_run [Accepted 4 0, Accepted 5 0, Thread_reads, Thread_reads] accept_start = Ok s
    \<and> served s = [5, 5] \<and> (served s = [4, 5] \<longleftrightarrow> in_turn [Accepted 4 0, Accepted 5 0, Thread_reads, Thread_reads] 0)"
proof -
  let ?evs = "[Accepted 4 0, Accepted 5 0, Thread_reads, Thread_reads]"
  let ?s = "\<lparr>server_fd = 5, created = 0, served = [5, 5]\<rparr>"
  have "accept_run ?evs accept_start = Ok ?s"
    by (simp add: accept_start_def accept_client_def client_handler_def)
  then show ?thesis using threads_serve_in_turn [of ?evs ?s] by simp
qed

end
