(* ===== verification/Pro_Server_Spec.thy ===== *)
theory Pro_Server_Spec
  imports Pro_Server
begin

text \<open>
  What the chat server's message handler guarantees: when it runs into undefined behaviour, what
  its tables always hold, and that on well-formed commands it implements an abstract registry of
  names and waiting clients.
\<close>

section \<open>When a message stops the server\<close>

text \<open>A message without the tokens its command needs, with an overlong name, or a list request
  whose reply overruns its block.\<close>

definition stops_server :: "string \<Rightarrow> server \<Rightarrow> bool" where
  "stops_server buf s =
    (case strtok '':'' buf of
       (None, _) \<Rightarrow> True
     | (Some cmd, saved) \<Rightarrow>
         if cmd = CMD_JOIN then
           (case fst (strtok '':'' saved) of None \<Rightarrow> True | Some n \<Rightarrow> CLIENT_NAME_LENGTH \<le> length n)
         else if cmd = CMD_QUIT then
           fst (strtok '':'' saved) = None \<and> (waiting s \<noteq> [] \<or> names s \<noteq> [])
         else if cmd = CMD_CONNECT then
           fst (strtok '':'' (snd (strtok '':'' saved))) = None \<and> waiting s \<noteq> []
         else if cmd = CMD_WAIT then
           (case strtok '':'' saved of
              (None, _) \<Rightarrow> True
            | (Some n, v) \<Rightarrow> fst (strtok '':'' v) = None \<or> CLIENT_NAME_LENGTH \<le> length n)
         else if cmd = CMD_LIST then list_overflow 1024 2 (waiting s)
         else if cmd = CMD_LEAVEWAIT then fst (strtok '':'' saved) = None \<and> waiting s \<noteq> []
         else False)"

lemma on_join_stops:
  assumes "server_ok s"
  shows "(\<exists>e. on_join u s = Inl e) \<longleftrightarrow>
    (case fst (strtok '':'' u) of None \<Rightarrow> True | Some n \<Rightarrow> CLIENT_NAME_LENGTH \<le> length n)"
proof (cases "fst (strtok '':'' u)")
  case None
  with assms show ?thesis by (simp add: on_join_NULL)
next
  case (Some n)
  have "n \<in> set (names s) \<Longrightarrow> length n < CLIENT_NAME_LENGTH"
    using server_okD(4) [OF assms] by (auto simp: name_ok_def)
  with Some show ?thesis
    using on_join_taken [OF assms Some] on_join_new [OF assms Some] on_join_long [OF assms Some]
    by (cases "n \<in> set (names s)"; cases "length n < CLIENT_NAME_LENGTH") auto
qed

lemma on_quit_stops:
  assumes "server_ok s"
  shows "(\<exists>e. on_quit u s = Inl e) \<longleftrightarrow>
    fst (strtok '':'' u) = None \<and> (waiting s \<noteq> [] \<or> names s \<noteq> [])"
  using on_quit_NULL [OF assms] on_quit_name [OF assms]
  by (cases "fst (strtok '':'' u)") fastforce+

lemma on_leavewait_stops:
  assumes "server_ok s"
  shows "(\<exists>e. on_leavewait u s = Inl e) \<longleftrightarrow> fst (strtok '':'' u) = None \<and> waiting s \<noteq> []"
  using on_leavewait_NULL [OF assms] on_leavewait_name [OF assms]
  by (cases "fst (strtok '':'' u)") fastforce+

lemma on_connect_stops:
  assumes "server_ok s"
  shows "(\<exists>e. on_connect u s = Inl e) \<longleftrightarrow>
    fst (strtok '':'' (snd (strtok '':'' u))) = None \<and> waiting s \<noteq> []"
proof (cases "fst (strtok '':'' (snd (strtok '':'' u)))")
  case None
  with assms show ?thesis by (simp add: on_connect_NULL)
next
  case (Some n)
  show ?thesis
  proof (cases "n \<in> client ` set (waiting s)")
    case True
    then obtain ys c zs where "waiting s = ys @ c # zs" "client c = n" "n \<notin> client ` set ys"
      by (rule client_split)
    from on_connect_present [OF assms Some this] Some show ?thesis by auto
  next
    case False
    with on_connect_absent [OF assms Some] Some show ?thesis by simp
  qed
qed

lemma on_wait_stops:
  assumes "server_ok s" "addr_ok peer"
  shows "(\<exists>e. on_wait peer u s = Inl e) \<longleftrightarrow>
    (case strtok '':'' u of
       (None, _) \<Rightarrow> True
     | (Some n, v) \<Rightarrow> fst (strtok '':'' v) = None \<or> CLIENT_NAME_LENGTH \<le> length n)"
proof (cases "strtok '':'' u")
  case (Pair p v)
  show ?thesis
  proof (cases "p = None \<or> fst (strtok '':'' v) = None")
    case True
    with on_wait_NULL [OF Pair] Pair show ?thesis by (auto split: option.splits)
  next
    case False
    then obtain n ps where n: "p = Some n" "fst (strtok '':'' v) = Some ps" by auto
    with Pair on_wait_result [OF assms, of u n v ps] on_wait_long [of u n v ps peer s]
    show ?thesis by (cases "length n < CLIENT_NAME_LENGTH") auto
  qed
qed

lemma on_list_stops:
  assumes "server_ok s"
  shows "(\<exists>e. on_list s = Inl e) \<longleftrightarrow> list_overflow 1024 2 (waiting s)"
  using printList_exact [of "clients s"] server_okD(1,3) [OF assms]
  by (auto simp: on_list_def waiting_def entry_ok_def name_ok_def)

lemma handle_stops:
  assumes "server_ok s" "addr_ok peer" "cstr (zbuf SERVER_BUFF_SIZE msg) = Ok buf"
  shows "(\<exists>e. handle peer msg s = Inl e) \<longleftrightarrow> stops_server buf s"
proof (cases "strtok '':'' buf")
  case (Pair p saved)
  show ?thesis
  proof (cases p)
    case None
    with Pair assms(3) show ?thesis by (simp add: handle_def stops_server_def)
  next
    case (Some cmd)
    with Pair assms show ?thesis
      by (simp add: handle_def stops_server_def on_join_stops on_quit_stops on_connect_stops
          on_wait_stops on_list_stops on_leavewait_stops on_unknown_def)
  qed
qed

section \<open>What the tables always hold\<close>

lemma name_ok_shorten:
  "strtok '':'' u = (Some n, v) \<Longrightarrow> no_nul u \<Longrightarrow> length n < CLIENT_NAME_LENGTH \<Longrightarrow> name_ok n"
  by (rule token_name_ok)

lemma fst_token: "fst (strtok ds u) = Some n \<Longrightarrow> \<exists>v. strtok ds u = (Some n, v)"
  by (cases "strtok ds u") auto

lemma remove_last_set: "set (remove_last x xs) \<subseteq> set xs"
  using set_remove1_subset [of x "rev xs"] by (simp add: remove_last_def)

text \<open>A handler's step in terms of the two contents.\<close>

definition table_step :: "server \<Rightarrow> server \<Rightarrow> bool" where
  "table_step s s' \<longleftrightarrow>
    waiting s' = waiting s \<and> names s' = names s
    \<or> (\<exists>n. name_ok n \<and> n \<notin> set (names s) \<and> waiting s' = waiting s \<and> names s' = names s @ [n])
    \<or> (\<exists>n. waiting s' = remove_entry n (waiting s) \<and> names s' = remove_last n (names s))
    \<or> (\<exists>n. waiting s' = remove_entry n (waiting s) \<and> names s' = names s)
    \<or> (\<exists>c. entry_ok c \<and> waiting s' = waiting s @ [c] \<and> names s' = names s)"

text \<open>What a successful step keeps: well-formed arrays, and one of the table steps.\<close>

definition step_ok :: "server \<Rightarrow> outcome \<Rightarrow> bool" where
  "step_ok s r \<longleftrightarrow> (\<forall>s' out k. r = Ok (s', out, k) \<longrightarrow>
    clist_wf (clients s') \<and> nlist_wf (client_names s') \<and> table_step s s')"

lemma step_ok_stop [simp]: "step_ok s (Inl e)"
  by (simp add: step_ok_def)

lemma step_ok_same: "server_ok s \<Longrightarrow> step_ok s (Ok (s, out, k))"
  by (simp add: step_ok_def table_step_def server_okD)

lemma on_join_step: "server_ok s \<Longrightarrow> no_nul u \<Longrightarrow> step_ok s (on_join u s)"
proof -
  assume s: "server_ok s" and u: "no_nul u"
  show ?thesis
  proof (cases "fst (strtok '':'' u)")
    case None
    with s show ?thesis by (simp add: on_join_NULL)
  next
    case (Some n)
    then obtain v where v: "strtok '':'' u = (Some n, v)" using fst_token by blast
    show ?thesis
    proof (cases "n \<in> set (names s)")
      case True
      with s Some show ?thesis by (simp add: on_join_taken step_ok_same)
    next
      case False
      show ?thesis
      proof (cases "length n < CLIENT_NAME_LENGTH")
        case True
        with on_join_new [OF s Some False True] token_name_ok [OF v u True] False s show ?thesis
          by (auto simp: step_ok_def table_step_def waiting_def names_def server_okD)
      next
        case False
        with \<open>n \<notin> set (names s)\<close> s Some show ?thesis by (simp add: on_join_long)
      qed
    qed
  qed
qed

lemma on_quit_step: "server_ok s \<Longrightarrow> step_ok s (on_quit u s)"
proof (cases "fst (strtok '':'' u)")
  case None
  assume s: "server_ok s"
  with None show ?thesis by (simp add: on_quit_NULL step_ok_same)
next
  case (Some n)
  assume s: "server_ok s"
  from on_quit_name [OF this Some] show ?thesis
    by (fastforce simp: step_ok_def table_step_def waiting_def names_def)
qed

lemma on_leavewait_step: "server_ok s \<Longrightarrow> step_ok s (on_leavewait u s)"
proof (cases "fst (strtok '':'' u)")
  case None
  assume s: "server_ok s"
  with None show ?thesis by (simp add: on_leavewait_NULL step_ok_same)
next
  case (Some n)
  assume s: "server_ok s"
  from on_leavewait_name [OF this Some] server_okD(2) [OF s] show ?thesis
    by (fastforce simp: step_ok_def table_step_def waiting_def names_def)
qed

lemma on_connect_step: "server_ok s \<Longrightarrow> step_ok s (on_connect u s)"
proof (cases "fst (strtok '':'' (snd (strtok '':'' u)))")
  case None
  assume s: "server_ok s"
  with None show ?thesis by (simp add: on_connect_NULL step_ok_same)
next
  case (Some n)
  assume s: "server_ok s"
  show ?thesis
  proof (cases "n \<in> client ` set (waiting s)")
    case False
    with s Some show ?thesis by (simp add: on_connect_absent step_ok_same)
  next
    case True
    then obtain ys c zs where w: "waiting s = ys @ c # zs" "client c = n" "n \<notin> client ` set ys"
      by (rule client_split)
    have "remove_entry n (waiting s) = ys @ zs" using remove_entry_split [OF w(3,2)] w(1) by simp
    moreover obtain cs where "on_connect u s = Ok (s\<lparr>clients := cs\<rparr>, [Send (zbuf SERVER_BUFF_SIZE (peer_text c))], True)"
      "clist_wf cs" "clist_items cs = ys @ zs"
      using on_connect_present [OF s Some w] by blast
    ultimately show ?thesis using server_okD(2) [OF s]
      by (auto simp: step_ok_def table_step_def waiting_def names_def intro: exI [of _ n])
  qed
qed

lemma on_wait_step: "server_ok s \<Longrightarrow> addr_ok peer \<Longrightarrow> no_nul u \<Longrightarrow> step_ok s (on_wait peer u s)"
proof (cases "strtok '':'' u")
  case (Pair p v)
  assume s: "server_ok s" and peer: "addr_ok peer" and u: "no_nul u"
  show ?thesis
  proof (cases "p = None \<or> fst (strtok '':'' v) = None")
    case True
    with on_wait_NULL [OF Pair True] show ?thesis by simp
  next
    case False
    then obtain n ps where n: "p = Some n" "fst (strtok '':'' v) = Some ps" by auto
    show ?thesis
    proof (cases "length n < CLIENT_NAME_LENGTH")
      case True
      let ?c = "\<lparr>client = n, ip = peer, port = atoi ps\<rparr>"
      have t: "strtok '':'' u = (Some n, v)" using Pair n(1) by simp
      then obtain cs where "on_wait peer u s = Ok (s\<lparr>clients := cs\<rparr>, [], True)" "clist_wf cs"
        "clist_items cs = waiting s @ [?c]"
        using on_wait_result [OF s peer _ n(2) True] by blast
      moreover have "entry_ok ?c"
        using token_name_ok [OF t u True] peer atoi_fits by (simp add: entry_ok_def)
      ultimately show ?thesis using server_okD(2) [OF s]
        by (auto simp: step_ok_def table_step_def waiting_def names_def)
    next
      case False
      with Pair n on_wait_long [of u n v ps peer s] show ?thesis by simp
    qed
  qed
qed

lemma on_list_step: "server_ok s \<Longrightarrow> step_ok s (on_list s)"
  by (cases "printList (clients s)") (auto simp: on_list_def step_ok_same)

lemma handle_step:
  assumes "server_ok s" "addr_ok peer"
  shows "step_ok s (handle peer msg s)"
proof (cases "cstr (zbuf SERVER_BUFF_SIZE msg)")
  case (Inl e)
  then show ?thesis by (simp add: handle_def)
next
  case (Inr buf)
  then have b: "no_nul buf" by (rule cstr_no_nul)
  obtain p saved where t: "strtok '':'' buf = (p, saved)" by force
  then have "no_nul saved" using strtok_rest_set [OF t] no_nul_subset b by blast
  then show ?thesis
    using Inr t assms
    by (cases p) (simp_all add: handle_def on_join_step on_quit_step on_connect_step on_wait_step
        on_list_step on_leavewait_step on_unknown_def step_ok_same)
qed

lemma table_step_ok:
  assumes "server_ok s" "table_step s s'" "clist_wf (clients s')" "nlist_wf (client_names s')"
  shows "server_ok s'"
  using assms remove_entry_set remove_last_set
  by (fastforce simp: server_ok_def table_step_def)

lemma table_step_distinct:
  assumes "table_step s s'" "distinct (names s)"
  shows "distinct (names s')"
  using assms by (auto simp: table_step_def remove_last_distinct)

lemma handle_keeps:
  assumes "server_ok s" "addr_ok peer" "distinct (names s)" "handle peer msg s = Ok (s', out, k)"
  shows "server_ok s' \<and> distinct (names s')"
  using handle_step [OF assms(1,2), of msg] assms table_step_ok table_step_distinct
  by (auto simp: step_ok_def)

lemma command_response_keeps:
  assumes "server_ok s" "addr_ok peer" "distinct (names s)" "command_response peer msgs s = Ok (s', out)"
  shows "server_ok s' \<and> distinct (names s')"
  using assms
proof (induction msgs arbitrary: s out)
  case Nil
  then show ?case by simp
next
  case (Cons msg msgs)
  show ?case
  proof (cases "msg = []")
    case True
    with Cons.prems show ?thesis by simp
  next
    case False
    with Cons.prems(4) obtain s1 out1 k where h: "handle peer msg s = Ok (s1, out1, k)"
      and rest: "k \<Longrightarrow> \<exists>out'. command_response peer msgs s1 = Ok (s', out')" "\<not> k \<Longrightarrow> s' = s1"
      by (auto simp: res_simps split: if_splits)
    from handle_keeps [OF Cons.prems(1-3) h] have s1: "server_ok s1" "distinct (names s1)" by auto
    show ?thesis
      using rest s1 Cons.IH [OF s1(1) Cons.prems(2) s1(2)] by (cases k) auto
  qed
qed

section \<open>The abstract registry\<close>

text \<open>
  What the server is for, without arrays and messages: a set of names in use and the queue of
  waiting clients.
\<close>

record registry =
  reg_names :: "string set"
  reg_waiting :: "client_t list"

datatype command =
    Join string | Quit string | Connect string string | Wait string int
  | Listing string | LeaveWait string

datatype answer =
    Accepted | Refused | Peer client_t | No_Peer | Roster "client_t list" | Silent | Goodbye

fun find_entry :: "string \<Rightarrow> client_t list \<Rightarrow> client_t option" where
  "find_entry n [] = None"
| "find_entry n (c # xs) = (if client c = n then Some c else find_entry n xs)"

fun registry_step :: "string \<Rightarrow> command \<Rightarrow> registry \<Rightarrow> registry \<times> answer" where
  "registry_step peer (Join n) r =
    (if n \<in> reg_names r then (r, Refused)
     else (r\<lparr>reg_names := insert n (reg_names r)\<rparr>, Accepted))"
| "registry_step peer (Quit n) r =
    (r\<lparr>reg_names := reg_names r - {n}, reg_waiting := remove_entry n (reg_waiting r)\<rparr>, Goodbye)"
| "registry_step peer (Connect n m) r =
    (case find_entry m (reg_waiting r) of
       None \<Rightarrow> (r, No_Peer)
     | Some c \<Rightarrow> (r\<lparr>reg_waiting := remove_entry m (reg_waiting r)\<rparr>, Peer c))"
| "registry_step peer (Wait n p) r =
    (r\<lparr>reg_waiting := reg_waiting r @ [\<lparr>client = n, ip = peer, port = p\<rparr>]\<rparr>, Silent)"
| "registry_step peer (Listing n) r = (r, Roster (reg_waiting r))"
| "registry_step peer (LeaveWait n) r =
    (r\<lparr>reg_waiting := remove_entry n (reg_waiting r)\<rparr>, Silent)"

text \<open>How an answer looks on the wire, and whether the connection goes on after it.\<close>

fun answer_actions :: "answer \<Rightarrow> action list \<times> bool" where
  "answer_actions Accepted = ([Send (with_nul CMD_CONFIRM_JOIN)], True)"
| "answer_actions Refused = ([Send (with_nul CMD_REJECTION_JOIN), CloseFd], False)"
| "answer_actions (Peer c) = ([Send (zbuf SERVER_BUFF_SIZE (peer_text c))], True)"
| "answer_actions No_Peer = ([Send (with_nul ''c::'')], True)"
| "answer_actions (Roster cs) = ([Send (list_reply cs)], True)"
| "answer_actions Silent = ([], True)"
| "answer_actions Goodbye = ([CloseFd], False)"

text \<open>The bytes the client's \<open>format_\<dots>_cmd\<close> functions produce for a command.\<close>

fun command_bytes :: "command \<Rightarrow> char list res" where
  "command_bytes (Join n) = res_bind (format_join_cmd n) (\<lambda>m. Ok (wire m))"
| "command_bytes (Quit n) = res_bind (format_quit_cmd n) (\<lambda>m. Ok (wire m))"
| "command_bytes (Connect n p) = res_bind (format_connect_cmd n p) (\<lambda>m. Ok (wire m))"
| "command_bytes (Wait n p) = res_bind (format_wait_cmd n p) (\<lambda>m. Ok (wire m))"
| "command_bytes (Listing n) = res_bind (format_list_cmd n) (\<lambda>m. Ok (wire m))"
| "command_bytes (LeaveWait n) = res_bind (format_leavewait_cmd n) (\<lambda>m. Ok (wire m))"

definition registry_of :: "server \<Rightarrow> registry" where
  "registry_of s = \<lparr>reg_names = set (names s), reg_waiting = waiting s\<rparr>"

text \<open>
  The commands a client can issue: its own checked name, a port of the system, and a peer name
  without the separator that leaves the message within one buffer.
\<close>

fun command_ok :: "command \<Rightarrow> bool" where
  "command_ok (Join n) = name_ok n"
| "command_ok (Quit n) = name_ok n"
| "command_ok (Connect n p) = (name_ok n \<and> p \<noteq> [] \<and> CHR '':'' \<notin> set p \<and> no_nul p \<and> length p \<le> 1000)"
| "command_ok (Wait n p) = (name_ok n \<and> 0 \<le> p \<and> p < 65536)"
| "command_ok (Listing n) = name_ok n"
| "command_ok (LeaveWait n) = name_ok n"

fun command_text :: "command \<Rightarrow> string" where
  "command_text (Join n) = ''a:'' @ n @ '':''"
| "command_text (Quit n) = ''q:'' @ n @ '':''"
| "command_text (Connect n p) = ''c:'' @ n @ '':'' @ p @ '':''"
| "command_text (Wait n p) = ''w:'' @ n @ '':'' @ show_int p @ '':''"
| "command_text (Listing n) = ''l:'' @ n @ '':''"
| "command_text (LeaveWait n) = ''r:'' @ n @ '':''"

lemma command_bytes_text:
  assumes "command_ok cmd"
  shows "command_bytes cmd = Ok (with_nul (command_text cmd))
    \<and> no_nul (command_text cmd) \<and> length (command_text cmd) < SERVER_BUFF_SIZE"
proof (cases cmd)
  case (Wait n p)
  with assms port_text [of p] show_int_clean [of p] show ?thesis
    by (simp add: format_wait_cmd_eq wire_def zbuf_def with_nul_def name_ok_def handler_defs)
qed (use assms in \<open>simp_all add: format_cmds wire_def zbuf_def with_nul_def name_ok_def handler_defs\<close>)

lemma cstr_with_nul: "no_nul t \<Longrightarrow> length t < n \<Longrightarrow> cstr (zbuf n (with_nul t)) = Ok t"
  by (auto simp: cstr_zbuf with_nul_def no_nul_def takeWhile_append)

lemma command_arrives:
  "command_ok cmd \<Longrightarrow> command_bytes cmd = Ok msg \<Longrightarrow>
    cstr (zbuf SERVER_BUFF_SIZE msg) = Ok (command_text cmd)"
  using command_bytes_text [of cmd] by (auto simp: cstr_with_nul)

section \<open>The handler implements the registry\<close>

text \<open>The command letter is the first token of every message.\<close>

lemma letter_token: "c \<noteq> CHR '':'' \<Longrightarrow> strtok '':'' (c # CHR '':'' # r) = (Some [c], r)"
  by (simp add: strtok_def)

lemma name_token:
  "n \<noteq> [] \<Longrightarrow> CHR '':'' \<notin> set n \<Longrightarrow> strtok '':'' (n @ CHR '':'' # r) = (Some n, r)"
  by (rule strtok_token) auto

lemma find_entry_absent: "n \<notin> client ` set xs \<Longrightarrow> find_entry n xs = None"
  by (induction xs) auto

lemma find_entry_split:
  "n \<notin> client ` set ys \<Longrightarrow> client c = n \<Longrightarrow> find_entry n (ys @ c # zs) = Some c"
  by (induction ys) auto

text \<open>Which handler a command reaches, and with which text behind the command letter.\<close>

fun command_rest :: "command \<Rightarrow> string" where
  "command_rest (Join n) = n @ '':''"
| "command_rest (Quit n) = n @ '':''"
| "command_rest (Connect n p) = n @ '':'' @ p @ '':''"
| "command_rest (Wait n p) = n @ '':'' @ show_int p @ '':''"
| "command_rest (Listing n) = n @ '':''"
| "command_rest (LeaveWait n) = n @ '':''"

fun command_handler :: "string \<Rightarrow> command \<Rightarrow> server \<Rightarrow> outcome" where
  "command_handler peer (Join n) s = on_join (command_rest (Join n)) s"
| "command_handler peer (Quit n) s = on_quit (command_rest (Quit n)) s"
| "command_handler peer (Connect n p) s = on_connect (command_rest (Connect n p)) s"
| "command_handler peer (Wait n p) s = on_wait peer (command_rest (Wait n p)) s"
| "command_handler peer (Listing n) s = on_list s"
| "command_handler peer (LeaveWait n) s = on_leavewait (command_rest (LeaveWait n)) s"

lemma handle_command:
  "cstr (zbuf SERVER_BUFF_SIZE msg) = Ok (command_text cmd) \<Longrightarrow>
    handle peer msg s = command_handler peer cmd s"
  by (cases cmd) (simp_all add: handle_def letter_token cmd_defs)

lemma command_tokens:
  assumes "command_ok cmd"
  shows "case cmd of
      Connect n p \<Rightarrow> fst (strtok '':'' (snd (strtok '':'' (command_rest cmd)))) = Some p
    | Wait n p \<Rightarrow> strtok '':'' (command_rest cmd) = (Some n, show_int p @ '':'')
        \<and> fst (strtok '':'' (show_int p @ '':'')) = Some (show_int p)
    | Join n \<Rightarrow> fst (strtok '':'' (command_rest cmd)) = Some n
    | Quit n \<Rightarrow> fst (strtok '':'' (command_rest cmd)) = Some n
    | LeaveWait n \<Rightarrow> fst (strtok '':'' (command_rest cmd)) = Some n
    | Listing n \<Rightarrow> True"
  using assms show_int_clean by (cases cmd) (simp_all add: name_token name_ok_def)

text \<open>The simulation, one command at a time.\<close>

definition simulates :: "string \<Rightarrow> command \<Rightarrow> server \<Rightarrow> outcome \<Rightarrow> bool" where
  "simulates peer cmd s r \<longleftrightarrow>
    (\<exists>s'. r = Ok (s', answer_actions (snd (registry_step peer cmd (registry_of s))))
      \<and> registry_of s' = fst (registry_step peer cmd (registry_of s)))"

lemma sim_join:
  assumes "server_ok s" "command_ok (Join n)"
  shows "simulates peer (Join n) s (command_handler peer (Join n) s)"
proof -
  from command_tokens [OF assms(2)] have t: "fst (strtok '':'' (command_rest (Join n))) = Some n"
    by simp
  from assms(2) have len: "length n < CLIENT_NAME_LENGTH" by (simp add: name_ok_def)
  show ?thesis
  proof (cases "n \<in> set (names s)")
    case True
    with on_join_taken [OF assms(1) t] show ?thesis
      by (simp add: simulates_def registry_of_def del: command_rest.simps)
  next
    case False
    with on_join_new [OF assms(1) t False len] show ?thesis
      by (auto simp: simulates_def registry_of_def waiting_def names_def simp del: command_rest.simps)
  qed
qed

lemma sim_quit:
  assumes "server_ok s" "distinct (names s)" "command_ok (Quit n)"
  shows "simulates peer (Quit n) s (command_handler peer (Quit n) s)"
proof -
  from command_tokens [OF assms(3)] have t: "fst (strtok '':'' (command_rest (Quit n))) = Some n"
    by simp
  from on_quit_name [OF assms(1) t] assms(2) show ?thesis
    by (auto simp: simulates_def registry_of_def waiting_def names_def remove_last_distinct
        simp del: command_rest.simps)
qed

lemma sim_connect:
  assumes "server_ok s" "command_ok (Connect n p)"
  shows "simulates peer (Connect n p) s (command_handler peer (Connect n p) s)"
proof -
  from command_tokens [OF assms(2)]
  have t: "fst (strtok '':'' (snd (strtok '':'' (command_rest (Connect n p))))) = Some p" by simp
  show ?thesis
  proof (cases "p \<in> client ` set (waiting s)")
    case False
    with on_connect_absent [OF assms(1) t] show ?thesis
      by (simp add: simulates_def registry_of_def find_entry_absent del: command_rest.simps)
  next
    case True
    then obtain ys c zs where w: "waiting s = ys @ c # zs" "client c = p" "p \<notin> client ` set ys"
      by (rule client_split)
    from on_connect_present [OF assms(1) t w] find_entry_split [OF w(3,2)] remove_entry_split [OF w(3,2)]
    show ?thesis
      by (auto simp: simulates_def registry_of_def waiting_def names_def w(1) [unfolded waiting_def]
          simp del: command_rest.simps)
  qed
qed

lemma sim_wait:
  assumes "server_ok s" "addr_ok peer" "command_ok (Wait n p)"
  shows "simulates peer (Wait n p) s (command_handler peer (Wait n p) s)"
proof -
  from command_tokens [OF assms(3)]
  have t: "strtok '':'' (command_rest (Wait n p)) = (Some n, show_int p @ '':'')"
    "fst (strtok '':'' (show_int p @ '':'')) = Some (show_int p)" by simp_all
  from assms(3) have "length n < CLIENT_NAME_LENGTH" "atoi (show_int p) = p"
    by (simp_all add: name_ok_def atoi_show_int fits_int32_def)
  with on_wait_result [OF assms(1,2) t] show ?thesis
    by (auto simp: simulates_def registry_of_def waiting_def names_def simp del: command_rest.simps)
qed

lemma sim_leavewait:
  assumes "server_ok s" "command_ok (LeaveWait n)"
  shows "simulates peer (LeaveWait n) s (command_handler peer (LeaveWait n) s)"
proof -
  from command_tokens [OF assms(2)] have t: "fst (strtok '':'' (command_rest (LeaveWait n))) = Some n"
    by simp
  from on_leavewait_name [OF assms(1) t] show ?thesis
    by (auto simp: simulates_def registry_of_def waiting_def names_def simp del: command_rest.simps)
qed

lemma sim_list:
  assumes "server_ok s" "\<not> list_overflow 1024 2 (waiting s)"
  shows "simulates peer (Listing n) s (command_handler peer (Listing n) s)"
  using printList_exact [of "clients s"] server_okD(1,3) [OF assms(1)] assms(2)
  by (auto simp: simulates_def on_list_def waiting_def registry_of_def entry_ok_def name_ok_def)

lemma handler_simulates:
  assumes "server_ok s" "distinct (names s)" "addr_ok peer" "command_ok cmd"
    and "\<And>n. cmd = Listing n \<Longrightarrow> \<not> list_overflow 1024 2 (waiting s)"
  shows "simulates peer cmd s (command_handler peer cmd s)"
  using assms sim_list [OF assms(1)]
  by (cases cmd) (auto simp only: sim_join sim_quit sim_connect sim_wait sim_leavewait)

lemma handle_simulates:
  assumes "server_ok s" "distinct (names s)" "addr_ok peer" "command_ok cmd"
    and "\<And>n. cmd = Listing n \<Longrightarrow> \<not> list_overflow 1024 2 (waiting s)"
    and "cstr (zbuf SERVER_BUFF_SIZE msg) = Ok (command_text cmd)"
  shows "\<exists>s'. handle peer msg s = Ok (s', answer_actions (snd (registry_step peer cmd (registry_of s))))
    \<and> registry_of s' = fst (registry_step peer cmd (registry_of s))
    \<and> server_ok s' \<and> distinct (names s')"
proof -
  from handler_simulates [OF assms(1-5)] obtain s' where
    s': "handle peer msg s = Ok (s', answer_actions (snd (registry_step peer cmd (registry_of s))))"
      "registry_of s' = fst (registry_step peer cmd (registry_of s))"
    by (auto simp: simulates_def handle_command [OF assms(6)])
  obtain out k where "answer_actions (snd (registry_step peer cmd (registry_of s))) = (out, k)"
    by force
  with handle_keeps [OF assms(1,3,2), of msg s' out k] s' show ?thesis by simp
qed

section \<open>Properties\<close>

lemmas server_eval = handle_def on_join_def on_unknown_def on_quit_def on_connect_def
  on_leavewait_def strtok_def cstr_zbuf cstore_def with_nul_def handler_defs init_server_def
  initNameArray_def initArray_def ADD_SIZE_def hasNameItem_def hasNameItem_from.simps
  addNameItem_def poke_def peek_def


text \<open>A server with one waiting client, for the witnesses.\<close>

definition bob :: client_t where
  "bob = \<lparr>client = ''bob'', ip = ''10.0.0.7'', port = 4001\<rparr>"

definition bob_server :: server where
  "bob_server =
    \<lparr>clients = \<lparr>cl_array = [Some bob, None, None, None, None], cl_occupied = 1, cl_size = 5\<rparr>,
     client_names = \<lparr>nl_array = [Some ''amy'', Some ''bob'', None, None, None], nl_occupied = 2, nl_size = 5\<rparr>\<rparr>"

lemma bob_server_contents:
  "waiting bob_server = [bob]" "names bob_server = [''amy'', ''bob'']"
  by (simp_all add: bob_server_def waiting_def names_def clist_items_def nlist_items_def live_def
      eval_nat_numeral)

lemma bob_ok: "entry_ok bob"
  by (simp add: entry_ok_def bob_def name_ok_def addr_ok_def CLIENT_NAME_LENGTH_def fits_int32_def)

lemma bob_server_ok: "server_ok bob_server"
proof -
  have "clist_wf (clients bob_server)" "nlist_wf (client_names bob_server)"
    by (simp_all add: bob_server_def clist_wf_def nlist_wf_def filled_def ADD_SIZE_def eval_nat_numeral)
  moreover have "name_ok ''amy''" "name_ok ''bob''"
    by (simp_all add: name_ok_def CLIENT_NAME_LENGTH_def)
  ultimately show ?thesis
    by (simp add: server_ok_def bob_server_contents bob_ok)
qed

text \<open>
  Property C1.  The message handler implements the abstract registry: on the bytes any of the
  client's \<open>format_\<dots>_cmd\<close> functions produces for a well-formed command, the handler does not
  stop, answers on the wire what the registry answers, and leaves tables whose contents are the
  registry's next state, with the tables well-formed and the names distinct again.  The one command
  left out is a list request whose answer overruns its block, which stops the server (C2).
\<close>

theorem server_implements_registry:
  assumes "server_ok s" "distinct (names s)" "addr_ok peer" "command_ok cmd"
    and "\<And>n. cmd = Listing n \<Longrightarrow> \<not> list_overflow 1024 2 (waiting s)"
    and "command_bytes cmd = Ok msg"
  shows "\<exists>s'. handle peer msg s = Ok (s', answer_actions (snd (registry_step peer cmd (registry_of s))))
    \<and> registry_of s' = fst (registry_step peer cmd (registry_of s))
    \<and> server_ok s' \<and> distinct (names s')"
  by (rule handle_simulates [OF assms(1-5) command_arrives [OF assms(4,6)]])

theorem server_implements_registry_witness:
  "\<exists>s'. handle ''10.0.0.9'' (with_nul ''c:amy:bob:'') bob_server
      = Ok (s', [Send (zbuf SERVER_BUFF_SIZE (peer_text bob))], True)
    \<and> waiting s' = [] \<and> set (names s') = {''amy'', ''bob''}"
proof -
  have c: "command_ok (Connect ''amy'' ''bob'')" by (simp add: name_ok_def CLIENT_NAME_LENGTH_def)
  then have b: "command_bytes (Connect ''amy'' ''bob'') = Ok (with_nul ''c:amy:bob:'')"
    using command_bytes_text [OF c] by simp
  have "client bob = ''bob''" by (simp add: bob_def)
  then show ?thesis
    using server_implements_registry [OF bob_server_ok _ _ c _ b, of "''10.0.0.9''"]
    by (auto simp: bob_server_contents registry_of_def addr_ok_def)
qed

text \<open>
  Property C2.  Exactly which messages stop the server: with good tables, a received string runs
  the handler into undefined behaviour if and only if it has no command, or lacks the name (or
  port) tokens its command dereferences, or registers a name of sixteen characters or more, or
  asks for a list whose text overruns the reply block.  Every other string is handled.
\<close>

theorem server_stops_exactly:
  assumes "server_ok s" "addr_ok peer" "cstr (zbuf SERVER_BUFF_SIZE msg) = Ok buf"
  shows "(\<exists>e. handle peer msg s = Inl e) \<longleftrightarrow> stops_server buf s"
  using assms by (rule handle_stops)

theorem server_stops_exactly_witness:
  "(\<exists>e. handle ''10.0.0.9'' (with_nul ''a::'') init_server = Inl e)
    \<and> \<not> (\<exists>e. handle ''10.0.0.9'' (with_nul ''a:eve:'') init_server = Inl e)"
proof -
  have p: "addr_ok ''10.0.0.9''" by (simp add: addr_ok_def)
  have "cstr (zbuf SERVER_BUFF_SIZE (with_nul ''a::'')) = Ok ''a::''"
    "cstr (zbuf SERVER_BUFF_SIZE (with_nul ''a:eve:'')) = Ok ''a:eve:''"
    by (simp_all add: cstr_with_nul SERVER_BUFF_SIZE_def)
  then show ?thesis
    using server_stops_exactly [OF init_server_ok p, of "with_nul ''a::''"]
      server_stops_exactly [OF init_server_ok p, of "with_nul ''a:eve:''"]
    by (simp add: stops_server_def strtok_def handler_defs)
qed

text \<open>
  Property C3.  Whatever bytes one connection sends, as long as the server survives them, the two
  arrays stay well-formed, every stored entry stays printable in a message, and no two registered
  names are equal.
\<close>

theorem connection_keeps_tables:
  assumes "server_ok s" "distinct (names s)" "addr_ok peer" "command_response peer msgs s = Ok (s', out)"
  shows "server_ok s' \<and> distinct (names s')"
  using command_response_keeps [OF assms(1,3,2,4)] .

theorem connection_keeps_tables_witness:
  "\<exists>s' out. command_response ''10.0.0.9'' [with_nul ''a:eve:'', with_nul ''zz''] init_server = Ok (s', out)
    \<and> server_ok s' \<and> distinct (names s')"
proof -
  have "\<exists>s' out. command_response ''10.0.0.9'' [with_nul ''a:eve:'', with_nul ''zz''] init_server = Ok (s', out)"
    by (simp add: server_eval)
  then obtain s' out where
    r: "command_response ''10.0.0.9'' [with_nul ''a:eve:'', with_nul ''zz''] init_server = Ok (s', out)"
    by blast
  have "distinct (names init_server)" "addr_ok ''10.0.0.9''"
    by (simp_all add: names_def init_server_def initNameArray_wf addr_ok_def)
  from connection_keeps_tables [OF init_server_ok this r] r show ?thesis by blast
qed

end
