(* ===== verification/Pro_Server_Threads.thy ===== *)
theory Pro_Server_Threads
  imports Pro_Server_Spec "HOL-Library.Multiset"
begin

text \<open>
  The threads of \<^verbatim>\<open>pro/src/server.c\<close> side by side.  Each connection's thread runs
  \<open>command_response\<close>; they share the two tables, which the code guards with mutexes except for
  the calls of \<open>hasNameItem\<close> and \<open>printList\<close>, and the one static pointer of \<open>strtok\<close>,
  which nothing guards.

  A step of a thread is a stretch of its code with at most one access to shared data: a call of
  \<open>strtok\<close>, an unguarded table read, or a whole mutex region.  The model does not cut an
  unguarded table read into smaller pieces.  Undefined behaviour ends the process, so such a step
  has no successor state.
\<close>

section \<open>Threads\<close>

text \<open>Where a thread is, with the values of its local variables that are still needed.\<close>

datatype pc =
    Reading
  | Dispatch "string option"                     \<comment> \<open>the command token is known\<close>
  | Join_check "string option"                   \<comment> \<open>before \<open>hasNameItem\<close>\<close>
  | Join_add "string option"                     \<comment> \<open>the name was free; before the mutex\<close>
  | Quit_clients "string option"
  | Quit_names "string option"
  | Connect_peer                                 \<comment> \<open>before the second token\<close>
  | Connect_pop "string option"
  | Wait_port "string option"                    \<comment> \<open>before the second token\<close>
  | Wait_add "string option" "string option"
  | List_print
  | Leave_clients "string option"
  | Finished

text \<open>
  The shared state: the tables, the text behind the static pointer of \<open>strtok\<close> with the thread
  whose buffer it points into, and the threads.  Three history variables record the entries added
  to the waiting table, the entries sent to a peer, and the bytes sent to each thread's client.
\<close>

record shared =
  tables :: server
  saved :: "nat \<times> string"
  pcs :: "nat \<Rightarrow> pc"
  added :: "client_t list"
  handed :: "client_t list"
  sent :: "(nat \<times> char list) list"

definition goto :: "nat \<Rightarrow> pc \<Rightarrow> shared \<Rightarrow> shared" where
  "goto t p g = g\<lparr>pcs := (pcs g)(t := p)\<rparr>"

text \<open>The end of a pass of the loop clears the thread's buffer, and with it text saved in it.\<close>

definition again :: "nat \<Rightarrow> shared \<Rightarrow> shared" where
  "again t g = goto t Reading (if fst (saved g) = t then g\<lparr>saved := (t, [])\<rparr> else g)"

definition reply :: "nat \<Rightarrow> char list \<Rightarrow> shared \<Rightarrow> shared" where
  "reply t bytes g = g\<lparr>sent := sent g @ [(t, bytes)]\<rparr>"

text \<open>\<open>strtok(NULL, ":")\<close> by whichever thread calls it.\<close>

definition next_token :: "shared \<Rightarrow> string option \<times> shared" where
  "next_token g =
    (let (tok, rest) = strtok '':'' (snd (saved g)) in (tok, g\<lparr>saved := (fst (saved g), rest)\<rparr>))"

section \<open>One step of a thread\<close>

definition dispatch :: "nat \<Rightarrow> string \<Rightarrow> shared \<Rightarrow> shared" where
  "dispatch t cmd g =
    (let (tok, g') = next_token g
     in if cmd = CMD_JOIN then goto t (Join_check tok) g'
        else if cmd = CMD_QUIT then goto t (Quit_clients tok) g'
        else if cmd = CMD_CONNECT then goto t Connect_peer g'
        else if cmd = CMD_WAIT then goto t (Wait_port tok) g'
        else if cmd = CMD_LIST then goto t List_print g
        else if cmd = CMD_LEAVEWAIT then goto t (Leave_clients tok) g'
        else again t (reply t (zbuf SERVER_BUFF_SIZE wrong_cmd_msg) g))"

definition set_clients :: "client_list_t \<Rightarrow> shared \<Rightarrow> shared" where
  "set_clients cs g = g\<lparr>tables := (tables g)\<lparr>clients := cs\<rparr>\<rparr>"

definition set_names :: "client_name_list_t \<Rightarrow> shared \<Rightarrow> shared" where
  "set_names ns g = g\<lparr>tables := (tables g)\<lparr>client_names := ns\<rparr>\<rparr>"

definition pop_peer :: "nat \<Rightarrow> string option \<Rightarrow> shared \<Rightarrow> shared res" where
  "pop_peer t peername g =
    res_bind (findItem (clients (tables g)) peername) (\<lambda>idx.
      if 0 \<le> idx
      then res_bind (popItem (clients (tables g)) idx) (\<lambda>(p, cs).
           res_bind (deref p) (\<lambda>c.
           res_bind (send_client c) (\<lambda>out.
             Ok (again t (reply t out (set_clients cs (g\<lparr>handed := handed g @ [c]\<rparr>)))))))
      else Ok (again t (reply t (with_nul ''c::'') g)))"

definition add_waiting :: "nat \<Rightarrow> string \<Rightarrow> string option \<Rightarrow> string option \<Rightarrow> shared \<Rightarrow> shared res" where
  "add_waiting t peer clientname port_str g =
    res_bind (deref port_str) (\<lambda>ps.
    res_bind (deref clientname) (\<lambda>name.
    res_bind (cstore CLIENT_NAME_LENGTH name) (\<lambda>nm.
    res_bind (get_client_ip peer) (\<lambda>addr.
      let c = \<lparr>client = nm, ip = addr, port = atoi ps\<rparr>
      in res_bind (addItem (clients (tables g)) c) (\<lambda>cs.
           Ok (again t (set_clients cs (g\<lparr>added := added g @ [c]\<rparr>))))))))"

text \<open>
  \<open>thread_step t peer msg g\<close>: the next step of thread \<open>t\<close>; \<open>msg\<close> is what \<open>read\<close> returns if
  the thread reads in this step, \<open>peer\<close> its peer's address.
\<close>

definition thread_step :: "nat \<Rightarrow> string \<Rightarrow> char list \<Rightarrow> shared \<Rightarrow> shared res" where
  "thread_step t peer msg g =
    (case pcs g t of
       Reading \<Rightarrow>
         if msg = [] then Ok (goto t Finished g)
         else res_bind (cstr (zbuf SERVER_BUFF_SIZE msg)) (\<lambda>buf.
              let (command, rest) = strtok '':'' buf
              in Ok (goto t (Dispatch command) (g\<lparr>saved := (t, rest)\<rparr>)))
     | Dispatch command \<Rightarrow> res_bind (deref command) (\<lambda>cmd. Ok (dispatch t cmd g))
     | Join_check n \<Rightarrow>
         res_bind (hasNameItem (client_names (tables g)) n) (\<lambda>has.
           if has = 1 then Ok (goto t Finished (reply t (with_nul CMD_REJECTION_JOIN) g))
           else Ok (goto t (Join_add n) g))
     | Join_add n \<Rightarrow>
         res_bind (deref n) (\<lambda>name.
         res_bind (cstore CLIENT_NAME_LENGTH name) (\<lambda>storename.
         res_bind (addNameItem (client_names (tables g)) storename) (\<lambda>ns.
           Ok (again t (reply t (with_nul CMD_CONFIRM_JOIN) (set_names ns g))))))
     | Quit_clients n \<Rightarrow>
         res_bind (drop_waiting (tables g) n) (\<lambda>cs. Ok (goto t (Quit_names n) (set_clients cs g)))
     | Quit_names n \<Rightarrow>
         res_bind (removeNameItem (client_names (tables g)) n) (\<lambda>ns.
           Ok (goto t Finished (set_names ns g)))
     | Connect_peer \<Rightarrow> let (tok, g') = next_token g in Ok (goto t (Connect_pop tok) g')
     | Connect_pop p \<Rightarrow> pop_peer t p g
     | Wait_port n \<Rightarrow> let (tok, g') = next_token g in Ok (goto t (Wait_add n tok) g')
     | Wait_add n ps \<Rightarrow> add_waiting t peer n ps g
     | List_print \<Rightarrow>
         res_bind (printList (clients (tables g))) (\<lambda>(listbuf, list_length).
           Ok (again t (reply t (take list_length listbuf) g)))
     | Leave_clients n \<Rightarrow>
         res_bind (drop_waiting (tables g) n) (\<lambda>cs. Ok (again t (set_clients cs g)))
     | Finished \<Rightarrow> Ok g)"

text \<open>A schedule names, step by step, which thread moves and what it would read.\<close>

fun run :: "(nat \<times> string \<times> char list) list \<Rightarrow> shared \<Rightarrow> shared res" where
  "run [] g = Ok g"
| "run ((t, peer, msg) # sch) g = res_bind (thread_step t peer msg g) (run sch)"

definition init_shared :: shared where
  "init_shared = \<lparr>tables = init_server, saved = (0, []), pcs = (\<lambda>_. Reading),
    added = [], handed = [], sent = []\<rparr>"

inductive sys_step :: "shared \<Rightarrow> shared \<Rightarrow> bool" where
  move: "thread_step t peer msg g = Ok g' \<Longrightarrow> sys_step g g'"

inductive reachable :: "shared \<Rightarrow> bool" where
  start: "reachable init_shared"
| step: "reachable g \<Longrightarrow> sys_step g g' \<Longrightarrow> reachable g'"

inductive_cases sys_stepE: "sys_step g g'"

lemma run_reachable: "reachable g \<Longrightarrow> run sch g = Ok g' \<Longrightarrow> reachable g'"
proof (induction sch g rule: run.induct)
  case (1 g)
  then show ?case by simp
next
  case (2 t peer msg sch g)
  then obtain g1 where g1: "thread_step t peer msg g = Ok g1" "run sch g1 = Ok g'"
    by (auto simp: res_simps)
  then have "reachable g1" using 2(2) by (blast intro: reachable.step sys_step.move)
  with 2(1) g1 show ?case by blast
qed

lemma run_append: "run (xs @ ys) g = res_bind (run xs g) (run ys)"
  by (induction xs g rule: run.induct) (simp_all cong: res_bind_cong)

section \<open>An invariant of every interleaving\<close>

definition shared_ok :: "shared \<Rightarrow> bool" where
  "shared_ok g \<longleftrightarrow> clist_wf (clients (tables g)) \<and> nlist_wf (client_names (tables g))
    \<and> mset (handed g) + mset (waiting (tables g)) \<subseteq># mset (added g)"

text \<open>Moving a thread, replying and calling \<open>strtok\<close> leave the invariant alone.\<close>

lemma shared_ok_frame [simp]:
  "shared_ok (goto t p g) = shared_ok g"
  "shared_ok (again t g) = shared_ok g"
  "shared_ok (reply t b g) = shared_ok g"
  "shared_ok (g\<lparr>saved := sv\<rparr>) = shared_ok g"
  by (simp_all add: shared_ok_def goto_def again_def reply_def)

lemma next_token_frame: "next_token g = (tok, g') \<Longrightarrow> shared_ok g' = shared_ok g"
  by (auto simp: next_token_def split: prod.splits)

lemma dispatch_frame: "shared_ok (dispatch t cmd g) = shared_ok g"
  by (cases "next_token g") (simp add: dispatch_def next_token_frame)

lemma set_names_frame: "nlist_wf ns \<Longrightarrow> shared_ok g \<Longrightarrow> shared_ok (set_names ns g)"
  by (simp add: shared_ok_def set_names_def waiting_def)

lemma set_clients_fewer:
  "shared_ok g \<Longrightarrow> clist_wf cs \<Longrightarrow> mset (clist_items cs) \<subseteq># mset (waiting (tables g)) \<Longrightarrow>
    shared_ok (set_clients cs g)"
  using subset_mset.order_trans [OF subset_mset.add_left_mono]
  by (fastforce simp: shared_ok_def set_clients_def waiting_def)

lemma remove_entry_mset: "mset (remove_entry n xs) \<subseteq># mset xs"
  by (induction xs) (auto intro: subset_mset.order_trans)

lemma drop_waiting_fewer:
  assumes "clist_wf (clients s)" "drop_waiting s n = Ok cs"
  shows "clist_wf cs \<and> mset (clist_items cs) \<subseteq># mset (waiting s)"
proof (cases n)
  case None
  with assms show ?thesis by (auto simp: drop_waiting_NULL waiting_def split: if_splits)
next
  case (Some m)
  with assms drop_waiting_name [OF assms(1), of m] show ?thesis by (auto simp: remove_entry_mset)
qed

lemma removeNameItem_wf:
  assumes "nlist_wf a" "removeNameItem a n = Ok ns"
  shows "nlist_wf ns"
proof (cases n)
  case None
  with assms show ?thesis by (auto simp: removeNameItem_NULL split: if_splits)
next
  case (Some m)
  with assms(2) removeNameItem_spec [OF assms(1), of m] show ?thesis by auto
qed

lemma findItem_hit:
  assumes "clist_wf a" "findItem a n = Ok idx" "0 \<le> idx"
  shows "idx < int (length (clist_items a))"
proof (cases n)
  case None
  with assms show ?thesis by (auto simp: findItem_NULL split: if_splits)
next
  case (Some s)
  with assms client_index_bound [of s "clist_items a"] show ?thesis by (auto simp: findItem_spec)
qed

lemma pop_peer_ok:
  assumes "shared_ok g" "pop_peer t n g = Ok g'"
  shows "shared_ok g'"
proof -
  let ?s = "tables g"
  have wf: "clist_wf (clients ?s)" using assms(1) by (simp add: shared_ok_def)
  obtain idx where idx: "findItem (clients ?s) n = Ok idx"
    using assms(2) by (auto simp: pop_peer_def res_simps)
  show ?thesis
  proof (cases "0 \<le> idx")
    case False
    with assms idx show ?thesis by (auto simp: pop_peer_def)
  next
    case True
    let ?i = "nat idx"
    have i: "?i < length (waiting ?s)" using findItem_hit [OF wf idx True] True by (simp add: waiting_def)
    from id_take_nth_drop [OF this] obtain ys c zs where w: "waiting ?s = ys @ c # zs" "?i = length ys"
      using i by (metis length_take min.absorb4)
    then have "idx = int (length ys)" using True by simp
    with popItem_name [OF wf w(1)] obtain cs where cs: "popItem (clients ?s) idx = Ok (Some c, cs)"
      "clist_wf cs" "clist_items cs = ys @ zs" by auto
    obtain out where "g' = again t (reply t out (set_clients cs (g\<lparr>handed := handed g @ [c]\<rparr>)))"
      using assms(2) True idx cs(1) by (auto simp: pop_peer_def res_simps)
    moreover have "shared_ok (set_clients cs (g\<lparr>handed := handed g @ [c]\<rparr>))"
      using assms(1) cs w by (simp add: shared_ok_def set_clients_def waiting_def)
    ultimately show ?thesis by simp
  qed
qed

lemma add_waiting_ok:
  assumes "shared_ok g" "add_waiting t peer n ps g = Ok g'"
  shows "shared_ok g'"
proof -
  obtain c cs where c: "addItem (clients (tables g)) c = Ok cs"
    "g' = again t (set_clients cs (g\<lparr>added := added g @ [c]\<rparr>))"
    using assms(2) by (auto simp: add_waiting_def res_simps Let_def)
  have "clist_wf cs \<and> clist_items cs = waiting (tables g) @ [c]"
    using clients_array.grow_result [OF _ c(1)] assms(1) by (simp add: shared_ok_def waiting_def)
  with assms(1) have "shared_ok (set_clients cs (g\<lparr>added := added g @ [c]\<rparr>))"
    by (simp add: shared_ok_def set_clients_def waiting_def)
  with c(2) show ?thesis by simp
qed

lemma thread_step_ok:
  assumes "shared_ok g" "thread_step t peer msg g = Ok g'"
  shows "shared_ok g'"
proof -
  have wf: "clist_wf (clients (tables g))" "nlist_wf (client_names (tables g))"
    using assms(1) by (simp_all add: shared_ok_def)
  show ?thesis
  proof (cases "pcs g t")
    case Reading
    show ?thesis
    proof (cases "msg = []")
      case True
      with Reading assms show ?thesis by (auto simp: thread_step_def)
    next
      case False
      with Reading assms(2) obtain buf where
        "(case strtok '':'' buf of (c, rest) \<Rightarrow> Ok (goto t (Dispatch c) (g\<lparr>saved := (t, rest)\<rparr>))) = Ok g'"
        by (auto simp: thread_step_def res_simps Let_def)
      then have "\<exists>c rest. g' = goto t (Dispatch c) (g\<lparr>saved := (t, rest)\<rparr>)"
        by (cases "strtok '':'' buf") auto
      with assms(1) show ?thesis by auto
    qed
  next
    case (Dispatch c)
    with assms show ?thesis by (auto simp: thread_step_def res_simps dispatch_frame)
  next
    case (Join_check n)
    with assms show ?thesis by (auto simp: thread_step_def res_simps split: if_splits)
  next
    case (Join_add n)
    with assms show ?thesis
      using names_array.grow_result [OF wf(2)]
      by (auto simp: thread_step_def res_simps set_names_frame)
  next
    case (Quit_clients n)
    with assms show ?thesis
      using drop_waiting_fewer [OF wf(1)] by (auto simp: thread_step_def res_simps set_clients_fewer)
  next
    case (Quit_names n)
    with assms show ?thesis
      using removeNameItem_wf [OF wf(2)] by (auto simp: thread_step_def res_simps set_names_frame)
  next
    case Connect_peer
    with assms show ?thesis by (auto simp: thread_step_def next_token_frame split: prod.splits)
  next
    case (Connect_pop p)
    with assms show ?thesis by (auto simp: thread_step_def pop_peer_ok)
  next
    case (Wait_port n)
    with assms show ?thesis by (auto simp: thread_step_def next_token_frame split: prod.splits)
  next
    case (Wait_add n ps)
    with assms show ?thesis by (auto simp: thread_step_def add_waiting_ok)
  next
    case List_print
    with assms show ?thesis by (auto simp: thread_step_def res_simps)
  next
    case (Leave_clients n)
    with assms show ?thesis
      using drop_waiting_fewer [OF wf(1)] by (auto simp: thread_step_def res_simps set_clients_fewer)
  next
    case Finished
    with assms show ?thesis by (simp add: thread_step_def)
  qed
qed

lemma reachable_ok: "reachable g \<Longrightarrow> shared_ok g"
proof (induction rule: reachable.induct)
  case start
  show ?case
    by (simp add: shared_ok_def init_shared_def init_server_def waiting_def initArray_wf initNameArray_wf)
next
  case (step g g')
  then show ?case by (auto elim!: sys_stepE dest: thread_step_ok)
qed

section \<open>Interleaved joins\<close>

text \<open>Each step of a join, as an equation.\<close>

lemma join_read:
  assumes "pcs g t = Reading" "cstr (zbuf SERVER_BUFF_SIZE msg) = Ok (command_text (Join n))"
  shows "thread_step t peer msg g =
    Ok (goto t (Dispatch (Some CMD_JOIN)) (g\<lparr>saved := (t, n @ '':'')\<rparr>))"
proof -
  have "msg \<noteq> []" using assms(2) by (auto simp: cstr_zbuf split: if_splits)
  moreover have "strtok '':'' (command_text (Join n)) = (Some CMD_JOIN, n @ '':'')"
    by (simp add: letter_token CMD_JOIN_def)
  ultimately show ?thesis using assms by (simp add: thread_step_def del: command_text.simps)
qed

lemma join_dispatch:
  assumes "pcs g t = Dispatch (Some CMD_JOIN)" "next_token g = (tok, g')"
  shows "thread_step t peer msg g = Ok (goto t (Join_check tok) g')"
  using assms by (simp add: thread_step_def dispatch_def)

lemma join_check_free:
  assumes "pcs g t = Join_check (Some n)" "nlist_wf (client_names (tables g))" "n \<notin> set (names (tables g))"
  shows "thread_step t peer msg g = Ok (goto t (Join_add (Some n)) g)"
  using assms by (simp add: thread_step_def hasNameItem_spec names_def)

lemma join_add:
  assumes "pcs g t = Join_add (Some n)" "nlist_wf (client_names (tables g))" "length n < CLIENT_NAME_LENGTH"
  shows "\<exists>ns. thread_step t peer msg g = Ok (again t (reply t (with_nul CMD_CONFIRM_JOIN) (set_names ns g)))
    \<and> nlist_wf ns \<and> nlist_items ns = names (tables g) @ [n]"
proof -
  obtain ns where "addNameItem (client_names (tables g)) n = Ok ns" "nlist_wf ns"
      "nlist_items ns = names (tables g) @ [n]"
    using names_array.grow_cases [OF assms(2)] by (auto simp: names_def)
  with assms show ?thesis by (auto simp: thread_step_def cstore_def)
qed

lemmas frame_defs = goto_def again_def reply_def set_names_def







lemma next_token_name:
  "snd (saved g) = n @ '':'' \<Longrightarrow> name_ok n \<Longrightarrow> next_token g = (Some n, g\<lparr>saved := (fst (saved g), [])\<rparr>)"
  by (simp add: next_token_def name_token name_ok_def)

lemma next_token_none: "snd (saved g) = [] \<Longrightarrow> next_token g = (None, g\<lparr>saved := (fst (saved g), [])\<rparr>)"
  by (simp add: next_token_def)

section \<open>Properties\<close>

text \<open>
  Property C10.  No interleaving of the connections' threads hands a waiting client out twice: in
  every reachable state the entries sent to peers together with the entries still waiting are, as
  a multiset, among the entries added.
\<close>

theorem handed_out_at_most_once:
  assumes "reachable g"
  shows "mset (handed g) + mset (waiting (tables g)) \<subseteq># mset (added g)"
  using reachable_ok [OF assms] by (simp add: shared_ok_def)


text \<open>
  Property C12.  The test whether a name is free is outside the mutex: from any state in which two
  threads are about to read a request to join under the same free name, there is a schedule in
  which both are confirmed and the name is registered twice.
\<close>

theorem join_race:
  assumes "nlist_wf (client_names (tables g))" "name_ok n" "n \<notin> set (names (tables g))"
    and "t1 \<noteq> t2" "pcs g t1 = Reading" "pcs g t2 = Reading"
    and "cstr (zbuf SERVER_BUFF_SIZE msg) = Ok (command_text (Join n))"
  shows "\<exists>g'. run [(t1, p1, msg), (t1, p1, []), (t2, p2, msg), (t2, p2, []), (t1, p1, []), (t2, p2, []),
      (t1, p1, []), (t2, p2, [])] g = Ok g'
    \<and> names (tables g') = names (tables g) @ [n, n]
    \<and> sent g' = sent g @ [(t1, with_nul CMD_CONFIRM_JOIN), (t2, with_nul CMD_CONFIRM_JOIN)]"
proof -
  have len: "length n < CLIENT_NAME_LENGTH" using assms(2) by (simp add: name_ok_def)
  define g4 where "g4 = goto t2 (Join_check (Some n)) (goto t1 (Join_check (Some n)) (g\<lparr>saved := (t2, [])\<rparr>))"
  have "run [(t1, p1, msg), (t1, p1, []), (t2, p2, msg), (t2, p2, [])] g = Ok g4"
    using assms(4-7)
    by (simp add: join_read join_dispatch next_token_name [OF _ assms(2)] goto_def g4_def fun_upd_twist)
  have pc: "pcs g4 t1 = Join_check (Some n)" "pcs g4 t2 = Join_check (Some n)"
    "tables g4 = tables g" "sent g4 = sent g"
    using assms(4) by (simp_all add: g4_def goto_def)
  define g6 where "g6 = goto t2 (Join_add (Some n)) (goto t1 (Join_add (Some n)) g4)"
  have "run [(t1, p1, []), (t2, p2, [])] g4 = Ok g6"
    using pc assms(1,3,4) by (simp add: join_check_free goto_def g6_def)
  have pc6: "pcs g6 t1 = Join_add (Some n)" "pcs g6 t2 = Join_add (Some n)"
    "tables g6 = tables g" "sent g6 = sent g"
    using assms(4) pc by (simp_all add: g6_def goto_def)
  then obtain ns where ns: "nlist_wf ns" "nlist_items ns = names (tables g) @ [n]"
    "thread_step t1 p1 [] g6 = Ok (again t1 (reply t1 (with_nul CMD_CONFIRM_JOIN) (set_names ns g6)))"
    using join_add [OF pc6(1) _ len] assms(1) by auto
  define g7 where "g7 = again t1 (reply t1 (with_nul CMD_CONFIRM_JOIN) (set_names ns g6))"
  have pc7: "pcs g7 t2 = Join_add (Some n)" "client_names (tables g7) = ns"
    "sent g7 = sent g @ [(t1, with_nul CMD_CONFIRM_JOIN)]"
    using assms(4) pc6 by (simp_all add: g7_def frame_defs)
  then obtain ms where ms: "nlist_items ms = names (tables g) @ [n, n]"
    "thread_step t2 p2 [] g7 = Ok (again t2 (reply t2 (with_nul CMD_CONFIRM_JOIN) (set_names ms g7)))"
    using join_add [OF pc7(1) _ len] ns by (auto simp: names_def)
  have "run [(t1, p1, []), (t2, p2, [])] g6 =
      Ok (again t2 (reply t2 (with_nul CMD_CONFIRM_JOIN) (set_names ms g7)))"
    using ns(3) ms(2) by (simp add: g7_def)
  with \<open>run [(t1, p1, msg), (t1, p1, []), (t2, p2, msg), (t2, p2, [])] g = Ok g4\<close>
    \<open>run [(t1, p1, []), (t2, p2, [])] g4 = Ok g6\<close>
  have "run ([(t1, p1, msg), (t1, p1, []), (t2, p2, msg), (t2, p2, [])] @ [(t1, p1, []), (t2, p2, [])]
      @ [(t1, p1, []), (t2, p2, [])]) g =
      Ok (again t2 (reply t2 (with_nul CMD_CONFIRM_JOIN) (set_names ms g7)))"
    by (simp only: run_append res_bind_simps)
  moreover have "names (tables (again t2 (reply t2 (with_nul CMD_CONFIRM_JOIN) (set_names ms g7))))
      = names (tables g) @ [n, n]"
    "sent (again t2 (reply t2 (with_nul CMD_CONFIRM_JOIN) (set_names ms g7))) = sent g @
      [(t1, with_nul CMD_CONFIRM_JOIN), (t2, with_nul CMD_CONFIRM_JOIN)]"
    using ms(1) pc7(3) by (simp_all add: frame_defs names_def)
  ultimately show ?thesis by simp
qed

text \<open>
  Property C13.  The threads share one \<open>strtok\<close>: when two threads have each read a request to
  join and the second \<open>read\<close> comes between the first thread's two calls of \<open>strtok\<close>, the
  first thread registers the second thread's name and confirms it to the wrong client, and the
  second thread, which finds no token left, dereferences NULL.
\<close>

theorem strtok_race:
  assumes "nlist_wf (client_names (tables g))" "name_ok n2" "n2 \<notin> set (names (tables g))"
    and "t1 \<noteq> t2" "pcs g t1 = Reading" "pcs g t2 = Reading"
    and "cstr (zbuf SERVER_BUFF_SIZE msg1) = Ok (command_text (Join n1))"
    and "cstr (zbuf SERVER_BUFF_SIZE msg2) = Ok (command_text (Join n2))"
  shows "\<exists>g'. run [(t1, p1, msg1), (t2, p2, msg2), (t1, p1, []), (t1, p1, []), (t1, p1, [])] g = Ok g'
    \<and> names (tables g') = names (tables g) @ [n2]
    \<and> sent g' = sent g @ [(t1, with_nul CMD_CONFIRM_JOIN)]
    \<and> run [(t2, p2, []), (t2, p2, [])] g' = ub Null_Pointer"
proof -
  have len: "length n2 < CLIENT_NAME_LENGTH" using assms(2) by (simp add: name_ok_def)
  define g4 where "g4 = goto t1 (Join_add (Some n2)) (goto t2 (Dispatch (Some CMD_JOIN)) (g\<lparr>saved := (t2, [])\<rparr>))"
  have "run [(t1, p1, msg1), (t2, p2, msg2), (t1, p1, []), (t1, p1, [])] g = Ok g4"
    using assms
    by (simp add: join_read [OF _ assms(7)] join_read [OF _ assms(8)] join_dispatch
        next_token_name [OF _ assms(2)] join_check_free goto_def g4_def fun_upd_twist)
  note r4 = this
  have pc: "pcs g4 t1 = Join_add (Some n2)" "pcs g4 t2 = Dispatch (Some CMD_JOIN)"
    "tables g4 = tables g" "sent g4 = sent g" "snd (saved g4) = []" "fst (saved g4) = t2"
    using assms(4) by (simp_all add: g4_def goto_def)
  then obtain ns where ns: "nlist_wf ns" "nlist_items ns = names (tables g) @ [n2]"
    "thread_step t1 p1 [] g4 = Ok (again t1 (reply t1 (with_nul CMD_CONFIRM_JOIN) (set_names ns g4)))"
    using join_add [OF pc(1) _ len] assms(1) by auto
  define g5 where "g5 = again t1 (reply t1 (with_nul CMD_CONFIRM_JOIN) (set_names ns g4))"
  have g5: "pcs g5 t2 = Dispatch (Some CMD_JOIN)" "client_names (tables g5) = ns"
    "sent g5 = sent g @ [(t1, with_nul CMD_CONFIRM_JOIN)]" "snd (saved g5) = []"
    using assms(4) pc by (simp_all add: g5_def frame_defs)
  have "hasNameItem ns None = ub Null_Pointer" using hasNameItem_NULL [OF ns(1)] ns(2) by simp
  then have "thread_step t2 p2 [] (goto t2 (Join_check None) (g5\<lparr>saved := (fst (saved g5), [])\<rparr>)) = ub Null_Pointer"
    using g5(2) by (simp add: thread_step_def goto_def)
  then have "run [(t2, p2, []), (t2, p2, [])] g5 = ub Null_Pointer"
    using join_dispatch [OF g5(1) next_token_none [OF g5(4)]] by simp
  moreover have "run [(t1, p1, msg1), (t2, p2, msg2), (t1, p1, []), (t1, p1, []), (t1, p1, [])] g = Ok g5"
  proof -
    have "run ([(t1, p1, msg1), (t2, p2, msg2), (t1, p1, []), (t1, p1, [])] @ [(t1, p1, [])]) g = Ok g5"
      unfolding run_append r4 using ns(3) by (simp add: g5_def)
    then show ?thesis by (simp only: append.simps)
  qed
  ultimately show ?thesis using g5 ns(2) by (auto simp: names_def)
qed

text \<open>Concrete instances.\<close>

definition eve_msg :: "char list" where
  "eve_msg = with_nul ''a:eve:''"

lemma eve_arrives: "cstr (zbuf SERVER_BUFF_SIZE eve_msg) = Ok (command_text (Join ''eve''))"
  by (simp add: eve_msg_def cstr_with_nul SERVER_BUFF_SIZE_def)

lemma init_shared_names: "nlist_wf (client_names (tables init_shared))" "names (tables init_shared) = []"
  by (simp_all add: init_shared_def init_server_def names_def initNameArray_wf)

lemma init_shared_pc: "pcs init_shared t = Reading"
  by (simp add: init_shared_def)

lemma eve_ok: "name_ok ''eve''"
  by (simp add: name_ok_def CLIENT_NAME_LENGTH_def)

theorem join_race_witness:
  "\<exists>sch g'. run sch init_shared = Ok g' \<and> names (tables g') = [''eve'', ''eve'']"
proof -
  have "''eve'' \<notin> set (names (tables init_shared))" "1 \<noteq> (2::nat)" by (simp_all add: init_shared_names)
  from join_race [OF init_shared_names(1) eve_ok this init_shared_pc init_shared_pc eve_arrives]
  show ?thesis unfolding init_shared_names(2) append_Nil by blast
qed

theorem strtok_race_witness:
  "\<exists>sch g'. run sch init_shared = Ok g' \<and> names (tables g') = [''eve'']
    \<and> sent g' = [(1, with_nul CMD_CONFIRM_JOIN)]"
proof -
  have a: "cstr (zbuf SERVER_BUFF_SIZE (with_nul ''a:amy:'')) = Ok (command_text (Join ''amy''))"
    by (simp add: cstr_with_nul SERVER_BUFF_SIZE_def)
  have "''eve'' \<notin> set (names (tables init_shared))" "1 \<noteq> (2::nat)" by (simp_all add: init_shared_names)
  have "sent init_shared = []" by (simp add: init_shared_def)
  with strtok_race [OF init_shared_names(1) eve_ok \<open>_ \<notin> _\<close> \<open>1 \<noteq> 2\<close> init_shared_pc init_shared_pc a eve_arrives]
  show ?thesis unfolding init_shared_names(2) by (metis append_Nil)
qed

definition hand_out_schedule :: "(nat \<times> string \<times> char list) list" where
  "hand_out_schedule =
    [(1, ''10.0.0.7'', with_nul ''w:bob:4001:''), (1, ''10.0.0.7'', []), (1, ''10.0.0.7'', []),
     (1, ''10.0.0.7'', []), (2, ''10.0.0.9'', with_nul ''c:amy:bob:''), (2, ''10.0.0.9'', []),
     (2, ''10.0.0.9'', []), (2, ''10.0.0.9'', [])]"

lemma hand_out_run:
  "(case run hand_out_schedule init_shared of
      Inl e \<Rightarrow> False
    | Inr g \<Rightarrow> added g = [bob] \<and> handed g = [bob] \<and> waiting (tables g) = [])"
  by code_simp

theorem handed_out_at_most_once_witness:
  "\<exists>g. run hand_out_schedule init_shared = Ok g \<and> handed g = [bob]
    \<and> mset (handed g) + mset (waiting (tables g)) \<subseteq># mset (added g)"
proof -
  obtain g where g: "run hand_out_schedule init_shared = Ok g" "handed g = [bob]"
    using hand_out_run by (auto split: sum.splits)
  with handed_out_at_most_once [OF run_reachable [OF reachable.start g(1)]] show ?thesis by blast
qed



end
