(* ===== verification/Pro_Server_Alone.thy ===== *)
theory Pro_Server_Alone
  imports Pro_Server_Threads
begin

text \<open>
  The two models of \<^verbatim>\<open>pro/src/server.c\<close> agree: a thread of \<open>Pro_Server_Threads\<close> that
  is not interrupted does to the tables and sends what \<open>command_response\<close> of \<open>Pro_Server\<close>
  says, and stops where it stops.
\<close>

text \<open>What a list of actions adds to the bytes sent.\<close>

definition sends :: "nat \<Rightarrow> action list \<Rightarrow> (nat \<times> char list) list" where
  "sends t acts = concat (map (\<lambda>a. case a of Send b \<Rightarrow> [(t, b)] | CloseFd \<Rightarrow> []) acts)"

lemma sends_simps [simp]:
  "sends t [] = []" "sends t (Send b # acts) = (t, b) # sends t acts" "sends t (CloseFd # acts) = sends t acts"
  "sends t (xs @ ys) = sends t xs @ sends t ys"
  by (simp_all add: sends_def)

text \<open>
  \<open>agrees t g r out\<close>: the run ended like the handler, with the thread back at its read or
  finished.
\<close>

definition agrees :: "nat \<Rightarrow> shared \<Rightarrow> shared res \<Rightarrow> outcome \<Rightarrow> bool" where
  "agrees t g r out =
    (case out of
       Inl e \<Rightarrow> r = Inl e
     | Inr (s', acts, continue) \<Rightarrow>
         (case r of Inl e \<Rightarrow> False
          | Inr g' \<Rightarrow> tables g' = s' \<and> sent g' = sent g @ sends t acts
              \<and> pcs g' t = (if continue then Reading else Finished)))"

lemmas alone_defs = thread_step_def goto_def again_def reply_def set_clients_def set_names_def Let_def

lemma step_dispatch:
  assumes "pcs g t = Reading" "msg \<noteq> []" "cstr (zbuf SERVER_BUFF_SIZE msg) = Ok buf" "strtok '':'' buf = (command, rest)"
  shows "thread_step t peer msg g = Ok (g\<lparr>saved := (t, rest), pcs := (pcs g)(t := Dispatch command)\<rparr>)"
  using assms by (simp add: alone_defs)

lemma run_replicate: "run (replicate (Suc k) (t, peer, msg)) g = res_bind (thread_step t peer msg g) (run (replicate k (t, peer, msg)))"
  by simp

lemma finished_stays: "pcs g t = Finished \<Longrightarrow> run (replicate k (t, peer, msg)) g = Ok g"
  by (induction k) (auto simp: thread_step_def)

lemma alone_join:
  assumes "pcs g t = Dispatch (Some CMD_JOIN)" "saved g = (t, rest)"
  shows "agrees t g (run (replicate 3 (t, peer, msg)) g) (on_join rest (tables g))"
proof -
  obtain tok r where tok: "strtok '':'' rest = (tok, r)" by (cases "strtok '':'' rest")
  show ?thesis
    using assms tok
    by (cases "hasNameItem (client_names (tables g)) tok")
      (auto simp: agrees_def on_join_def alone_defs dispatch_def next_token_def numeral_3_eq_3 res_bind_def
        split: sum.splits)
qed

lemmas alone_steps = agrees_def alone_defs dispatch_def next_token_def numeral_3_eq_3 numeral_2_eq_2 res_bind_def

lemma alone_quit:
  assumes "pcs g t = Dispatch (Some CMD_QUIT)" "saved g = (t, rest)"
  shows "agrees t g (run (replicate 3 (t, peer, msg)) g) (on_quit rest (tables g))"
proof -
  obtain tok r where tok: "strtok '':'' rest = (tok, r)" by (cases "strtok '':'' rest")
  show ?thesis
    using assms tok
    by (cases "drop_waiting (tables g) tok"; cases "removeNameItem (client_names (tables g)) tok")
      (auto simp: alone_steps on_quit_alt CMD_JOIN_def CMD_QUIT_def)
qed

lemma alone_connect:
  assumes "pcs g t = Dispatch (Some CMD_CONNECT)" "saved g = (t, rest)"
  shows "agrees t g (run (replicate 3 (t, peer, msg)) g) (on_connect rest (tables g))"
proof -
  obtain tok r where tok: "strtok '':'' rest = (tok, r)" by (cases "strtok '':'' rest")
  obtain tok' r' where tok': "strtok '':'' r = (tok', r')" by (cases "strtok '':'' r")
  show ?thesis
    using assms tok tok'
    by (auto simp: alone_steps on_connect_def pop_peer_def CMD_JOIN_def CMD_QUIT_def CMD_CONNECT_def
        split: sum.splits prod.splits)
qed

lemma alone_wait:
  assumes "pcs g t = Dispatch (Some CMD_WAIT)" "saved g = (t, rest)"
  shows "agrees t g (run (replicate 3 (t, peer, msg)) g) (on_wait peer rest (tables g))"
proof -
  obtain tok r where tok: "strtok '':'' rest = (tok, r)" by (cases "strtok '':'' rest")
  obtain tok' r' where tok': "strtok '':'' r = (tok', r')" by (cases "strtok '':'' r")
  show ?thesis
    using assms tok tok'
    by (auto simp: alone_steps on_wait_def add_waiting_def CMD_JOIN_def CMD_QUIT_def CMD_CONNECT_def CMD_WAIT_def
        split: sum.splits prod.splits)
qed

lemma alone_list:
  assumes "pcs g t = Dispatch (Some CMD_LIST)" "saved g = (t, rest)"
  shows "agrees t g (run (replicate 2 (t, peer, msg)) g) (on_list (tables g))"
  using assms
  by (auto simp: alone_steps on_list_def CMD_JOIN_def CMD_QUIT_def CMD_CONNECT_def CMD_WAIT_def CMD_LIST_def
      split: sum.splits prod.splits)

lemma alone_leavewait:
  assumes "pcs g t = Dispatch (Some CMD_LEAVEWAIT)" "saved g = (t, rest)"
  shows "agrees t g (run (replicate 2 (t, peer, msg)) g) (on_leavewait rest (tables g))"
proof -
  obtain tok r where tok: "strtok '':'' rest = (tok, r)" by (cases "strtok '':'' rest")
  show ?thesis
    using assms tok
    by (auto simp: alone_steps on_leavewait_alt CMD_JOIN_def CMD_QUIT_def CMD_CONNECT_def CMD_WAIT_def CMD_LIST_def
        CMD_LEAVEWAIT_def split: sum.splits)
qed

lemma alone_unknown:
  assumes "pcs g t = Dispatch (Some cmd)"
    "cmd \<notin> {CMD_JOIN, CMD_QUIT, CMD_CONNECT, CMD_WAIT, CMD_LIST, CMD_LEAVEWAIT}"
  shows "agrees t g (run (replicate 1 (t, peer, msg)) g) (on_unknown (tables g))"
proof -
  obtain tok r where "strtok '':'' (snd (saved g)) = (tok, r)" by (cases "strtok '':'' (snd (saved g))")
  with assms show ?thesis by (auto simp: alone_steps on_unknown_def)
qed

lemma alone_dispatch:
  assumes "pcs g t = Dispatch (Some cmd)" "saved g = (t, rest)"
  shows "\<exists>k. agrees t g (run (replicate k (t, peer, msg)) g)
    (if cmd = CMD_JOIN then on_join rest (tables g)
     else if cmd = CMD_QUIT then on_quit rest (tables g)
     else if cmd = CMD_CONNECT then on_connect rest (tables g)
     else if cmd = CMD_WAIT then on_wait peer rest (tables g)
     else if cmd = CMD_LIST then on_list (tables g)
     else if cmd = CMD_LEAVEWAIT then on_leavewait rest (tables g)
     else on_unknown (tables g))"
proof -
  note differ = CMD_JOIN_def CMD_QUIT_def CMD_CONNECT_def CMD_WAIT_def CMD_LIST_def CMD_LEAVEWAIT_def
  consider "cmd = CMD_JOIN" | "cmd = CMD_QUIT" | "cmd = CMD_CONNECT" | "cmd = CMD_WAIT" | "cmd = CMD_LIST"
    | "cmd = CMD_LEAVEWAIT" | "cmd \<notin> {CMD_JOIN, CMD_QUIT, CMD_CONNECT, CMD_WAIT, CMD_LIST, CMD_LEAVEWAIT}"
    by blast
  then show ?thesis
  proof cases
    case 1
    with alone_join [of g t rest peer msg] assms show ?thesis by (intro exI [of _ 3]) simp
  next
    case 2
    moreover have "CMD_QUIT \<noteq> CMD_JOIN" by (simp add: differ)
    ultimately show ?thesis using alone_quit [of g t rest peer msg] assms by (intro exI [of _ 3]) simp
  next
    case 3
    moreover have "CMD_CONNECT \<noteq> CMD_JOIN" "CMD_CONNECT \<noteq> CMD_QUIT" by (simp_all add: differ)
    ultimately show ?thesis using alone_connect [of g t rest peer msg] assms by (intro exI [of _ 3]) simp
  next
    case 4
    moreover have "CMD_WAIT \<noteq> CMD_JOIN" "CMD_WAIT \<noteq> CMD_QUIT" "CMD_WAIT \<noteq> CMD_CONNECT" by (simp_all add: differ)
    ultimately show ?thesis using alone_wait [of g t rest peer msg] assms by (intro exI [of _ 3]) simp
  next
    case 5
    moreover have "CMD_LIST \<noteq> CMD_JOIN" "CMD_LIST \<noteq> CMD_QUIT" "CMD_LIST \<noteq> CMD_CONNECT" "CMD_LIST \<noteq> CMD_WAIT"
      by (simp_all add: differ)
    ultimately show ?thesis using alone_list [of g t rest peer msg] assms by (intro exI [of _ 2]) simp
  next
    case 6
    moreover have "CMD_LEAVEWAIT \<noteq> CMD_JOIN" "CMD_LEAVEWAIT \<noteq> CMD_QUIT" "CMD_LEAVEWAIT \<noteq> CMD_CONNECT"
      "CMD_LEAVEWAIT \<noteq> CMD_WAIT" "CMD_LEAVEWAIT \<noteq> CMD_LIST" by (simp_all add: differ)
    ultimately show ?thesis using alone_leavewait [of g t rest peer msg] assms by (intro exI [of _ 2]) simp
  next
    case 7
    with alone_unknown [OF assms(1) 7, of peer msg] show ?thesis by (intro exI [of _ 1]) simp
  qed
qed

text \<open>One message: the thread reads it, handles it, and is back at its read or finished.\<close>

lemma alone_message:
  assumes "pcs g t = Reading" "msg \<noteq> []"
  shows "\<exists>k. agrees t g (run (replicate k (t, peer, msg)) g) (handle peer msg (tables g))"
proof (cases "cstr (zbuf SERVER_BUFF_SIZE msg)")
  case (Inl e)
  with assms have "agrees t g (run (replicate 1 (t, peer, msg)) g) (handle peer msg (tables g))"
    by (simp add: agrees_def handle_def alone_defs)
  then show ?thesis by blast
next
  case (Inr buf)
  obtain command rest where tok: "strtok '':'' buf = (command, rest)" by (cases "strtok '':'' buf")
  let ?g = "g\<lparr>saved := (t, rest), pcs := (pcs g)(t := Dispatch command)\<rparr>"
  have step: "thread_step t peer msg g = Ok ?g" by (rule step_dispatch [OF assms Inr tok])
  show ?thesis
  proof (cases command)
    case None
    have "agrees t g (run (replicate 2 (t, peer, msg)) g) (handle peer msg (tables g))"
      using step None Inr tok by (simp add: agrees_def handle_def numeral_2_eq_2) (simp add: thread_step_def)
    then show ?thesis by blast
  next
    case (Some cmd)
    have same: "agrees t ?g r out = agrees t g r out" for r out
      by (cases out; cases r) (auto simp: agrees_def)
    have tables: "tables ?g = tables g" by simp
    have "pcs ?g t = Dispatch (Some cmd)" "saved ?g = (t, rest)" using Some by simp_all
    from alone_dispatch [OF this, of peer msg] obtain k where
      "agrees t g (run (replicate k (t, peer, msg)) ?g) (handle peer msg (tables g))"
      unfolding same tables using Inr tok Some by (auto simp: handle_def)
    then have "agrees t g (run (replicate (Suc k) (t, peer, msg)) g) (handle peer msg (tables g))"
      using step by simp
    then show ?thesis by blast
  qed
qed

text \<open>The schedule in which the thread takes \<open>k\<close> steps on each message, one message after the other.\<close>

definition turns :: "nat \<Rightarrow> string \<Rightarrow> nat list \<Rightarrow> char list list \<Rightarrow> (nat \<times> string \<times> char list) list" where
  "turns t peer ks msgs = concat (map2 (\<lambda>k msg. replicate k (t, peer, msg)) ks msgs)"

lemma turns_Nil [simp]: "turns t peer [] [] = []" by (simp add: turns_def)

lemma turns_Cons [simp]: "turns t peer (k # ks) (msg # msgs) = replicate k (t, peer, msg) @ turns t peer ks msgs"
  by (simp add: turns_def)

lemma turns_zeros [simp]: "turns t peer (replicate (length msgs) 0) msgs = []"
  by (induction msgs) simp_all

lemma alone_connection:
  "pcs g t = Reading \<Longrightarrow>
    \<exists>ks. length ks = length msgs \<and>
      (case command_response peer msgs (tables g) of
         Inl e \<Rightarrow> run (turns t peer ks msgs) g = Inl e
       | Inr (s', acts) \<Rightarrow> \<exists>g'. run (turns t peer ks msgs) g = Ok g' \<and> tables g' = s' \<and> sent g' = sent g @ sends t acts)"
proof (induction peer msgs "tables g" arbitrary: g rule: command_response.induct)
  case (1 peer)
  show ?case by (rule exI [of _ "[]"]) simp
next
  case (2 peer msg msgs)
  let ?rest = "replicate (length msgs) (0::nat)"
  show ?case
  proof (cases "msg = []")
    case True
    show ?thesis by (rule exI [of _ "0 # ?rest"]) (use True in simp)
  next
    case False
    obtain k where k: "agrees t g (run (replicate k (t, peer, msg)) g) (handle peer msg (tables g))"
      using alone_message [OF 2(2) False] by blast
    show ?thesis
    proof (cases "handle peer msg (tables g)")
      case (Inl e)
      with k False show ?thesis
        by (intro exI [of _ "k # ?rest"]) (simp add: agrees_def)
    next
      case (Inr r)
      obtain s1 out1 go where r: "handle peer msg (tables g) = Ok (s1, out1, go)" using Inr by (cases r) auto
      with k obtain g1 where g1: "run (replicate k (t, peer, msg)) g = Ok g1" "tables g1 = s1"
        "sent g1 = sent g @ sends t out1" "pcs g1 t = (if go then Reading else Finished)"
        by (auto simp: agrees_def split: sum.splits)
      show ?thesis
      proof (cases go)
        case False
        with g1 r \<open>msg \<noteq> []\<close> show ?thesis
          by (intro exI [of _ "k # ?rest"]) simp
      next
        case True
        then have "pcs g1 t = Reading" using g1(4) by simp
        moreover have "handle peer msg (tables g) = Ok (tables g1, out1, go)" using r g1(2) by simp
        ultimately obtain ks where
          ks: "length ks = length msgs"
          "case command_response peer msgs (tables g1) of Inl e \<Rightarrow> run (turns t peer ks msgs) g1 = Inl e
           | Inr (s', acts) \<Rightarrow> \<exists>g'. run (turns t peer ks msgs) g1 = Ok g' \<and> tables g' = s' \<and> sent g' = sent g1 @ sends t acts"
          using 2(1) [OF \<open>msg \<noteq> []\<close> _ refl refl True] by blast
        have run: "run (turns t peer (k # ks) (msg # msgs)) g = run (turns t peer ks msgs) g1"
          by (simp add: run_append g1(1))
        show ?thesis
          using ks g1(2,3) r True \<open>msg \<noteq> []\<close>
          by (intro exI [of _ "k # ks"]) (auto simp: run simp del: turns_Cons split: sum.splits prod.splits)
      qed
    qed
  qed
qed

text \<open>
  Property C15.  Running alone, a connection's thread is the sequential program: for every sequence of
  reads some number of steps on each of them leaves the tables, and has sent the bytes, that
  \<open>command_response\<close> computes, or stops with the same undefined behaviour.
\<close>

theorem thread_alone_is_sequential:
  assumes "pcs g t = Reading"
  shows "\<exists>ks. length ks = length msgs \<and>
    (case command_response peer msgs (tables g) of
       Inl e \<Rightarrow> run (turns t peer ks msgs) g = Inl e
     | Inr (s', acts) \<Rightarrow> \<exists>g'. run (turns t peer ks msgs) g = Ok g' \<and> tables g' = s' \<and> sent g' = sent g @ sends t acts)"
  by (rule alone_connection [OF assms])

section \<open>A concrete instance\<close>

theorem thread_alone_is_sequential_witness:
  "\<exists>k g'. run (replicate k (3, ''1.1.1.1'', eve_msg)) init_shared = Ok g'
    \<and> sent g' = [(3, with_nul CMD_CONFIRM_JOIN)] \<and> names (tables g') = [''eve'']"
proof -
  have run: "(case command_response ''1.1.1.1'' [eve_msg] (tables init_shared) of
      Inl e \<Rightarrow> False | Inr (s, acts) \<Rightarrow> names s = [''eve''] \<and> acts = [Send (with_nul CMD_CONFIRM_JOIN)])"
    by code_simp
  have start: "pcs init_shared 3 = Reading" "sent init_shared = []" by (simp_all add: init_shared_def)
  from run obtain s acts where cr: "command_response ''1.1.1.1'' [eve_msg] (tables init_shared) = Ok (s, acts)"
    by (cases "command_response ''1.1.1.1'' [eve_msg] (tables init_shared)") auto
  have s: "names s = [''eve'']" "acts = [Send (with_nul CMD_CONFIRM_JOIN)]" using run unfolding cr by simp_all
  obtain ks where ks: "length ks = 1"
      "\<exists>g'. run (turns 3 ''1.1.1.1'' ks [eve_msg]) init_shared = Ok g' \<and> tables g' = s \<and> sent g' = sent init_shared @ sends 3 acts"
    using thread_alone_is_sequential [OF start(1), of "[eve_msg]" "''1.1.1.1''"] unfolding cr sum.case prod.case by auto
  from ks(1) obtain k where "ks = [k]" by (cases ks) auto
  with ks(2) s start(2) show ?thesis by auto
qed

end
