(* ===== verification/Pro_Client_Util.thy ===== *)
theory Pro_Client_Util
  imports Pro_Util Pro_Protocol
begin

text \<open>
  \<^verbatim>\<open>pro/src/client_util.c\<close>: the chat client's argument check, its join request, the
  printing of a list reply, the gate that admits commands by state, and the peer message.  Text
  the client prints is a returned list of strings; what a \<open>read\<close> returns is a list of bytes,
  empty at end of file or on an error.
\<close>

section \<open>Data\<close>

datatype client_state_t = CLIENT_STATE_NORMAL | CLIENT_STATE_WAITING | CLIENT_STATE_TALKING

text \<open>\<open>strcmp(buf, s) == 0\<close> for a buffer and a literal: the literal's bytes and its zero byte.\<close>

definition buf_is :: "char list \<Rightarrow> string \<Rightarrow> bool" where
  "buf_is b s \<longleftrightarrow> take (length s + 1) b = s @ [NUL]"

section \<open>Arguments\<close>

definition check_param :: "(string \<Rightarrow> int) \<Rightarrow> string list \<Rightarrow> unit res" where
  "check_param inet_pton argv =
    (if length argv \<noteq> 4 then
       failHandler ''Please use client by correct input! usage: ./client <server-ip> <server-port> <client-ip>''
     else if isValidIP inet_pton (argv ! 1) = 0 then
       failHandler ''Please input correct server ip address!''
     else if isNumber (argv ! 2) = 0 then
       failHandler ''Please input correct port number!''
     else if check_user_name_length (argv ! 3) = 0 then
       failHandler ''Please input the user name less than 15 characters!''
     else if isOnlyLettersOrNumbers (argv ! 3) = 0 then
       failHandler ''Please input the user name with only letters or numbers!''
     else Ok ())"

section \<open>The join request\<close>

text \<open>The bytes written and the result for the bytes read back.\<close>

definition check_name_conflict :: "string \<Rightarrow> char list \<Rightarrow> (char list \<times> int) res" where
  "check_name_conflict my_name reply =
    res_bind (cstore BUFFER_SIZE (''a:'' @ my_name @ '':'')) (\<lambda>buf.
      let sent = zbuf BUFFER_SIZE buf
      in if reply \<noteq> [] then
           let buf' = zbuf BUFFER_SIZE reply
           in if buf_is buf' CMD_CONFIRM_JOIN then Ok (sent, 1)
              else if buf_is buf' CMD_REJECTION_JOIN then Ok (sent, 0)
              else Ok (sent, - 1)
         else Ok (sent, - 1))"

section \<open>The list reply\<close>

text \<open>
  The loop of \<open>print_waiting_list\<close>: \<open>i\<close> is where the current name starts, \<open>j\<close> the scan
  position, \<open>idx\<close> the number printed in front of the name.
\<close>

function print_names :: "string \<Rightarrow> nat \<Rightarrow> nat \<Rightarrow> int \<Rightarrow> string list res" where
  "print_names lst i j idx =
    (if j < length lst - 1
     then if lst ! j = CHR '':''
          then res_bind (strncpy_zeroed CLIENT_NAME_LENGTH (drop i lst) (j - i)) (\<lambda>name.
               res_bind (print_names lst (j + 1) (j + 1) (idx + 1)) (\<lambda>out.
                 Ok ((show_int idx @ '') '' @ name @ newline) # out)))
          else print_names lst i (j + 1) idx
     else Ok [])"
  by pat_completeness auto
termination
  by (relation "measure (\<lambda>(lst, i, j, idx). length lst - j)") auto

declare print_names.simps [simp del]

text \<open>
  On an empty string \<open>strlen(list) - 1\<close> wraps to the largest \<open>size_t\<close> and the loop reads past
  the block.
\<close>

definition print_waiting_list :: "string \<Rightarrow> string list res" where
  "print_waiting_list lst = (if lst = [] then ub Out_Of_Bounds else print_names lst 2 3 1)"

definition list_shown :: "string \<Rightarrow> string list option res" where
  "list_shown whole_list = res_bind (print_waiting_list whole_list) (\<lambda>text. Ok (Some text))"

text \<open>
  The reading loop of \<open>process_waiting_list\<close>: the list holds what its reads return so far, an empty
  chunk a read that returned zero or failed, which ends the loop; \<open>idx\<close> counts the reads.  With no
  read left the loop blocks in \<open>read\<close>, which is \<open>None\<close>.  A read of the full buffer puts the
  terminating \<open>buf[rt]\<close> one byte past it.
\<close>

fun process_reads :: "char list list \<Rightarrow> nat \<Rightarrow> string \<Rightarrow> string list option res" where
  "process_reads [] idx whole_list = Ok None"
| "process_reads (chunk # chunks) idx whole_list =
    (if chunk = [] then list_shown whole_list
     else if BUFFER_SIZE \<le> length chunk then ub Out_Of_Bounds
     else let buf = takeWhile (\<lambda>c. c \<noteq> NUL) chunk;
              idx' = idx + 1
          in if buf = ''l::'' \<and> idx' = 1 then Ok (Some [no_available_client_msg])
             else let whole_list' = (if idx' = 1 then buf else whole_list @ buf)
                  in if strstr buf ''::'' \<noteq> None then list_shown whole_list'
                     else process_reads chunks idx' whole_list')"

definition process_waiting_list :: "char list list \<Rightarrow> string list option res" where
  "process_waiting_list chunks = process_reads chunks 0 []"

section \<open>Peer messages\<close>

text \<open>
  The receiving loops reuse one buffer that nothing initialises or clears.  The model keeps the
  bytes known so far: a read overwrites the front, and printing the buffer as a string is
  defined only when the known bytes hold a zero byte.
\<close>

definition overwrite :: "char list \<Rightarrow> char list \<Rightarrow> char list" where
  "overwrite buf chunk = chunk @ drop (length chunk) buf"

definition known_string :: "char list \<Rightarrow> string res" where
  "known_string buf =
    (if NUL \<in> set buf then Ok (takeWhile (\<lambda>c. c \<noteq> NUL) buf) else ub Uninitialised)"

fun print_received_from :: "char list \<Rightarrow> char list list \<Rightarrow> string list res" where
  "print_received_from buf [] = Ok []"
| "print_received_from buf (chunk # chunks) =
    (if chunk = [] then Ok []
     else let buf' = overwrite buf chunk
          in res_bind (known_string buf') (\<lambda>text.
             res_bind (print_received_from buf' chunks) (\<lambda>out. Ok ((text @ newline) # out))))"

definition print_received_msg :: "char list list \<Rightarrow> string list res" where
  "print_received_msg chunks = print_received_from [] chunks"

definition send_msg_to_peer :: "int \<Rightarrow> string \<Rightarrow> string \<Rightarrow> char list option res" where
  "send_msg_to_peer peer_fd msg my_name =
    res_bind (cstore BUFFER_SIZE (my_name @ '': '' @ msg @ newline)) (\<lambda>sending_msg.
      Ok (if 0 < peer_fd then Some sending_msg else None))"

section \<open>Which commands a state admits\<close>

definition should_command_work_with_state :: "string \<Rightarrow> client_state_t \<Rightarrow> int" where
  "should_command_work_with_state cmd state =
    (if state = CLIENT_STATE_NORMAL then 1
     else if state = CLIENT_STATE_TALKING then
       (if cmd = ''/connect'' \<or> cmd = ''/wait'' \<or> cmd = ''/list'' then 0 else 1)
     else if state = CLIENT_STATE_WAITING then
       (if cmd = ''/connect'' \<or> cmd = ''/wait'' \<or> cmd = ''/list'' then 0 else 1)
     else 0)"

end
