(* ===== verification/Pro_System.thy ===== *)
theory Pro_System
  imports Pro_Server_Spec Pro_Client_Util
begin

text \<open>
  Properties that need both ends of the chat protocol: what the client makes of the server's
  answers, and what the server makes of an admitted user name.
\<close>

section \<open>Scanning a list reply\<close>

lemma colon_split:
  "CHR '':'' \<notin> set n \<Longrightarrow> n @ CHR '':'' # r = u @ ''::'' @ v \<Longrightarrow>
    (u = n \<and> r = CHR '':'' # v) \<or> (\<exists>u'. u = n @ CHR '':'' # u' \<and> r = u' @ ''::'' @ v)"
proof (induction n arbitrary: u)
  case Nil
  then show ?case by (cases u) auto
next
  case (Cons c n)
  then obtain u1 where u: "u = c # u1" by (cases u) auto
  with Cons.IH [of u1] Cons.prems show ?case by auto
qed

lemma names_text_head:
  "cs \<noteq> [] \<Longrightarrow> \<forall>c \<in> set cs. name_ok (client c) \<Longrightarrow> \<exists>a t. names_text cs = a # t \<and> a \<noteq> CHR '':''"
  by (cases cs; cases "client (hd cs)") (auto simp: name_ok_def)

text \<open>The two colons that end a reply are the only adjacent ones.\<close>

lemma names_text_colons:
  "cs \<noteq> [] \<Longrightarrow> \<forall>c \<in> set cs. name_ok (client c) \<Longrightarrow> names_text cs @ '':'' = u @ ''::'' @ v \<Longrightarrow> v = []"
proof (induction cs arbitrary: u)
  case Nil
  then show ?case by simp
next
  case (Cons c cs)
  have c: "CHR '':'' \<notin> set (client c)" using Cons.prems(2) by (simp add: name_ok_def)
  have eq: "client c @ CHR '':'' # (names_text cs @ '':'') = u @ ''::'' @ v" using Cons.prems(3) by simp
  show ?case
  proof (cases "cs = []")
    case True
    with colon_split [OF c eq] show ?thesis by (auto simp: append_eq_Cons_conv Cons_eq_append_conv)
  next
    case False
    then obtain a t where "names_text cs = a # t" "a \<noteq> CHR '':''"
      using names_text_head Cons.prems(2) by (metis list.set_intros(2))
    with colon_split [OF c eq] Cons.IH [OF False] Cons.prems(2) show ?thesis by auto
  qed
qed

lemma list_reply_colons:
  assumes "cs \<noteq> []" "\<forall>c \<in> set cs. name_ok (client c)" "list_reply cs = u @ ''::'' @ v"
  shows "v = []"
proof -
  from assms(3) have eq: "''l'' @ CHR '':'' # (names_text cs @ '':'') = u @ ''::'' @ v"
    by (simp add: list_reply_def)
  obtain a t where "names_text cs = a # t" "a \<noteq> CHR '':''"
    using names_text_head assms(1,2) by blast
  with colon_split [OF _ eq] names_text_colons [OF assms(1,2)] show ?thesis by auto
qed

lemma list_reply_ends: "\<exists>t. list_reply cs = t @ ''::''"
proof (cases cs rule: rev_cases)
  case Nil
  then show ?thesis by (simp add: list_reply_def)
next
  case (snoc ds d)
  then show ?thesis by (simp add: list_reply_def)
qed

lemma list_reply_no_nul: "\<forall>c \<in> set cs. name_ok (client c) \<Longrightarrow> no_nul (list_reply cs)"
  by (induction cs) (auto simp: list_reply_def name_ok_def)

section \<open>Printing the names\<close>

text \<open>What the client should print for a list of waiting clients, numbered from \<open>idx\<close>.\<close>

fun numbered :: "int \<Rightarrow> client_t list \<Rightarrow> string list" where
  "numbered idx [] = []"
| "numbered idx (c # cs) = (show_int idx @ '') '' @ client c @ newline) # numbered (idx + 1) cs"

lemma print_names_skip:
  "i \<le> j \<Longrightarrow> j \<le> k \<Longrightarrow> k < length lst - 1 \<Longrightarrow> \<forall>p. j \<le> p \<and> p < k \<longrightarrow> lst ! p \<noteq> CHR '':'' \<Longrightarrow>
    print_names lst i j idx = print_names lst i k idx"
proof (induction "k - j" arbitrary: j)
  case 0
  then show ?case by simp
next
  case (Suc d)
  then have "j < k" by linarith
  with Suc.prems have "lst ! j \<noteq> CHR '':''" "j < length lst - 1" by auto
  then have "print_names lst i j idx = print_names lst i (j + 1) idx"
    by (simp add: print_names.simps [of lst i j])
  moreover have "d = k - (j + 1)" using Suc.hyps(2) by simp
  ultimately show ?case using Suc.hyps(1) [of "j + 1"] Suc.prems \<open>j < k\<close> by simp
qed

lemma print_names_one:
  assumes l: "lst = pre @ n @ CHR '':'' # r" and n: "name_ok n" and nn: "no_nul lst"
    and j: "length pre \<le> j" "j \<le> length pre + length n" and r: "r \<noteq> []"
  shows "print_names lst (length pre) j idx =
    res_bind (print_names lst (length pre + length n + 1) (length pre + length n + 1) (idx + 1))
      (\<lambda>out. Ok ((show_int idx @ '') '' @ n @ newline) # out))"
proof -
  let ?k = "length pre + length n"
  have len: "?k < length lst - 1" using l r by (cases r) auto
  have "lst ! p \<noteq> CHR '':''" if "j \<le> p" "p < ?k" for p
  proof -
    from that j have "lst ! p = n ! (p - length pre)" "p - length pre < length n"
      by (auto simp: l nth_append)
    then show ?thesis using n nth_mem by (fastforce simp: name_ok_def)
  qed
  then have "print_names lst (length pre) j idx = print_names lst (length pre) ?k idx"
    using print_names_skip [OF j(1,2) len] by blast
  moreover have "lst ! ?k = CHR '':''" by (simp add: l nth_append)
  moreover have "strncpy_zeroed CLIENT_NAME_LENGTH (drop (length pre) lst) (?k - length pre) = Ok n"
    using n nn by (simp add: l strncpy_zeroed_Ok name_ok_def)
  ultimately show ?thesis
    using len by (simp add: print_names.simps [of lst "length pre" ?k])
qed

lemma print_names_all:
  "lst = pre @ names_text cs @ '':'' \<Longrightarrow> \<forall>c \<in> set cs. name_ok (client c) \<Longrightarrow> no_nul lst \<Longrightarrow>
    print_names lst (length pre) (length pre) idx = Ok (numbered idx cs)"
proof (induction cs arbitrary: pre idx)
  case Nil
  then show ?case by (subst print_names.simps) simp
next
  case (Cons c cs)
  then have l: "lst = pre @ client c @ CHR '':'' # (names_text cs @ '':'')" by simp
  have ok: "name_ok (client c)" using Cons.prems(2) by simp
  have "print_names lst (length pre + length (client c) + 1) (length pre + length (client c) + 1) (idx + 1)
      = Ok (numbered (idx + 1) cs)"
    using Cons.IH [of "pre @ client c @ '':''" "idx + 1"] Cons.prems by simp
  with print_names_one [OF l ok Cons.prems(3), of "length pre" idx] show ?case by simp
qed

lemma print_waiting_list_reply:
  assumes "cs \<noteq> []" "\<forall>c \<in> set cs. name_ok (client c)"
  shows "print_waiting_list (list_reply cs) = Ok (numbered 1 cs)"
proof -
  obtain c ds where cs: "cs = c # ds" using assms(1) by (cases cs) auto
  have l: "list_reply cs = ''l:'' @ client c @ CHR '':'' # (names_text ds @ '':'')"
    by (simp add: list_reply_def cs)
  have ok: "name_ok (client c)" using assms(2) cs by simp
  note nn = list_reply_no_nul [OF assms(2)]
  have "3 \<le> length ''l:'' + length (client c)" using ok by (cases "client c") (auto simp: name_ok_def)
  then have first: "print_names (list_reply cs) 2 3 1 =
      res_bind (print_names (list_reply cs) (length (client c) + 3) (length (client c) + 3) 2)
        (\<lambda>out. Ok ((show_int 1 @ '') '' @ client c @ newline) # out))"
    using print_names_one [OF l ok nn, of 3 1] by (simp add: numeral_eq_Suc)
  have "print_names (list_reply cs) (length (client c) + 3) (length (client c) + 3) 2 = Ok (numbered 2 ds)"
  proof -
    have "list_reply cs = (''l:'' @ client c @ '':'') @ names_text ds @ '':''" using l by simp
    from print_names_all [OF this _ nn, of 2] assms(2) show ?thesis
      by (simp add: cs numeral_eq_Suc)
  qed
  with first show ?thesis
    by (simp add: print_waiting_list_def cs) (simp add: list_reply_def)
qed

section \<open>Reading a list reply\<close>

text \<open>The same of an empty list.\<close>

lemma list_reply_colons_end:
  assumes "\<forall>c \<in> set cs. name_ok (client c)" "list_reply cs = u @ ''::'' @ v"
  shows "v = []"
proof (cases "cs = []")
  case True
  with assms(2) have "CHR ''l'' # ''::'' = u @ ''::'' @ v" by (simp add: list_reply_def)
  then have "length u + length v = 1" by (metis length_append length_Cons list.size(3) add.assoc add.commute
      add_left_cancel numeral_2_eq_2 One_nat_def add_Suc plus_1_eq_Suc)
  with \<open>CHR ''l'' # ''::'' = u @ ''::'' @ v\<close> show ?thesis by (cases u) auto
qed (use list_reply_colons assms in blast)

text \<open>The piece read last holds the two colons that end a list.\<close>

definition list_ended :: "char list list \<Rightarrow> bool" where
  "list_ended chunks \<longleftrightarrow> chunks \<noteq> [] \<and> strstr (last chunks) ''::'' \<noteq> None"

text \<open>
  The reading loop over any cut of a list: it stops behind the last piece or blocks there, and then a
  read that fails stops it.
\<close>

lemma process_reads_reply:
  assumes "cs \<noteq> []" "\<forall>c \<in> set cs. name_ok (client c)"
    and "whole @ concat chunks = list_reply cs" "\<forall>c \<in> set chunks. c \<noteq> [] \<and> length c < BUFFER_SIZE"
    and "idx = 0 \<Longrightarrow> whole = []"
  shows "process_reads chunks idx whole = Ok (if list_ended chunks then Some (numbered 1 cs) else None)
    \<and> process_reads (chunks @ [[]]) idx whole = Ok (Some (numbered 1 cs))"
  using assms(3-5)
proof (induction chunks arbitrary: idx whole)
  case Nil
  then show ?case using print_waiting_list_reply [OF assms(1,2)] by (simp add: list_shown_def list_ended_def)
next
  case (Cons c chunks)
  have c: "c \<noteq> []" "length c < BUFFER_SIZE" using Cons.prems(2) by auto
  have "no_nul c" using list_reply_no_nul [OF assms(2)] Cons.prems(1) by (metis concat.simps(2) no_nul_simps(3))
  then have buf: "takeWhile (\<lambda>c. c \<noteq> NUL) c = c"
    unfolding no_nul_def takeWhile_eq_all_conv by blast
  have tail: "v = [] \<and> chunks = []" if "c = u @ ''::'' @ v" for u v
  proof -
    have "list_reply cs = (whole @ u) @ ''::'' @ (v @ concat chunks)"
      using that Cons.prems(1) by simp
    then have "v @ concat chunks = []" by (rule list_reply_colons [OF assms(1,2)])
    with Cons.prems(2) show ?thesis by (cases chunks) auto
  qed
  have not_empty: "\<not> (c = ''l::'' \<and> idx = 0)"
  proof
    assume a: "c = ''l::'' \<and> idx = 0"
    with tail [of "''l''" "[]"] have "chunks = []" by simp
    with a Cons.prems(1,3) have "list_reply cs = ''l::''" by simp
    then have "length (list_reply cs) = 3" by simp
    then have "names_text cs = []" by (simp add: length_list_reply)
    with assms(1) show False by (cases cs) auto
  qed
  let ?whole = "if idx + 1 = 1 then c else whole @ c"
  have w: "?whole = whole @ c" using Cons.prems(3) by simp
  show ?case
  proof (cases "strstr c ''::'' = None")
    case True
    then have "process_reads (c # cks) idx whole = process_reads cks (idx + 1) (whole @ c)" for cks
      using c not_empty w by (auto simp: buf Let_def)
    moreover have "list_ended (c # chunks) = list_ended chunks" using True by (simp add: list_ended_def)
    ultimately show ?thesis using Cons.IH [of "whole @ c" "idx + 1"] Cons.prems by simp
  next
    case False
    then obtain u v where "c = u @ ''::'' @ v" using strstr_occurs by blast
    with tail have "chunks = []" by blast
    moreover have "whole @ c = list_reply cs" using Cons.prems(1) \<open>chunks = []\<close> by simp
    moreover have "process_reads (c # cks) idx whole = list_shown (whole @ c)" for cks
      using c False not_empty w by (auto simp: buf Let_def)
    ultimately show ?thesis
      using print_waiting_list_reply [OF assms(1,2)] False by (simp add: list_shown_def list_ended_def)
  qed
qed

lemma concat_Cons_cases:
  assumes "concat chunks = x # xs" "\<forall>c \<in> set chunks. c \<noteq> []"
  obtains ys rest where "chunks = (x # ys) # rest" "xs = ys @ concat rest" "\<forall>c \<in> set rest. c \<noteq> []"
  using assms that by (cases chunks) (auto simp: append_eq_Cons_conv)

text \<open>What the loop shows in the end: of an empty list nothing, unless it came in one piece.\<close>

definition shown_list :: "char list list \<Rightarrow> client_t list \<Rightarrow> string list" where
  "shown_list chunks cs =
    (if cs = [] then (if chunks = [''l::''] then [no_available_client_msg] else []) else numbered 1 cs)"

lemma strstr_colons: "strstr ''::'' ''::'' \<noteq> None" "strstr '':'' ''::'' = None" "strstr ''l'' ''::'' = None"
    "strstr ''l:'' ''::'' = None" "strstr ''l::'' ''::'' \<noteq> None"
  by code_simp+

lemma empty_list_shown:
  assumes "concat chunks = ''l::''" "\<forall>c \<in> set chunks. c \<noteq> []"
  shows "process_waiting_list chunks = Ok (if list_ended chunks then Some (shown_list chunks []) else None)
    \<and> process_waiting_list (chunks @ [[]]) = Ok (Some (shown_list chunks []))"
proof -
  have "chunks \<in> {[''l::''], [''l'', ''::''], [''l:'', '':''], [''l'', '':'', '':'']}"
  proof -
    obtain y1 r1 where 1: "chunks = (CHR ''l'' # y1) # r1" "''::'' = y1 @ concat r1" "\<forall>c \<in> set r1. c \<noteq> []"
      by (rule concat_Cons_cases [OF assms])
    have one: "r = ['':'']" if "concat r = '':''" "\<forall>c \<in> set r. c \<noteq> []" for r
      by (rule concat_Cons_cases [OF that]) auto
    have two: "r \<in> {[''::''], ['':'', '':'']}" if two: "concat r = ''::''" "\<forall>c \<in> set r. c \<noteq> []" for r
    proof -
      obtain y r' where r: "r = (CHR '':'' # y) # r'" "'':'' = y @ concat r'" "\<forall>c \<in> set r'. c \<noteq> []"
        by (rule concat_Cons_cases [OF two])
      then consider "y = []" "concat r' = '':''" | "y = '':''" "concat r' = []" by (auto simp: Cons_eq_append_conv)
      then show ?thesis using r(1,3) one [of r'] by cases auto
    qed
    show ?thesis
    proof (cases y1)
      case Nil
      with 1 two [of r1] show ?thesis by auto
    next
      case (Cons x ys)
      with 1(2) have x: "x = CHR '':''" "'':'' = ys @ concat r1" by auto
      show ?thesis
      proof (cases ys)
        case Nil
        with 1(1,3) Cons x one [of r1] show ?thesis by simp
      next
        case (Cons z zs)
        with x(2) have "z = CHR '':''" "zs = []" "concat r1 = []" by simp_all
        with 1(1,3) \<open>y1 = x # ys\<close> Cons x(1) show ?thesis by (cases r1) auto
      qed
    qed
  qed
  then consider "chunks = [''l::'']" | "chunks = [''l'', ''::'']" | "chunks = [''l:'', '':'']"
    | "chunks = [''l'', '':'', '':'']" by blast
  then show ?thesis
    by cases (simp_all add: process_waiting_list_def list_ended_def shown_list_def list_shown_def strstr_colons
        BUFFER_SIZE_def print_waiting_list_def print_names.simps)
qed

lemma list_reply_shown:
  assumes "\<forall>c \<in> set cs. name_ok (client c)"
    and "concat chunks = list_reply cs" "\<forall>c \<in> set chunks. c \<noteq> [] \<and> length c < BUFFER_SIZE"
  shows "process_waiting_list chunks = Ok (if list_ended chunks then Some (shown_list chunks cs) else None)
    \<and> process_waiting_list (chunks @ [[]]) = Ok (Some (shown_list chunks cs))"
proof (cases "cs = []")
  case True
  with assms empty_list_shown [of chunks] show ?thesis by (simp add: list_reply_def)
next
  case False
  with process_reads_reply [OF False assms(1), of "[]" chunks 0] assms(2,3) show ?thesis
    by (simp add: process_waiting_list_def shown_list_def)
qed

lemma waiting_names_ok: "server_ok s \<Longrightarrow> \<forall>c \<in> set (waiting s). name_ok (client c)"
  by (auto simp: entry_ok_def dest: server_okD(3))

section \<open>Properties\<close>

text \<open>
  Property C9.  A list request shows the user the waiting clients.  Where their names fit the reply
  block, the server answers with one write and changes nothing; however the network cuts those bytes into
  non-empty reads shorter than the client's buffer, the client reads them all and then, if the last read
  holds both closing colons, prints the list at once, else it blocks in one more read and prints the same
  when that returns nothing, after its timeout.  The list printed is the names in the order of the
  table, the order in which the clients began to wait, numbered from one.  If nobody waits it is the
  message that there is nobody, but only if the answer came in one read, else nothing.
\<close>

theorem list_request_shows_waiting:
  assumes "server_ok s" "name_ok n" "\<not> list_overflow 1024 2 (waiting s)"
    and "command_bytes (Listing n) = Ok msg"
    and "concat chunks = list_reply (waiting s)" "\<forall>c \<in> set chunks. c \<noteq> [] \<and> length c < BUFFER_SIZE"
  shows "handle peer msg s = Ok (s, [Send (list_reply (waiting s))], True)
    \<and> process_waiting_list chunks =
        Ok (if strstr (last chunks) ''::'' \<noteq> None then Some (shown_list chunks (waiting s)) else None)
    \<and> process_waiting_list (chunks @ [[]]) = Ok (Some (shown_list chunks (waiting s)))"
proof -
  have "handle peer msg s = command_handler peer (Listing n) s"
    using command_arrives [of "Listing n" msg] assms(2,4) by (intro handle_command) simp
  also have "\<dots> = Ok (s, [Send (list_reply (waiting s))], True)"
    using printList_exact [of "clients s"] server_okD(1,3) [OF assms(1)] assms(3)
    by (auto simp: on_list_def waiting_def entry_ok_def name_ok_def)
  finally have h: "handle peer msg s = Ok (s, [Send (list_reply (waiting s))], True)" .
  have "chunks \<noteq> []" using assms(5) by (auto simp: list_reply_def)
  with h list_reply_shown [OF waiting_names_ok [OF assms(1)] assms(5,6)] show ?thesis by (simp add: list_ended_def)
qed

theorem list_request_shows_waiting_witness:
  "handle ''10.0.0.9'' (with_nul ''l:amy:'') bob_server = Ok (bob_server, [Send ''l:bob::''], True)
    \<and> process_waiting_list [''l:b'', ''ob:'', '':''] = Ok None
    \<and> process_waiting_list [''l:b'', ''ob:'', '':'', []] = Ok (Some [''1) bob'' @ newline])"
proof -
  have r: "list_reply [bob] = ''l:bob::''" "client bob = ''bob''" "show_int 1 = ''1''"
    by (simp_all add: list_reply_def bob_def show_int_def show_nat.simps digit_char_def)
  have n: "name_ok ''amy''" by (simp add: name_ok_def CLIENT_NAME_LENGTH_def)
  have "\<not> list_overflow 1024 2 (waiting bob_server)" by (simp add: bob_server_contents bob_def)
  moreover have "command_bytes (Listing ''amy'') = Ok (with_nul ''l:amy:'')"
    using command_bytes_text [of "Listing ''amy''"] n by simp
  ultimately show ?thesis
    using list_request_shows_waiting [OF bob_server_ok n, of "with_nul ''l:amy:''" "[''l:b'', ''ob:'', '':'']" "''10.0.0.9''"]
    by (simp add: bob_server_contents r BUFFER_SIZE_def strstr_colons shown_list_def)
qed

text \<open>
  Client and server agree on a join: for a good name the client's answer is one if
  and only if the server has registered the name for it, and zero if and only if the name was
  taken, in which case the server's tables are unchanged and the connection is closed.
\<close>

lemma join_agreement:
  assumes "server_ok s" "name_ok n" "check_name_conflict n [] = Ok (sent, r)"
  shows "\<exists>s' reply rest k. handle peer sent s = Ok (s', Send reply # rest, k)
    \<and> check_name_conflict n reply = Ok (sent, if n \<in> set (names s) then 0 else 1)
    \<and> (if n \<in> set (names s) then s' = s \<and> rest = [CloseFd] \<and> \<not> k
       else names s' = names s @ [n] \<and> waiting s' = waiting s \<and> rest = [] \<and> k)"
proof -
  have sent: "sent = zbuf BUFFER_SIZE (''a:'' @ n @ '':'')"
    using assms(3) by (auto simp: check_name_conflict_def res_simps cstore_Ok_iff)
  have len: "length n < 16" using assms(2) by (simp add: name_ok_def CLIENT_NAME_LENGTH_def)
  have "cstr (zbuf SERVER_BUFF_SIZE sent) = Ok (command_text (Join n))"
    using len assms(2)
    by (simp add: sent BUFFER_SIZE_def SERVER_BUFF_SIZE_def cstr_zbuf_string name_ok_def)
  then have h: "handle peer sent s = on_join (n @ '':'') s"
    using handle_command [of sent "Join n"] by simp
  have t: "fst (strtok '':'' (n @ '':'')) = Some n"
    using assms(2) by (simp add: name_token name_ok_def)
  have reply: "check_name_conflict n (with_nul CMD_REJECTION_JOIN) = Ok (sent, 0)"
    "check_name_conflict n (with_nul CMD_CONFIRM_JOIN) = Ok (sent, 1)"
    using len by (simp_all add: check_name_conflict_def cstore_def sent buf_is_def zbuf_def with_nul_def
        CMD_REJECTION_JOIN_def CMD_CONFIRM_JOIN_def BUFFER_SIZE_def)
  show ?thesis
  proof (cases "n \<in> set (names s)")
    case True
    with on_join_taken [OF assms(1) t] h reply show ?thesis by auto
  next
    case False
    with on_join_new [OF assms(1) t False] assms(2) h reply show ?thesis
      by (auto simp: name_ok_def names_def waiting_def)
  qed
qed

lemma join_agreement_instance:
  "\<exists>s' reply rest k. handle ''10.0.0.9'' (zbuf BUFFER_SIZE ''a:bob:'') bob_server = Ok (s', Send reply # rest, k)
    \<and> check_name_conflict ''bob'' reply = Ok (zbuf BUFFER_SIZE ''a:bob:'', 0)"
proof -
  have n: "name_ok ''bob''" by (simp add: name_ok_def CLIENT_NAME_LENGTH_def)
  have "check_name_conflict ''bob'' [] = Ok (zbuf BUFFER_SIZE ''a:bob:'', - 1)"
    by (simp add: check_name_conflict_def cstore_def BUFFER_SIZE_def)
  from join_agreement [OF bob_server_ok n this, of "''10.0.0.9''"] show ?thesis
    by (auto simp: bob_server_contents)
qed

text \<open>
  The client's argument check and the server disagree about the empty name only: a
  name the check admits makes a join request the server handles, unless it is empty, and then the
  request runs the server into undefined behaviour.
\<close>

lemma admitted_name_stops_server_iff_empty:
  assumes "check_param inet_pton argv = Ok ()" "server_ok s" "addr_ok peer"
    and "check_name_conflict (argv ! 3) [] = Ok (sent, r)"
  shows "(\<exists>e. handle peer sent s = Inl e) \<longleftrightarrow> argv ! 3 = []"
proof -
  let ?n = "argv ! 3"
  have len: "length ?n < 16" and al: "set ?n \<subseteq> set alnum"
    using assms(1)
    by (auto simp: check_param_def failHandler_def check_user_name_length_def CLIENT_NAME_LENGTH_def
        isOnlyLettersOrNumbers_def name_pattern_set split: if_splits)
  note clean = alnum_not_special [OF al]
  have "sent = zbuf SERVER_BUFF_SIZE (''a:'' @ ?n @ '':'')"
    using assms(4) by (auto simp: check_name_conflict_def res_simps cstore_Ok_iff BUFFER_SIZE_def
        SERVER_BUFF_SIZE_def)
  then have "cstr (zbuf SERVER_BUFF_SIZE sent) = Ok (''a:'' @ ?n @ '':'')"
    using len clean by (simp add: cstr_zbuf_string SERVER_BUFF_SIZE_def)
  from handle_stops [OF assms(2,3) this]
  have "(\<exists>e. handle peer sent s = Inl e) \<longleftrightarrow> stops_server (''a:'' @ ?n @ '':'') s" .
  also have "\<dots> \<longleftrightarrow> ?n = []"
  proof (cases "?n = []")
    case True
    then show ?thesis by (simp add: stops_server_def letter_token CMD_JOIN_def strtok_skip)
  next
    case False
    with clean len show ?thesis
      by (simp add: stops_server_def letter_token CMD_JOIN_def name_token CLIENT_NAME_LENGTH_def)
  qed
  finally show ?thesis .
qed

lemma admitted_name_stops_server_iff_empty_instance:
  "check_param (\<lambda>_. 1) [''./client'', ''127.0.0.1'', ''6640'', []] = Ok ()
    \<and> (\<exists>e. handle ''127.0.0.1'' (zbuf BUFFER_SIZE ''a::'') init_server = Inl e)"
proof -
  have "ip_field ''127'' \<and> ip_field ''0'' \<and> ip_field ''1''
      \<and> ''127.0.0.1'' = ''127'' @ ''.'' @ ''0'' @ ''.'' @ ''0'' @ ''.'' @ ''1''"
    by (simp add: ip_field_def digits_def)
  then have "matches ip_pattern ''127.0.0.1''" unfolding ip_pattern_fields by blast
  then have c: "check_param (\<lambda>_. 1) [''./client'', ''127.0.0.1'', ''6640'', []] = Ok ()"
    by (simp add: check_param_def isValidIP_def isNumber_def atoi_def strtol_def is_space_def
        is_digit_def digit_val_def clamp_long_def to_int32_def check_user_name_length_def
        isOnlyLettersOrNumbers_def name_pattern_def numeral_3_eq_3 numeral_2_eq_2)
  have s: "check_name_conflict ([''./client'', ''127.0.0.1'', ''6640'', []] ! 3) []
      = Ok (zbuf BUFFER_SIZE ''a::'', - 1)"
    by (simp add: check_name_conflict_def cstore_def BUFFER_SIZE_def)
  have "addr_ok ''127.0.0.1''" by (simp add: addr_ok_def)
  from admitted_name_stops_server_iff_empty [OF c init_server_ok this s] c show ?thesis by simp
qed

text \<open>
  A name outlives its connection: when a connection that has joined ends without a
  quit message, the server keeps the name, and every later request to join under it is refused.
\<close>

lemma lost_connection_keeps_name:
  assumes "server_ok s" "name_ok n" "n \<notin> set (names s)"
    and "cstr (zbuf SERVER_BUFF_SIZE msg) = Ok (command_text (Join n))"
    and "command_response p [msg, []] s = Ok (s', out)"
  shows "n \<in> set (names s') \<and>
    command_response q [msg] s' = Ok (s', [Send (with_nul CMD_REJECTION_JOIN), CloseFd])"
proof -
  have h: "handle peer msg t = on_join (n @ '':'') t" for peer t
    using handle_command [OF assms(4)] by simp
  have t: "fst (strtok '':'' (n @ '':'')) = Some n"
    using assms(2) by (simp add: name_token name_ok_def)
  have ne: "msg \<noteq> []" using assms(4) by (auto simp: cstr_zbuf split: if_splits)
  obtain ns where ns: "on_join (n @ '':'') s = Ok (s\<lparr>client_names := ns\<rparr>, [Send (with_nul CMD_CONFIRM_JOIN)], True)"
    "nlist_wf ns" "nlist_items ns = names s @ [n]"
    using on_join_new [OF assms(1) t assms(3)] assms(2) by (auto simp: name_ok_def)
  with assms(5) ne have s': "s' = s\<lparr>client_names := ns\<rparr>" by (simp add: h)
  with ns assms(1,2) have ok: "server_ok s'" and n: "n \<in> set (names s')"
    by (auto simp: server_ok_def names_def waiting_def)
  from on_join_taken [OF ok t n] ne n show ?thesis by (simp add: h)
qed

lemma lost_connection_keeps_name_instance:
  "\<exists>s'. ''eve'' \<in> set (names s') \<and> command_response ''10.0.0.8'' [with_nul ''a:eve:''] s'
    = Ok (s', [Send (with_nul CMD_REJECTION_JOIN), CloseFd])"
proof -
  have n: "name_ok ''eve''" by (simp add: name_ok_def CLIENT_NAME_LENGTH_def)
  have m: "cstr (zbuf SERVER_BUFF_SIZE (with_nul ''a:eve:'')) = Ok (command_text (Join ''eve''))"
    by (simp add: cstr_with_nul SERVER_BUFF_SIZE_def)
  have "\<exists>s' out. command_response ''10.0.0.9'' [with_nul ''a:eve:'', []] init_server = Ok (s', out)"
    by (simp add: server_eval)
  then obtain s' out where r: "command_response ''10.0.0.9'' [with_nul ''a:eve:'', []] init_server = Ok (s', out)"
    by blast
  have "''eve'' \<notin> set (names init_server)" by (simp add: names_def init_server_def initNameArray_wf)
  from lost_connection_keeps_name [OF init_server_ok n this m r] show ?thesis by blast
qed

end
