(* ===== verification/Pro_Client.thy ===== *)
theory Pro_Client
  imports Pro_System
begin

text \<open>
  \<^verbatim>\<open>pro/src/client.c\<close>: the chat client as a state machine.  Its globals, the place where
  the main thread blocks, and the threads it started make up the state; an event is what ends one
  blocking call (a line from the user, a read, a \<open>select\<close>, the interrupt signal) with the
  results of the system calls that follow.  The code between two blocking calls is one step.
\<close>

section \<open>State\<close>

definition invalid_input_msg :: string where
  "invalid_input_msg = ''Invalid input! Please input command or talk to someone!'' @ newline"
definition state_not_match_msg :: string where
  "state_not_match_msg = ''Cound not handle this command in this state!'' @ newline"

text \<open>A thread of \<open>__listen_receive__\<close>: at the top of its loop, or blocked in \<open>select\<close>.\<close>

datatype listener = Loop_top | In_select int

text \<open>Where the main thread blocks.\<close>

datatype main_pc = Prompt | Connect_reply | List_reply | Returned

record client_g =
  my_state :: client_state_t
  talk_fd :: int
  l_fd :: int
  fromwait :: int
  listeners :: "listener list"
  receivers :: "char list list"   \<comment> \<open>the known bytes of each receiver's buffer\<close>
  main_at :: main_pc

datatype out =
    Print string
  | To_Server "char list"
  | To_Peer int "char list"
  | Connect_to string int
  | Close_fd int
  | Shutdown_fd int
  | Close_server

type_synonym client_outcome = "(client_g \<times> out list) res"

text \<open>The results of the system calls of \<open>wait_pre_process\<close> and of \<open>__connect_peer__\<close>.\<close>

record wait_env =
  w_socket :: int
  w_bind :: int
  w_listen :: int
  w_create :: int
  w_sockname :: int
  w_port :: int

record connect_env =
  c_socket :: int
  c_aton :: int
  c_connect :: int
  c_create :: int

section \<open>The receiving thread\<close>

definition create_receive_thread :: "int \<Rightarrow> client_g \<Rightarrow> client_g res" where
  "create_receive_thread create_ret s =
    (let s1 = s\<lparr>my_state := CLIENT_STATE_TALKING\<rparr>
     in if create_ret \<noteq> 0 then failHandler ''create thread error!''
        else Ok (s1\<lparr>receivers := receivers s1 @ [[]]\<rparr>))"

definition without :: "nat \<Rightarrow> 'a list \<Rightarrow> 'a list" where
  "without i xs = take i xs @ drop (Suc i) xs"

text \<open>One \<open>read\<close> of the \<open>i\<close>-th receiving thread and the code up to its next one.\<close>

definition peer_receive :: "string \<Rightarrow> nat \<Rightarrow> char list \<Rightarrow> client_g \<Rightarrow> client_outcome" where
  "peer_receive my_name i chunk s =
    (if chunk \<noteq> [] then
       let buf = overwrite (receivers s ! i) chunk
       in res_bind (known_string buf) (\<lambda>text.
            Ok (s\<lparr>receivers := (receivers s)[i := buf]\<rparr>,
                [Print (newline @ text @ newline @ my_name @ ''> '')]))
     else
       Ok (s\<lparr>my_state := CLIENT_STATE_NORMAL, receivers := without i (receivers s)\<rparr>,
           if fromwait s = 1
           then [Print (newline @ ''peer chatter has left!'' @ newline @ my_name @ ''> '')] else []))"

section \<open>The listening thread\<close>

text \<open>The top of the loop, up to \<open>select\<close>.\<close>

definition listen_check :: "nat \<Rightarrow> client_g \<Rightarrow> client_g" where
  "listen_check i s =
    (if my_state s = CLIENT_STATE_NORMAL then s\<lparr>listeners := without i (listeners s)\<rparr>
     else s\<lparr>listeners := (listeners s)[i := In_select (l_fd s)]\<rparr>)"

text \<open>\<open>select\<close> returns \<open>ret\<close>; \<open>accept\<close>, if it is called, returns \<open>fd\<close>.\<close>

definition listen_select :: "nat \<Rightarrow> int \<Rightarrow> int \<Rightarrow> int \<Rightarrow> client_g \<Rightarrow> client_outcome" where
  "listen_select i ret fd create_ret s =
    (if ret < 0 then failHandler ''selsect error!''
     else if ret = 0 then Ok (s\<lparr>listeners := (listeners s)[i := Loop_top]\<rparr>, [])
     else res_bind (create_receive_thread create_ret (s\<lparr>talk_fd := fd, fromwait := 1\<rparr>)) (\<lambda>s1.
       Ok (s1\<lparr>listeners := without i (listeners s1)\<rparr>, [Close_fd (l_fd s1)])))"

definition wait_pre_process :: "wait_env \<Rightarrow> client_g \<Rightarrow> (client_g \<times> int) res" where
  "wait_pre_process e s =
    (let s1 = s\<lparr>my_state := CLIENT_STATE_WAITING\<rparr>
     in if w_socket e < 0 then failHandler ''create socket error!''
        else if w_bind e < 0 then failHandler ''bind socket error!''
        else if w_listen e < 0 then failHandler ''listen socket error!''
        else let s2 = s1\<lparr>l_fd := w_socket e\<rparr>
             in if w_create e \<noteq> 0 then failHandler ''create thread error!''
                else if w_sockname e = - 1 then failHandler ''getsockname() failed''
                else Ok (s2\<lparr>listeners := listeners s2 @ [Loop_top]\<rparr>, w_port e))"

section \<open>Connecting to a peer\<close>

text \<open>\<open>htons\<close> keeps the low sixteen bits of the port.\<close>

definition connect_peer :: "string option \<Rightarrow> int \<Rightarrow> connect_env \<Rightarrow> client_g \<Rightarrow> client_outcome" where
  "connect_peer ip_str p e s =
    (if c_socket e < 0 then failHandler ''create talk socket error!''
     else res_bind (deref ip_str) (\<lambda>addr.
       if c_aton e \<le> 0 then failHandler ''init talk socket addr error!''
       else if c_connect e < 0 then failHandler ''connect peer error!''
       else res_bind (create_receive_thread (c_create e) (s\<lparr>talk_fd := c_socket e, fromwait := 1\<rparr>))
         (\<lambda>s1. Ok (s1, [Connect_to addr (p mod 65536)]))))"

text \<open>The three tokens behind the command letter: name, address and port.\<close>

definition reply_tokens :: "string \<Rightarrow> string option \<times> string option \<times> string option" where
  "reply_tokens str =
    (let r1 = snd (strtok '':'' str);
         r2 = snd (strtok '':'' r1);
         r3 = snd (strtok '':'' r2)
     in (fst (strtok '':'' r1), fst (strtok '':'' r2), fst (strtok '':'' r3)))"

definition connect_after_process :: "char list \<Rightarrow> connect_env \<Rightarrow> client_g \<Rightarrow> client_outcome" where
  "connect_after_process reply e s =
    (if reply = [] then Ok (s, [])
     else let buf = zbuf BUFFER_SIZE reply
          in if buf_is buf ''c::'' then Ok (s, [Print no_such_client_msg])
             else res_bind (cstr buf) (\<lambda>str.
               case reply_tokens str of (peer_name, peer_ip, peer_port) \<Rightarrow>
                 res_bind (deref peer_port) (\<lambda>ps. connect_peer peer_ip (atoi ps) e s)))"

section \<open>User input\<close>

text \<open>
  The commands.  Listing and connecting leave the main thread waiting for the server's answer;
  \<open>rest\<close> is the line behind the command word.
\<close>

definition wait_command :: "string \<Rightarrow> wait_env \<Rightarrow> client_g \<Rightarrow> client_outcome" where
  "wait_command my_name e s =
    res_bind (wait_pre_process e s) (\<lambda>(s1, talk_port).
    res_bind (format_wait_cmd my_name talk_port) (\<lambda>buf. Ok (s1, [To_Server (wire buf)])))"

definition list_command :: "string \<Rightarrow> client_g \<Rightarrow> client_outcome" where
  "list_command my_name s =
    res_bind (format_list_cmd my_name) (\<lambda>buf. Ok (s\<lparr>main_at := List_reply\<rparr>, [To_Server (wire buf)]))"

definition connect_command :: "string \<Rightarrow> string \<Rightarrow> client_g \<Rightarrow> client_outcome" where
  "connect_command my_name rest s =
    (case fst (strtok [] rest) of
       None \<Rightarrow> Ok (s, [Print (''Please enter the user name you want to talk with!'' @ newline)])
     | Some peername \<Rightarrow>
         if peername = my_name then Ok (s, [Print talk_self_msg])
         else res_bind (format_connect_cmd my_name peername) (\<lambda>buf.
           Ok (s\<lparr>main_at := Connect_reply\<rparr>, [To_Server (wire buf)])))"

definition quit_command :: "string \<Rightarrow> client_g \<Rightarrow> client_outcome" where
  "quit_command my_name s =
    res_bind (format_quit_cmd my_name) (\<lambda>buf.
      Ok (s\<lparr>fromwait := 0, main_at := Returned\<rparr>,
          [To_Server (wire buf), Print (''Leaving chatting room! Bye...'' @ newline), Close_server]
          @ (if my_state s = CLIENT_STATE_TALKING then [Close_fd (talk_fd s)] else [])))"

definition process_command :: "string \<Rightarrow> string \<Rightarrow> string \<Rightarrow> wait_env \<Rightarrow> client_g \<Rightarrow> client_outcome" where
  "process_command my_name cmd rest e s =
    (if should_command_work_with_state cmd (my_state s) = 0 then Ok (s, [Print state_not_match_msg])
     else if cmd = ''/wait'' then wait_command my_name e s
     else if cmd = ''/list'' then list_command my_name s
     else if cmd = ''/connect'' then connect_command my_name rest s
     else if cmd = ''/quit'' then quit_command my_name s
     else Ok (s, [Print wrong_cmd_msg]))"

definition talk_line :: "string \<Rightarrow> string \<Rightarrow> client_g \<Rightarrow> client_outcome" where
  "talk_line my_name input s =
    (if my_state s = CLIENT_STATE_TALKING then
       res_bind (send_msg_to_peer (talk_fd s) input my_name) (\<lambda>m.
         Ok (s, case m of None \<Rightarrow> [] | Some bytes \<Rightarrow> [To_Peer (talk_fd s) bytes]))
     else Ok (s, [Print invalid_input_msg]))"

text \<open>One line; \<open>inp\<close> is what \<open>readline\<close> returns, NULL at the end of the input.\<close>

definition process_line :: "string \<Rightarrow> string option \<Rightarrow> wait_env \<Rightarrow> client_g \<Rightarrow> client_outcome" where
  "process_line my_name inp e s =
    res_bind (deref inp) (\<lambda>input.
    if input \<noteq> [] \<and> hd input = CHR ''/'' then
      case strtok '' '' input of (tok, rest) \<Rightarrow>
        res_bind (deref tok) (\<lambda>cmd. process_command my_name cmd rest e s)
    else talk_line my_name input s)"

text \<open>The handler of the interrupt signal.\<close>

definition INThandler :: "string \<Rightarrow> client_g \<Rightarrow> client_outcome" where
  "INThandler my_name s =
    (let (s1, o1) =
       (if my_state s = CLIENT_STATE_TALKING
        then (s\<lparr>fromwait := 0\<rparr>, [Shutdown_fd (talk_fd s),
               Print (newline @ ''Leave chating state!'' @ newline @ my_name @ ''> '')])
        else (s, []))
     in res_bind
       (if my_state s1 = CLIENT_STATE_WAITING
        then res_bind (format_leavewait_cmd my_name) (\<lambda>buf.
          Ok [To_Server (wire buf), Shutdown_fd (l_fd s1),
              Print (newline @ ''Leave waiting state!'' @ newline @ my_name @ ''> '')])
        else Ok [])
       (\<lambda>o2. Ok (s1\<lparr>my_state := CLIENT_STATE_NORMAL\<rparr>, o1 @ o2)))"

section \<open>Steps\<close>

datatype event =
    Line "string option" wait_env
  | List_arrives "char list list"
  | Connect_arrives "char list" connect_env
  | Interrupt
  | Listener_loops nat
  | Select_returns nat int int int
  | Peer_read nat "char list"

text \<open>
  An event that cannot happen in a state leaves it alone, and so do reads behind which the list loop
  still waits for bytes.
\<close>

definition client_step :: "string \<Rightarrow> event \<Rightarrow> client_g \<Rightarrow> client_outcome" where
  "client_step my_name ev s =
    (case ev of
       Line inp e \<Rightarrow> if main_at s = Prompt then process_line my_name inp e s else Ok (s, [])
     | List_arrives chunks \<Rightarrow>
         if main_at s = List_reply
         then res_bind (process_waiting_list chunks) (\<lambda>shown.
                Ok (case shown of None \<Rightarrow> (s, [])
                    | Some text \<Rightarrow> (s\<lparr>main_at := Prompt\<rparr>, map Print text)))
         else Ok (s, [])
     | Connect_arrives reply e \<Rightarrow>
         if main_at s = Connect_reply
         then res_bind (connect_after_process reply e s) (\<lambda>(s1, os).
                Ok (s1\<lparr>main_at := Prompt\<rparr>, os))
         else Ok (s, [])
     | Interrupt \<Rightarrow> if main_at s = Returned then Ok (s, []) else INThandler my_name s
     | Listener_loops i \<Rightarrow>
         if i < length (listeners s) \<and> listeners s ! i = Loop_top then Ok (listen_check i s, [])
         else Ok (s, [])
     | Select_returns i ret fd create_ret \<Rightarrow>
         if i < length (listeners s) \<and> listeners s ! i \<noteq> Loop_top
         then listen_select i ret fd create_ret s else Ok (s, [])
     | Peer_read i chunk \<Rightarrow>
         if i < length (receivers s) then peer_receive my_name i chunk s else Ok (s, []))"

fun client_run :: "string \<Rightarrow> event list \<Rightarrow> client_g \<Rightarrow> client_outcome" where
  "client_run my_name [] s = Ok (s, [])"
| "client_run my_name (ev # evs) s =
    res_bind (client_step my_name ev s) (\<lambda>(s1, o1).
    res_bind (client_run my_name evs s1) (\<lambda>(s2, o2). Ok (s2, o1 @ o2)))"

text \<open>
  \<open>main\<close> after the connection to the server: \<open>check_name_conflict\<close> has returned \<open>ret\<close>;
  the prompt is the name and \<open>"> "\<close> in a buffer of eighteen bytes.
\<close>

definition start_client :: "string \<Rightarrow> int \<Rightarrow> client_g res" where
  "start_client my_name ret =
    (if ret = 0 then failHandler ''User name conflict! Exiting...''
     else res_bind (cstore (CLIENT_NAME_LENGTH + 2) (my_name @ ''> '')) (\<lambda>prompt.
       Ok \<lparr>my_state = CLIENT_STATE_NORMAL, talk_fd = 0, l_fd = 0, fromwait = 0,
           listeners = [], receivers = [], main_at = Prompt\<rparr>))"

text \<open>
  \<open>main\<close> from its arguments on, given the results of \<open>socket\<close> and \<open>connect\<close> and the
  bytes read in \<open>check_name_conflict\<close>: the address connected to, the bytes written there, and
  the state at the first prompt.
\<close>

definition client_main ::
    "(string \<Rightarrow> int) \<Rightarrow> (string \<Rightarrow> 32 word option) \<Rightarrow> string list \<Rightarrow> int \<Rightarrow> int \<Rightarrow> char list \<Rightarrow>
      (sockaddr_in \<times> char list \<times> client_g) res" where
  "client_main inet_pton inet_aton argv server_fd connected reply =
    res_bind (check_param inet_pton argv) (\<lambda>_.
      let my_name = argv ! 3
      in if server_fd < 0 then failHandler ''create socket error!''
      else case inet_aton (argv ! 1) of
        None \<Rightarrow> failHandler ''init socket error!''
      | Some a \<Rightarrow>
          let addr = init_address a (atoi (argv ! 2))
          in if connected < 0 then failHandler ''connect socket error!''
          else res_bind (check_name_conflict my_name reply) (\<lambda>(sent, ret).
               res_bind (start_client my_name ret) (\<lambda>s. Ok (addr, sent, s))))"

end
