(* ===== verification/Pro_Client_Spec.thy ===== *)
theory Pro_Client_Spec
  imports Pro_Client
begin

text \<open>
  What the chat client's state machine guarantees: its states always have a thread that can leave
  them, everything it sends is a command in its own name, its peer address survives the trip
  through the server, and where its threads race.
\<close>

section \<open>The invariant of the state machine\<close>

text \<open>
  A waiting client has a listening thread and a talking client a receiving one; while the client
  talks, \<open>fromwait\<close> is set, so the end of the talk will be announced.
\<close>

definition client_ok :: "client_g \<Rightarrow> bool" where
  "client_ok s \<longleftrightarrow>
    (my_state s = CLIENT_STATE_WAITING \<longrightarrow> listeners s \<noteq> [])
    \<and> (my_state s = CLIENT_STATE_TALKING \<longrightarrow> receivers s \<noteq> [])
    \<and> (my_state s = CLIENT_STATE_TALKING \<and> main_at s \<noteq> Returned \<longrightarrow> fromwait s = 1)"

lemma create_receive_thread_Ok_iff:
  "create_receive_thread r s = Inr s' \<longleftrightarrow>
    r = 0 \<and> s' = s\<lparr>my_state := CLIENT_STATE_TALKING, receivers := receivers s @ [[]]\<rparr>"
  by (auto simp: create_receive_thread_def failHandler_def Let_def)

lemma wait_pre_process_Ok_iff:
  "wait_pre_process e s = Inr (s', p) \<longleftrightarrow>
    0 \<le> w_socket e \<and> 0 \<le> w_bind e \<and> 0 \<le> w_listen e \<and> w_create e = 0 \<and> w_sockname e \<noteq> - 1 \<and> p = w_port e
    \<and> s' = s\<lparr>my_state := CLIENT_STATE_WAITING, l_fd := w_socket e, listeners := listeners s @ [Loop_top]\<rparr>"
  by (auto simp: wait_pre_process_def failHandler_def Let_def not_less)

lemma connect_peer_Ok_iff:
  "connect_peer a p e s = Inr (s', os) \<longleftrightarrow>
    (\<exists>addr. a = Some addr \<and> 0 \<le> c_socket e \<and> 0 < c_aton e \<and> 0 \<le> c_connect e \<and> c_create e = 0
      \<and> os = [Connect_to addr (p mod 65536)]
      \<and> s' = s\<lparr>talk_fd := c_socket e, fromwait := 1, my_state := CLIENT_STATE_TALKING,
               receivers := receivers s @ [[]]\<rparr>)"
  by (auto simp: connect_peer_def failHandler_def res_simps deref_Ok_iff create_receive_thread_Ok_iff)

lemma connect_after_process_result:
  assumes "connect_after_process reply e s = Ok (s', os)"
  obtains "s' = s" "\<forall>m. To_Server m \<notin> set os"
  | a p where "connect_peer a p e s = Ok (s', os)"
proof (cases "reply = [] \<or> buf_is (zbuf BUFFER_SIZE reply) ''c::''")
  case True
  with assms that(1) show ?thesis by (auto simp: connect_after_process_def split: if_splits)
next
  case False
  with assms obtain x where "(case reply_tokens x of (n, a, b) \<Rightarrow>
      res_bind (deref b) (\<lambda>ps. connect_peer a (atoi ps) e s)) = Ok (s', os)"
    by (auto simp: connect_after_process_def res_simps)
  with that(2) show ?thesis by (cases "reply_tokens x") (auto simp: res_simps)
qed

lemma connect_after_process_quiet:
  "connect_after_process reply e s = Ok (s', os) \<Longrightarrow> To_Server m \<notin> set os"
  by (erule connect_after_process_result) (auto simp: connect_peer_Ok_iff)

lemma client_ok_connect:
  "client_ok s \<Longrightarrow> main_at s \<noteq> Returned \<Longrightarrow> connect_after_process reply e s = Ok (s', os) \<Longrightarrow>
    client_ok (s'\<lparr>main_at := Prompt\<rparr>)"
  by (erule connect_after_process_result) (auto simp: connect_peer_Ok_iff client_ok_def)

lemmas command_results = wait_command_def list_command_def connect_command_def quit_command_def
  wait_pre_process_Ok_iff format_cmds res_simps

lemma process_command_ok:
  "client_ok s \<Longrightarrow> main_at s \<noteq> Returned \<Longrightarrow> process_command n cmd rest e s = Ok (s', os) \<Longrightarrow> client_ok s'"
  by (auto simp: process_command_def command_results client_ok_def split: if_splits option.splits)

lemma talk_line_result: "talk_line n t s = Ok (s', os) \<Longrightarrow> s' = s \<and> To_Server m \<notin> set os"
  by (auto simp: talk_line_def res_simps split: if_splits option.splits)

lemma process_line_cases:
  assumes "process_line n inp e s = Ok (s', os)"
  obtains t where "inp = Some t" "talk_line n t s = Ok (s', os)"
  | t cmd rest where "inp = Some t" "strtok '' '' t = (Some cmd, rest)"
      "process_command n cmd rest e s = Ok (s', os)"
  using assms by (auto simp: process_line_def res_simps deref_Ok_iff split: if_splits prod.splits)

lemma process_line_ok:
  "client_ok s \<Longrightarrow> main_at s \<noteq> Returned \<Longrightarrow> process_line n inp e s = Ok (s', os) \<Longrightarrow> client_ok s'"
  by (erule process_line_cases) (auto dest: talk_line_result process_command_ok)

lemma INThandler_Ok_iff:
  "INThandler n s = Inr (s', os) \<longleftrightarrow>
    (if my_state s = CLIENT_STATE_TALKING
     then s' = s\<lparr>fromwait := 0, my_state := CLIENT_STATE_NORMAL\<rparr> \<and>
       os = [Shutdown_fd (talk_fd s), Print (newline @ ''Leave chating state!'' @ newline @ n @ ''> '')]
     else if my_state s = CLIENT_STATE_WAITING
     then s' = s\<lparr>my_state := CLIENT_STATE_NORMAL\<rparr> \<and>
       os = [To_Server (with_nul (command_text (LeaveWait n))), Shutdown_fd (l_fd s),
             Print (newline @ ''Leave waiting state!'' @ newline @ n @ ''> '')]
     else s' = s\<lparr>my_state := CLIENT_STATE_NORMAL\<rparr> \<and> os = [])"
  by (auto simp: INThandler_def format_cmds wire_def zbuf_def with_nul_def)

lemma client_step_ok:
  assumes "client_ok s" "client_step n ev s = Ok (s', os)"
  shows "client_ok s'"
proof (cases ev)
  case (Line inp e)
  with assms process_line_ok [OF assms(1)] show ?thesis by (auto simp: client_step_def split: if_splits)
next
  case (List_arrives chunks)
  with assms show ?thesis by (auto simp: client_step_def res_simps client_ok_def split: if_splits option.splits)
next
  case (Connect_arrives reply e)
  with assms client_ok_connect [OF assms(1)] show ?thesis
    by (auto simp: client_step_def res_simps split: if_splits)
next
  case Interrupt
  with assms show ?thesis
    by (auto simp: client_step_def INThandler_Ok_iff client_ok_def split: if_splits)
next
  case (Listener_loops i)
  with assms show ?thesis
    by (auto simp: client_step_def listen_check_def client_ok_def split: if_splits)
next
  case (Select_returns i ret fd r)
  with assms show ?thesis
    by (auto simp: client_step_def listen_select_def failHandler_def res_simps create_receive_thread_Ok_iff
        client_ok_def split: if_splits)
next
  case (Peer_read i chunk)
  with assms show ?thesis
    by (auto simp: client_step_def peer_receive_def res_simps Let_def client_ok_def split: if_splits)
qed

lemma client_run_ok: "client_ok s \<Longrightarrow> client_run n evs s = Ok (s', os) \<Longrightarrow> client_ok s'"
proof (induction n evs s arbitrary: os rule: client_run.induct)
  case (1 n s)
  then show ?case by simp
next
  case (2 n ev evs s)
  from 2(3) obtain s1 o1 o2 where "client_step n ev s = Ok (s1, o1)" "client_run n evs s1 = Ok (s', o2)"
    by (auto simp: res_simps)
  with 2(1) [of "(s1, o1)" s1 o1] client_step_ok [OF 2(2)] show ?case by simp
qed

lemma start_client_ok: "start_client n ret = Ok s \<Longrightarrow> client_ok s"
  by (auto simp: start_client_def failHandler_def res_simps client_ok_def split: if_splits)

section \<open>What the client sends to the server\<close>

fun sender :: "command \<Rightarrow> string" where
  "sender (Join n) = n"
| "sender (Quit n) = n"
| "sender (Connect n p) = n"
| "sender (Wait n p) = n"
| "sender (Listing n) = n"
| "sender (LeaveWait n) = n"

text \<open>A line is a C string, and a socket's port has sixteen bits.\<close>

definition event_ok :: "event \<Rightarrow> bool" where
  "event_ok ev \<longleftrightarrow> (\<forall>t e. ev = Line (Some t) e \<longrightarrow> no_nul t \<and> 0 \<le> w_port e \<and> w_port e < 65536)"

text \<open>The commands the main loop and the signal handler can form in the name \<open>n\<close>.\<close>

definition client_command :: "string \<Rightarrow> command \<Rightarrow> bool" where
  "client_command n cmd \<longleftrightarrow> sender cmd = n \<and>
    (case cmd of
       Join _ \<Rightarrow> False
     | Wait _ p \<Rightarrow> 0 \<le> p \<and> p < 65536
     | Connect _ p \<Rightarrow> p \<noteq> [] \<and> p \<noteq> n \<and> no_nul p
     | _ \<Rightarrow> True)"

lemma dropWhile_all: "dropWhile (\<lambda>_. True) r = []"
  by (induction r) simp_all

lemma strtok_none: "strtok [] r = (if r = [] then (None, []) else (Some r, []))"
  by (simp add: strtok_def dropWhile_all)

lemma strtok_rest_no_nul: "strtok ds t = (c, r) \<Longrightarrow> no_nul t \<Longrightarrow> no_nul r"
  using strtok_rest_set no_nul_subset by blast

lemma connect_command_sends:
  "connect_command n r s = Ok (s', os) \<Longrightarrow> no_nul r \<Longrightarrow> To_Server m \<in> set os \<Longrightarrow>
    client_command n (Connect n r) \<and> command_bytes (Connect n r) = Ok m"
  by (auto simp: connect_command_def strtok_none format_cmds client_command_def split: if_splits)

lemma process_command_sends:
  assumes "process_command n cmd r e s = Ok (s', os)" "no_nul r" "0 \<le> w_port e" "w_port e < 65536"
    and "To_Server m \<in> set os"
  shows "\<exists>c. client_command n c \<and> command_bytes c = Ok m"
proof -
  consider (wait) "wait_command n e s = Ok (s', os)" | (list) "list_command n s = Ok (s', os)"
    | (connect) "connect_command n r s = Ok (s', os)" | (quit) "quit_command n s = Ok (s', os)"
    using assms(1,5) by (auto simp: process_command_def split: if_splits)
  then show ?thesis
  proof cases
    case wait
    with assms have "client_command n (Wait n (w_port e)) \<and> command_bytes (Wait n (w_port e)) = Ok m"
      by (auto simp: wait_command_def res_simps wait_pre_process_Ok_iff client_command_def)
    then show ?thesis by blast
  next
    case list
    with assms(5) have "client_command n (Listing n) \<and> command_bytes (Listing n) = Ok m"
      by (auto simp: list_command_def res_simps client_command_def)
    then show ?thesis by blast
  next
    case connect
    from connect_command_sends [OF this assms(2,5)] show ?thesis by blast
  next
    case quit
    with assms(5) have "client_command n (Quit n) \<and> command_bytes (Quit n) = Ok m"
      by (auto simp: quit_command_def res_simps client_command_def split: if_splits)
    then show ?thesis by blast
  qed
qed

lemma client_step_sends:
  assumes "client_step n ev s = Ok (s', os)" "event_ok ev" "To_Server m \<in> set os"
  shows "\<exists>c. client_command n c \<and> command_bytes c = Ok m"
proof (cases ev)
  case (Line inp e)
  with assms have l: "process_line n inp e s = Ok (s', os)"
    by (auto simp: client_step_def split: if_splits)
  from l show ?thesis
  proof (cases rule: process_line_cases)
    case (1 t)
    with talk_line_result assms(3) show ?thesis by blast
  next
    case (2 t cmd rest)
    with assms(2) Line have "no_nul rest" "0 \<le> w_port e" "w_port e < 65536"
      using strtok_rest_no_nul by (auto simp: event_ok_def)
    with process_command_sends [OF 2(3)] assms(3) show ?thesis by blast
  qed
next
  case Interrupt
  with assms have "m = with_nul (command_text (LeaveWait n))"
    by (auto simp: client_step_def INThandler_Ok_iff split: if_splits)
  then have "client_command n (LeaveWait n) \<and> command_bytes (LeaveWait n) = Ok m"
    by (simp add: client_command_def format_cmds wire_def zbuf_def with_nul_def)
  then show ?thesis by blast
next
  case (Connect_arrives reply e)
  with assms connect_after_process_quiet show ?thesis
    by (auto simp: client_step_def res_simps split: if_splits)
next
  case (List_arrives chunks)
  with assms show ?thesis by (auto simp: client_step_def res_simps split: if_splits option.splits)
next
  case (Select_returns i ret fd r)
  with assms show ?thesis
    by (auto simp: client_step_def listen_select_def failHandler_def res_simps split: if_splits)
next
  case (Peer_read i chunk)
  with assms show ?thesis
    by (auto simp: client_step_def peer_receive_def res_simps Let_def split: if_splits)
next
  case (Listener_loops i)
  with assms show ?thesis by (auto simp: client_step_def split: if_splits)
qed

lemma client_run_sends:
  "client_run n evs s = Ok (s', os) \<Longrightarrow> \<forall>ev \<in> set evs. event_ok ev \<Longrightarrow> To_Server m \<in> set os \<Longrightarrow>
    \<exists>c. client_command n c \<and> command_bytes c = Ok m"
proof (induction n evs s arbitrary: os rule: client_run.induct)
  case (1 n s)
  then show ?case by simp
next
  case (2 n ev evs s)
  from 2(2) obtain s1 o1 o2 where "client_step n ev s = Ok (s1, o1)" "client_run n evs s1 = Ok (s', o2)"
    "os = o1 @ o2" by (auto simp: res_simps)
  with 2(1) [of "(s1, o1)" s1 o1] client_step_sends [of n ev s s1 o1] 2(3,4) show ?case by auto
qed

section \<open>The server's answer to a connect request\<close>

definition connect_env_ok :: "connect_env \<Rightarrow> bool" where
  "connect_env_ok e \<longleftrightarrow> 0 \<le> c_socket e \<and> 0 < c_aton e \<and> 0 \<le> c_connect e \<and> c_create e = 0"

lemma peer_text_tokens:
  assumes "entry_ok c"
  shows "reply_tokens (peer_text c) = (Some (client c), Some (ip c), Some (show_int (port c)))"
proof -
  have "CHR '':'' \<notin> set (show_int (port c))" "show_int (port c) \<noteq> []" using show_int_clean by auto
  with assms show ?thesis
    by (simp add: reply_tokens_def peer_text_def letter_token name_token entry_ok_def name_ok_def addr_ok_def)
qed

lemma peer_text_not_empty_reply:
  assumes "entry_ok c"
  shows "\<not> buf_is (zbuf n (peer_text c)) ''c::''"
proof -
  from assms obtain a t where "client c = a # t" "a \<noteq> CHR '':''"
    by (cases "client c") (auto simp: entry_ok_def name_ok_def)
  then show ?thesis by (simp add: buf_is_def zbuf_def peer_text_def)
qed

lemma peer_text_string:
  assumes "entry_ok c"
  shows "cstr (zbuf BUFFER_SIZE (zbuf SERVER_BUFF_SIZE (peer_text c))) = Ok (peer_text c)"
proof -
  have "no_nul (peer_text c)" "length (peer_text c) < SERVER_BUFF_SIZE"
    using assms length_show_int32 [of "port c"] show_int_clean [of "port c"]
    by (auto simp: peer_text_def entry_ok_def name_ok_def addr_ok_def handler_defs)
  then show ?thesis by (simp add: BUFFER_SIZE_def SERVER_BUFF_SIZE_def cstr_zbuf_string)
qed

lemma connect_reply:
  assumes "entry_ok c"
  shows "connect_after_process (zbuf SERVER_BUFF_SIZE (peer_text c)) e s
    = connect_peer (Some (ip c)) (port c) e s"
proof -
  have "zbuf SERVER_BUFF_SIZE (peer_text c) \<noteq> []" by (simp add: zbuf_def peer_text_def)
  moreover have "\<not> buf_is (zbuf BUFFER_SIZE (zbuf SERVER_BUFF_SIZE (peer_text c))) ''c::''"
    using peer_text_not_empty_reply [OF assms] by (simp add: BUFFER_SIZE_def SERVER_BUFF_SIZE_def)
  moreover have "fits_int32 (port c)" using assms by (simp add: entry_ok_def)
  ultimately show ?thesis
    using peer_text_string [OF assms] peer_text_tokens [OF assms]
    by (simp add: connect_after_process_def atoi_show_int)
qed

lemma connect_peer_good:
  "connect_env_ok e \<Longrightarrow> connect_peer (Some a) p e s =
    Ok (s\<lparr>talk_fd := c_socket e, fromwait := 1, my_state := CLIENT_STATE_TALKING,
          receivers := receivers s @ [[]]\<rparr>, [Connect_to a (p mod 65536)])"
  by (auto simp: connect_peer_Ok_iff connect_env_ok_def)

section \<open>When a client's message stops the server\<close>

lemma connect_stops:
  assumes "server_ok srv" "addr_ok peer" "name_ok n" "p \<noteq> []" "no_nul p"
    and "command_bytes (Connect n p) = Ok m" "length m \<le> SERVER_BUFF_SIZE"
  shows "(\<exists>e. handle peer m srv = Inl e) \<longleftrightarrow> set p \<subseteq> {CHR '':''} \<and> waiting srv \<noteq> []"
proof -
  have m: "m = with_nul (command_text (Connect n p))"
    using assms(6) by (auto simp: format_cmds wire_def zbuf_def with_nul_def)
  have "cstr (zbuf SERVER_BUFF_SIZE m) = Ok (command_text (Connect n p))"
  proof -
    have "length (command_text (Connect n p)) < SERVER_BUFF_SIZE"
      using assms(7) by (simp add: m with_nul_def)
    moreover have "no_nul (command_text (Connect n p))" using assms(3,5) by (simp add: name_ok_def)
    ultimately show ?thesis unfolding m by (rule cstr_with_nul [rotated])
  qed
  from handle_stops [OF assms(1,2) this]
  have "(\<exists>e. handle peer m srv = Inl e) \<longleftrightarrow> stops_server (command_text (Connect n p)) srv" .
  also have "\<dots> \<longleftrightarrow> fst (strtok '':'' (p @ '':'')) = None \<and> waiting srv \<noteq> []"
    using assms(3) by (simp add: stops_server_def letter_token name_token name_ok_def cmd_defs)
  also have "\<dots> \<longleftrightarrow> set p \<subseteq> {CHR '':''} \<and> waiting srv \<noteq> []"
    by (auto simp: strtok_None_iff)
  finally show ?thesis .
qed

lemma simple_command_stops:
  assumes "server_ok srv" "addr_ok peer" "command_ok cmd" "command_bytes cmd = Ok m"
    and "\<forall>n p. cmd \<noteq> Connect n p"
  shows "(\<exists>e. handle peer m srv = Inl e) \<longleftrightarrow>
    (\<exists>n. cmd = Listing n) \<and> list_overflow 1024 2 (waiting srv)"
proof -
  from handle_stops [OF assms(1,2) command_arrives [OF assms(3,4)]]
  have "(\<exists>e. handle peer m srv = Inl e) \<longleftrightarrow> stops_server (command_text cmd) srv" .
  moreover have "name_ok n \<Longrightarrow> fst (strtok '':'' (n @ '':'')) = Some n" for n
    by (simp add: name_token name_ok_def)
  moreover have "fst (strtok '':'' (show_int p @ '':'')) = Some (show_int p)" for p
    using show_int_clean [of p] by (simp add: name_token)
  ultimately show ?thesis
    using assms(3,5)
    by (cases cmd) (simp_all add: stops_server_def letter_token name_token name_ok_def handler_defs)
qed

lemma client_message_stops:
  assumes "server_ok srv" "addr_ok peer" "name_ok n" "client_command n cmd"
    and "command_bytes cmd = Ok m" "length m \<le> SERVER_BUFF_SIZE"
  shows "(\<exists>e. handle peer m srv = Inl e) \<longleftrightarrow>
    (\<exists>p. cmd = Connect n p \<and> set p \<subseteq> {CHR '':''}) \<and> waiting srv \<noteq> []
    \<or> cmd = Listing n \<and> list_overflow 1024 2 (waiting srv)"
proof (cases "\<exists>p. cmd = Connect n p")
  case True
  then obtain p where p: "cmd = Connect n p" by blast
  with assms(4) have "p \<noteq> []" "no_nul p" by (simp_all add: client_command_def)
  with connect_stops [OF assms(1-3) this] assms(5,6) p show ?thesis by simp
next
  case False
  with assms(3,4) have "command_ok cmd" "\<forall>n p. cmd \<noteq> Connect n p" "sender cmd = n"
    by (cases cmd; simp add: client_command_def)+
  with simple_command_stops [OF assms(1,2) _ assms(5)] False show ?thesis by auto
qed

section \<open>Properties\<close>

text \<open>
  Property C16.  Whatever the user types and the network and the threads do, a waiting client has
  a thread listening for its peer, a talking client has a thread receiving from its peer, and a
  client that talks will announce the end of the talk.
\<close>

theorem client_never_stuck:
  assumes "start_client n ret = Ok s" "client_run n evs s = Ok (s', os)"
  shows "(my_state s' = CLIENT_STATE_WAITING \<longrightarrow> listeners s' \<noteq> [])
    \<and> (my_state s' = CLIENT_STATE_TALKING \<longrightarrow> receivers s' \<noteq> [])
    \<and> (my_state s' = CLIENT_STATE_TALKING \<and> main_at s' \<noteq> Returned \<longrightarrow> fromwait s' = 1)"
  using client_run_ok [OF start_client_ok [OF assms(1)] assms(2)] by (simp add: client_ok_def)

text \<open>
  When a client stops the server: for a client with a good name, in every run, a
  message it sends that fits one read runs the server into undefined behaviour if and only if it
  asks for a peer whose name is all colons while somebody waits, or for a list whose text overruns
  the server's block.
\<close>

lemma client_message_stops_server_iff:
  assumes "client_run n evs s = Ok (s', os)" "\<forall>ev \<in> set evs. event_ok ev" "To_Server m \<in> set os"
    and "name_ok n" "server_ok srv" "addr_ok peer" "length m \<le> SERVER_BUFF_SIZE"
  shows "\<exists>cmd. client_command n cmd \<and> command_bytes cmd = Ok m \<and>
    ((\<exists>e. handle peer m srv = Inl e) \<longleftrightarrow>
      (\<exists>p. cmd = Connect n p \<and> set p \<subseteq> {CHR '':''}) \<and> waiting srv \<noteq> []
      \<or> cmd = Listing n \<and> list_overflow 1024 2 (waiting srv))"
  using client_run_sends [OF assms(1,2,3)] client_message_stops [OF assms(5,6,4) _ _ assms(7)] by blast

lemma waiting_peer_reached:
  assumes "server_ok srv" "distinct (names srv)" "addr_ok a" "addr_ok b" "name_ok n" "name_ok m" "n \<noteq> m"
    and "n \<notin> client ` set (waiting srv)" "0 \<le> w_port we" "w_port we < 65536" "connect_env_ok ce"
    and "main_at s = Prompt" "client_step n (Line (Some ''/wait'') we) s = Ok (s1, [To_Server wmsg])"
    and "main_at t = Prompt"
    and "client_step m (Line (Some (''/connect '' @ n)) we') t = Ok (t1, [To_Server cmsg])"
  shows "\<exists>srv1 srv2 reply t2. handle a wmsg srv = Ok (srv1, [], True)
    \<and> handle b cmsg srv1 = Ok (srv2, [Send reply], True) \<and> waiting srv2 = waiting srv
    \<and> client_step m (Connect_arrives reply ce) t1 = Ok (t2, [Connect_to a (w_port we)])
    \<and> my_state t2 = CLIENT_STATE_TALKING \<and> talk_fd t2 = c_socket ce"
proof -
  let ?p = "w_port we" and ?c = "\<lparr>client = n, ip = a, port = w_port we\<rparr>"
  have w: "command_ok (Wait n ?p)" "command_bytes (Wait n ?p) = Ok wmsg"
  proof -
    show "command_ok (Wait n ?p)" using assms by simp
    have "strtok '' '' ''/wait'' = (Some ''/wait'', [])" by (simp add: strtok_last)
    with assms(12,13) show "command_bytes (Wait n ?p) = Ok wmsg"
      by (auto simp: client_step_def process_line_def process_command_def wait_command_def res_simps
          wait_pre_process_Ok_iff split: if_splits)
  qed
  have c: "command_ok (Connect m n)" "command_bytes (Connect m n) = Ok cmsg" "main_at t1 = Connect_reply"
  proof -
    show "command_ok (Connect m n)" using assms by (simp add: name_ok_def CLIENT_NAME_LENGTH_def)
    have "strtok '' '' (''/connect'' @ CHR '' '' # n) = (Some ''/connect'', n)"
      by (rule strtok_token) auto
    with assms(5,7,14,15) show "command_bytes (Connect m n) = Ok cmsg" "main_at t1 = Connect_reply"
      by (auto simp: client_step_def process_line_def process_command_def connect_command_def strtok_none
          name_ok_def format_cmds split: if_splits)
  qed
  obtain srv1 where srv1: "handle a wmsg srv = Ok (srv1, [], True)" "server_ok srv1" "distinct (names srv1)"
    "waiting srv1 = waiting srv @ [?c]"
    using handle_simulates [OF assms(1,2,3) w(1) _ command_arrives [OF w]]
    by (auto simp: registry_of_def)
  have "find_entry n (waiting srv1) = Some ?c" "remove_entry n (waiting srv1) = waiting srv"
    using find_entry_split [OF assms(8), of ?c "[]"] remove_entry_split [OF assms(8), of ?c "[]"] srv1(4)
    by simp_all
  then obtain srv2 where srv2: "waiting srv2 = waiting srv"
    "handle b cmsg srv1 = Ok (srv2, [Send (zbuf SERVER_BUFF_SIZE (peer_text ?c))], True)"
    using handle_simulates [OF srv1(2,3) assms(4) c(1) _ command_arrives [OF c(1,2)]]
    by (auto simp: registry_of_def)
  have "entry_ok ?c" using server_okD(3) [OF srv1(2)] srv1(4) by simp
  from connect_reply [OF this] connect_peer_good [OF assms(11)] c(3) assms(9,10) srv1(1) srv2
  show ?thesis by (auto simp: client_step_def)
qed

text \<open>
  Property C17.  Waiting and connecting meet: when a client's wait request and then another's
  request to connect to it reach the server, the server's answer makes the second client connect
  to exactly the address the server saw the first one at and the port its system gave it, both
  requests are served, and the table of waiting clients is as it was before.
\<close>

theorem waiting_client_is_reached:
  assumes "server_ok srv" "distinct (names srv)" "addr_ok a" "addr_ok b" "name_ok n" "name_ok m" "n \<noteq> m"
    and "n \<notin> client ` set (waiting srv)" "0 \<le> w_port we" "w_port we < 65536" "connect_env_ok ce"
    and "main_at s = Prompt" "client_step n (Line (Some ''/wait'') we) s = Ok (s1, [To_Server wmsg])"
    and "main_at t = Prompt"
    and "client_step m (Line (Some (''/connect '' @ n)) we') t = Ok (t1, [To_Server cmsg])"
  shows "\<exists>srv1 srv2 reply t2. handle a wmsg srv = Ok (srv1, [], True)
    \<and> handle b cmsg srv1 = Ok (srv2, [Send reply], True) \<and> waiting srv2 = waiting srv
    \<and> client_step m (Connect_arrives reply ce) t1 = Ok (t2, [Connect_to a (w_port we)])
    \<and> my_state t2 = CLIENT_STATE_TALKING \<and> talk_fd t2 = c_socket ce"
  by (rule waiting_peer_reached [OF assms])

text \<open>
  A receiving thread that outlives its talk ends the next wait: after an interrupt
  and a new wait request, the end of file the old thread reads sets the state back to normal, so a
  second interrupt does not tell the server and the client stays in the server's table.
\<close>

lemma stale_receiver_ends_waiting:
  assumes "my_state s = CLIENT_STATE_TALKING" "main_at s = Prompt" "i < length (receivers s)"
    and "wait_pre_process e s = Ok (s2, p)" "0 \<le> p" "p < 65536"
  shows "\<exists>s' m os. client_run n [Interrupt, Line (Some ''/wait'') e, Peer_read i [], Interrupt] s = Ok (s', os)
    \<and> command_bytes (Wait n p) = Ok m \<and> {b. To_Server b \<in> set os} = {m}
    \<and> my_state s' = CLIENT_STATE_NORMAL \<and> listeners s' \<noteq> []"
proof -
  have st: "strtok '' '' ''/wait'' = (Some ''/wait'', [])" by (simp add: strtok_last)
  have e: "w_port e = p" "0 \<le> w_socket e" "0 \<le> w_bind e" "0 \<le> w_listen e" "w_create e = 0" "w_sockname e \<noteq> - 1"
    using assms(4) by (simp_all add: wait_pre_process_Ok_iff)
  have wait: "wait_pre_process e t = Ok (t\<lparr>my_state := CLIENT_STATE_WAITING, l_fd := w_socket e,
      listeners := listeners t @ [Loop_top]\<rparr>, p)" for t
    using e by (simp add: wait_pre_process_Ok_iff)
  have len: "length (show_int p) < 8" by (rule port_text [OF assms(5,6)])
  show ?thesis
    using assms(1-3) len
    by (simp add: client_step_def INThandler_def process_line_def process_command_def wait_command_def st
        wait should_command_work_with_state_def peer_receive_def format_wait_cmd_eq Let_def)
qed

text \<open>
  Leaving the waiting state wakes the listening thread, whose failed \<open>accept\<close> makes
  the client talk to descriptor -1; the new receiving thread's failed read then announces the
  departure of a peer that never was.
\<close>

lemma leaving_wait_announces_peer:
  assumes "my_state s = CLIENT_STATE_WAITING" "main_at s = Prompt"
    and "i < length (listeners s)" "listeners s ! i = In_select fd"
  shows "\<exists>s1 o1 s2 o2. client_run n [Interrupt, Select_returns i 1 (- 1) 0] s = Ok (s1, o1)
    \<and> my_state s1 = CLIENT_STATE_TALKING \<and> talk_fd s1 = - 1
    \<and> client_run n [Peer_read (length (receivers s)) []] s1 = Ok (s2, o2)
    \<and> o2 = [Print (newline @ ''peer chatter has left!'' @ newline @ n @ ''> '')]
    \<and> my_state s2 = CLIENT_STATE_NORMAL"
  using assms
  by (simp add: client_step_def INThandler_def listen_select_def create_receive_thread_def peer_receive_def
      format_cmds Let_def)

text \<open>
  The first message of a talk is printed from uninitialised memory: the bytes a
  client sends to its peer never hold the zero byte that ends a string, and a receiving thread
  that reads them into its fresh buffer prints past them.
\<close>

lemma first_peer_message_uninitialised:
  assumes "process_line n (Some line) e s = Ok (s', [To_Peer fd bytes])" "no_nul n" "no_nul line"
    and "i < length (receivers t)" "receivers t ! i = []"
  shows "client_step m (Peer_read i bytes) t = ub Uninitialised"
proof -
  have "bytes = n @ '': '' @ line @ newline"
    using assms(1)
    by (auto simp: process_line_def process_command_def command_results talk_line_def send_msg_to_peer_def
        cstore_Ok_iff split: if_splits option.splits prod.splits)
  with assms(2,3) have "NUL \<notin> set bytes" "bytes \<noteq> []" by (auto simp: no_nul_def newline_def)
  with assms(4,5) show ?thesis
    by (simp add: client_step_def peer_receive_def overwrite_def known_string_def Let_def)
qed

section \<open>Concrete instances\<close>

definition start_state :: client_g where
  "start_state = \<lparr>my_state = CLIENT_STATE_NORMAL, talk_fd = 0, l_fd = 0, fromwait = 0,
    listeners = [], receivers = [], main_at = Prompt\<rparr>"

definition talk_state :: client_g where
  "talk_state = \<lparr>my_state = CLIENT_STATE_TALKING, talk_fd = 5, l_fd = 4, fromwait = 1,
    listeners = [], receivers = [[]], main_at = Prompt\<rparr>"

definition wait_state :: client_g where
  "wait_state = \<lparr>my_state = CLIENT_STATE_WAITING, talk_fd = 0, l_fd = 4, fromwait = 0,
    listeners = [In_select 4], receivers = [], main_at = Prompt\<rparr>"

definition wenv :: wait_env where
  "wenv = \<lparr>w_socket = 4, w_bind = 0, w_listen = 0, w_create = 0, w_sockname = 0, w_port = 4001\<rparr>"

definition cenv :: connect_env where
  "cenv = \<lparr>c_socket = 5, c_aton = 1, c_connect = 0, c_create = 0\<rparr>"

lemmas instance_defs = start_state_def talk_state_def wait_state_def wenv_def cenv_def

lemma start_amy: "start_client ''amy'' 1 = Ok start_state"
  by (simp add: start_client_def cstore_def CLIENT_NAME_LENGTH_def start_state_def)

lemma wait_token: "strtok '' '' ''/wait'' = (Some ''/wait'', [])"
  by (simp add: strtok_last)

lemma wait_line:
  "client_step n (Line (Some ''/wait'') wenv) start_state = Ok
    (start_state\<lparr>my_state := CLIENT_STATE_WAITING, l_fd := 4, listeners := [Loop_top]\<rparr>,
     [To_Server (with_nul (command_text (Wait n 4001)))])"
proof -
  have w: "wait_pre_process wenv start_state =
      Ok (start_state\<lparr>my_state := CLIENT_STATE_WAITING, l_fd := 4, listeners := [Loop_top]\<rparr>, 4001)"
    by (simp add: wait_pre_process_Ok_iff instance_defs)
  have "length (show_int 4001) < 8" by (rule port_text) simp_all
  then show ?thesis
    using w by (simp add: client_step_def process_line_def process_command_def wait_command_def wait_token
        should_command_work_with_state_def start_state_def format_wait_cmd_eq wire_def zbuf_def with_nul_def)
qed

theorem client_never_stuck_witness:
  "\<exists>s os. client_run ''amy'' [Line (Some ''/wait'') wenv] start_state = Ok (s, os)
    \<and> my_state s = CLIENT_STATE_WAITING \<and> listeners s \<noteq> []"
proof -
  obtain s os where r: "client_run ''amy'' [Line (Some ''/wait'') wenv] start_state = Ok (s, os)"
    "my_state s = CLIENT_STATE_WAITING"
    using wait_line [of "''amy''"] by simp
  from client_never_stuck [OF start_amy r(1)] r show ?thesis by blast
qed

lemma amy_ok: "name_ok ''amy''" and bob_name_ok: "name_ok ''bob''"
  by (simp_all add: name_ok_def CLIENT_NAME_LENGTH_def)

lemma connect_line:
  assumes "p \<noteq> []" "p \<noteq> n"
  shows "client_step n (Line (Some (''/connect '' @ p)) wenv) start_state = Ok
    (start_state\<lparr>main_at := Connect_reply\<rparr>, [To_Server (with_nul (command_text (Connect n p)))])"
proof -
  have "strtok '' '' (''/connect'' @ CHR '' '' # p) = (Some ''/connect'', p)" by (rule strtok_token) auto
  with assms show ?thesis
    by (simp add: client_step_def process_line_def process_command_def connect_command_def strtok_none
        should_command_work_with_state_def start_state_def format_cmds wire_def zbuf_def with_nul_def)
qed

lemma client_message_stops_server_iff_instance:
  "\<exists>m e. client_run ''amy'' [Line (Some ''/connect ::'') wenv] start_state
      = Ok (start_state\<lparr>main_at := Connect_reply\<rparr>, [To_Server m])
    \<and> handle ''10.0.0.9'' m bob_server = Inl e"
proof -
  let ?m = "with_nul (command_text (Connect ''amy'' ''::''))"
  have r: "client_run ''amy'' [Line (Some ''/connect ::'') wenv] start_state
      = Ok (start_state\<lparr>main_at := Connect_reply\<rparr>, [To_Server ?m])"
    using connect_line [of "''::''" "''amy''"] by simp
  have ev: "\<forall>ev \<in> set [Line (Some ''/connect ::'') wenv]. event_ok ev"
    by (simp add: event_ok_def wenv_def)
  have m: "To_Server ?m \<in> set [To_Server ?m]" "length ?m \<le> SERVER_BUFF_SIZE" "addr_ok ''10.0.0.9''"
    by (simp_all add: with_nul_def SERVER_BUFF_SIZE_def addr_ok_def)
  from client_message_stops_server_iff [OF r ev m(1) amy_ok bob_server_ok m(3,2)]
  obtain cmd where c: "client_command ''amy'' cmd" "command_bytes cmd = Ok ?m"
    "(\<exists>e. handle ''10.0.0.9'' ?m bob_server = Inl e) \<longleftrightarrow>
      (\<exists>p. cmd = Connect ''amy'' p \<and> set p \<subseteq> {CHR '':''}) \<and> waiting bob_server \<noteq> []
      \<or> cmd = Listing ''amy'' \<and> list_overflow 1024 2 (waiting bob_server)" by blast
  then have "\<exists>p. cmd = Connect ''amy'' p \<and> set p \<subseteq> {CHR '':''}"
    by (cases cmd) (auto simp: format_cmds format_wait_cmd_eq wire_def zbuf_def with_nul_def client_command_def
        append_eq_Cons_conv split: if_splits)
  with c(3) r show ?thesis by (auto simp: bob_server_contents)
qed

theorem waiting_client_is_reached_witness:
  "\<exists>srv1 srv2 reply t2. handle ''10.0.0.7'' (with_nul (command_text (Wait ''bob'' 4001))) init_server = Ok (srv1, [], True)
    \<and> handle ''10.0.0.9'' (with_nul (command_text (Connect ''amy'' ''bob''))) srv1 = Ok (srv2, [Send reply], True)
    \<and> client_step ''amy'' (Connect_arrives reply cenv) (start_state\<lparr>main_at := Connect_reply\<rparr>)
      = Ok (t2, [Connect_to ''10.0.0.7'' 4001]) \<and> my_state t2 = CLIENT_STATE_TALKING"
proof -
  have d: "distinct (names init_server)" "''bob'' \<notin> client ` set (waiting init_server)"
    by (simp_all add: init_server_def names_def waiting_def initNameArray_wf initArray_wf)
  have a: "addr_ok ''10.0.0.7''" "addr_ok ''10.0.0.9''" "''bob'' \<noteq> ''amy''" by (simp_all add: addr_ok_def)
  have e: "0 \<le> w_port wenv" "w_port wenv < 65536" "connect_env_ok cenv" "w_port wenv = 4001"
    by (simp_all add: instance_defs connect_env_ok_def)
  have at: "main_at start_state = Prompt" by (simp add: start_state_def)
  have c: "client_step ''amy'' (Line (Some (''/connect '' @ ''bob'')) wenv) start_state = Ok
    (start_state\<lparr>main_at := Connect_reply\<rparr>, [To_Server (with_nul (command_text (Connect ''amy'' ''bob'')))])"
    by (rule connect_line) simp_all
  from waiting_client_is_reached [OF init_server_ok d(1) a(1,2) bob_name_ok amy_ok a(3) d(2) e(1-3)
      at wait_line at c] e(4)
  show ?thesis by metis
qed

lemma stale_receiver_ends_waiting_instance:
  "\<exists>s os. client_run ''amy'' [Interrupt, Line (Some ''/wait'') wenv, Peer_read 0 [], Interrupt] talk_state = Ok (s, os)
    \<and> my_state s = CLIENT_STATE_NORMAL \<and> listeners s \<noteq> []"
proof -
  have "my_state talk_state = CLIENT_STATE_TALKING" "main_at talk_state = Prompt" "0 < length (receivers talk_state)"
    by (simp_all add: talk_state_def)
  moreover have "wait_pre_process wenv talk_state = Ok (talk_state\<lparr>my_state := CLIENT_STATE_WAITING,
      l_fd := 4, listeners := [Loop_top]\<rparr>, 4001)"
    by (simp add: wait_pre_process_Ok_iff instance_defs)
  ultimately show ?thesis
    using stale_receiver_ends_waiting [of talk_state 0 wenv _ 4001 "''amy''"] by fastforce
qed

lemma leaving_wait_announces_peer_instance:
  "\<exists>s1 o1. client_run ''amy'' [Interrupt, Select_returns 0 1 (- 1) 0] wait_state = Ok (s1, o1)
    \<and> my_state s1 = CLIENT_STATE_TALKING \<and> talk_fd s1 = - 1"
proof -
  have "my_state wait_state = CLIENT_STATE_WAITING" "main_at wait_state = Prompt"
    "0 < length (listeners wait_state)" "listeners wait_state ! 0 = In_select 4"
    by (simp_all add: wait_state_def)
  from leaving_wait_announces_peer [OF this, of "''amy''"] show ?thesis by blast
qed

lemma first_peer_message_uninitialised_instance:
  "client_step ''bob'' (Peer_read 0 (''amy: hi'' @ newline)) talk_state = ub Uninitialised"
proof -
  have p: "process_line ''amy'' (Some ''hi'') wenv talk_state
      = Ok (talk_state, [To_Peer 5 (''amy: hi'' @ newline)])"
    by (simp add: process_line_def talk_line_def talk_state_def send_msg_to_peer_def cstore_def BUFFER_SIZE_def
        newline_def)
  have "no_nul ''amy''" "no_nul ''hi''" "0 < length (receivers talk_state)" "receivers talk_state ! 0 = []"
    by (simp_all add: talk_state_def)
  from first_peer_message_uninitialised [OF p this] show ?thesis .
qed

end
