(* ===== verification/Pro_Chat.thy ===== *)
theory Pro_Chat
  imports Pro_Client_Spec Pro_System
begin

text \<open>
  The chat as a whole: the server of \<^verbatim>\<open>pro/src/server.c\<close> and any number of clients of
  \<^verbatim>\<open>pro/src/client.c\<close>, with the messages in transit between them.  The server handles one
  message at a time (\<open>Pro_Server\<close>), a client makes one step of its state machine (\<open>Pro_Client\<close>);
  what a client reads is what the server sent it.  Two kinds of events read an answer: \<open>Acts\<close> reads it
  as it was written, \<open>Reads_part\<close> reads any part of the bytes that have arrived, or none when the read
  times out or is interrupted.  The server reads a message as it was written, or with
  \<open>Server_reads_several\<close> several at once; that a read cuts a message in the middle is not modelled.
  Handling one message at a time leaves out how the threads of the real server can interleave inside
  a handler: that is \<open>Pro_Server_Threads\<close>.
\<close>

section \<open>The system\<close>

text \<open>
  Where a client's process is: in \<open>check_name_conflict\<close>, in \<open>process_input\<close>, or no more, and then what
  stopped it: nothing of the program's own (it was killed, or its end is that of \<open>main\<close>), an error it exits
  with, or undefined behaviour.
\<close>

datatype program = Joining | Running client_g | Ended "stop option"

definition has_ended :: "program \<Rightarrow> bool" where
  "has_ended prog \<longleftrightarrow> (case prog of Ended why \<Rightarrow> True | _ \<Rightarrow> False)"

lemma has_ended_simps [simp]: "\<not> has_ended Joining" "\<not> has_ended (Running s)" "has_ended (Ended why)"
  by (simp_all add: has_ended_def)

text \<open>
  A connection: the client's name, the address the server sees, the client, whether the server's thread
  still reads, and the messages on their way to the server and back.  Two fields are history, not state:
  \<open>l_holds\<close>, that the server has admitted the name and has not handled a farewell, and \<open>l_unanswered\<close>,
  that the client has gone on without the answer to its join request.
\<close>

record link =
  l_name :: string
  l_peer :: string
  l_program :: program
  l_served :: bool
  l_holds :: bool
  l_unanswered :: bool
  l_up :: "char list list"
  l_down :: "char list list"

record chat =
  srv :: server
  links :: "link list"

definition init_chat :: chat where
  "init_chat = \<lparr>srv = init_server, links = []\<rparr>"

datatype chat_event =
    Opens string string     \<comment> \<open>a client connects under a name from an address\<close>
  | Reads_join nat          \<comment> \<open>it reads the answer to its join request\<close>
  | Join_fails nat          \<comment> \<open>that read fails, as it does after three minutes\<close>
  | Acts nat event
  | Reads_part nat event
  | Leaves nat              \<comment> \<open>its process ends or is killed\<close>
  | Server_reads nat
  | Server_reads_several nat nat  \<comment> \<open>the next message and so many behind it, in one read\<close>

definition at_link :: "nat \<Rightarrow> (link \<Rightarrow> link) \<Rightarrow> chat \<Rightarrow> chat" where
  "at_link i f c = (if i < length (links c) then c\<lparr>links := (links c)[i := f (links c ! i)]\<rparr> else c)"

section \<open>The clients' side\<close>

text \<open>The bytes among a client's outputs that go to the server.\<close>

definition to_server :: "out list \<Rightarrow> char list list" where
  "to_server os = concat (map (\<lambda>a. case a of To_Server m \<Rightarrow> [m] | _ \<Rightarrow> []) os)"

definition opens :: "string \<Rightarrow> string \<Rightarrow> chat \<Rightarrow> chat" where
  "opens n a c =
    (case check_name_conflict n [] of
       Inl e \<Rightarrow> c
     | Inr (sent, ret) \<Rightarrow> c\<lparr>links := links c @ [\<lparr>l_name = n, l_peer = a, l_program = Joining, l_served = True,
         l_holds = False, l_unanswered = False, l_up = [sent], l_down = []\<rparr>]\<rparr>)"

text \<open>\<open>main\<close> behind the read of the answer, of which nothing is read if that fails.\<close>

definition joined :: "string \<Rightarrow> char list \<Rightarrow> program" where
  "joined n reply =
    (case check_name_conflict n reply of
       Inl e \<Rightarrow> Ended (Some e)
     | Inr (sent, ret) \<Rightarrow> (case start_client n ret of Inl e \<Rightarrow> Ended (Some e) | Inr s \<Rightarrow> Running s))"

definition reads_join :: "link \<Rightarrow> link" where
  "reads_join lk =
    (case (l_program lk, l_down lk) of
       (Joining, reply # rest) \<Rightarrow> lk\<lparr>l_down := rest, l_program := joined (l_name lk) reply\<rparr>
     | _ \<Rightarrow> lk)"

definition join_fails :: "link \<Rightarrow> link" where
  "join_fails lk = (case l_program lk of Joining \<Rightarrow> lk\<lparr>l_program := joined (l_name lk) [], l_unanswered := True\<rparr> | _ \<Rightarrow> lk)"

text \<open>
  A list may arrive in pieces, and the loop of \<open>process_waiting_list\<close> may end before it has read them
  all: it reads \<open>list_reads 0 chunks\<close> of the pieces.  Where it does not end it waits for more bytes, and
  the event has not happened yet.
\<close>

fun list_reads :: "nat \<Rightarrow> char list list \<Rightarrow> char list list" where
  "list_reads idx [] = []"
| "list_reads idx (chunk # chunks) =
    (let buf = takeWhile (\<lambda>c. c \<noteq> NUL) chunk
     in if chunk = [] \<or> buf = ''l::'' \<and> idx = 0 \<or> strstr buf ''::'' \<noteq> None then [chunk]
        else chunk # list_reads (idx + 1) chunks)"

definition list_read :: "char list list \<Rightarrow> char list option" where
  "list_read chunks = (if process_waiting_list chunks = Ok None then None else Some (concat (list_reads 0 chunks)))"

text \<open>
  What an event reads from the server when the main thread waits for it, taken off the messages in
  transit; \<open>None\<close> if that is not what is there.
\<close>

definition takes :: "event \<Rightarrow> main_pc \<Rightarrow> char list list \<Rightarrow> char list list option" where
  "takes ev at down =
    (let the_answer = (\<lambda>bs. case down of [] \<Rightarrow> None | m # ms \<Rightarrow> if bs = m then Some ms else None)
     in case ev of
          Connect_arrives reply e \<Rightarrow> if at = Connect_reply then the_answer reply else Some down
        | List_arrives chunks \<Rightarrow>
            if at = List_reply then (case list_read chunks of None \<Rightarrow> None | Some bs \<Rightarrow> the_answer bs) else Some down
        | _ \<Rightarrow> Some down)"

text \<open>The same for a stream of bytes: the reads return any bytes that are next, in any pieces, or none.\<close>

definition takes_part :: "event \<Rightarrow> main_pc \<Rightarrow> char list list \<Rightarrow> char list list option" where
  "takes_part ev at down =
    (let next_bytes = (\<lambda>bs. if take (length bs) (concat down) = bs
          then Some (filter (\<lambda>m. m \<noteq> []) [drop (length bs) (concat down)]) else None)
     in case ev of
          Connect_arrives reply e \<Rightarrow> if at = Connect_reply then next_bytes reply else Some down
        | List_arrives chunks \<Rightarrow>
            if at = List_reply then (case list_read chunks of None \<Rightarrow> None | Some bs \<Rightarrow> next_bytes bs) else Some down
        | _ \<Rightarrow> Some down)"

definition acts_with ::
    "(event \<Rightarrow> main_pc \<Rightarrow> char list list \<Rightarrow> char list list option) \<Rightarrow> event \<Rightarrow> link \<Rightarrow> link" where
  "acts_with taking ev lk =
    (case l_program lk of
       Running s \<Rightarrow>
         (case taking ev (main_at s) (l_down lk) of
            None \<Rightarrow> lk
          | Some down \<Rightarrow>
              (case client_step (l_name lk) ev s of
                 Inl e \<Rightarrow> lk\<lparr>l_program := Ended (Some e), l_down := down\<rparr>
               | Inr (s', os) \<Rightarrow> lk\<lparr>l_program := Running s', l_up := l_up lk @ to_server os, l_down := down\<rparr>))
     | _ \<Rightarrow> lk)"

definition acts :: "event \<Rightarrow> link \<Rightarrow> link" where
  "acts ev lk = acts_with takes ev lk"

section \<open>The server's side\<close>

definition sent_bytes :: "action list \<Rightarrow> char list list" where
  "sent_bytes out = concat (map (\<lambda>a. case a of Send b \<Rightarrow> [b] | CloseFd \<Rightarrow> []) out)"

text \<open>The server's thread for connection \<open>i\<close> handles the bytes of a read, and \<open>ms\<close> are still to be read.\<close>

definition server_takes :: "nat \<Rightarrow> char list \<Rightarrow> char list list \<Rightarrow> chat \<Rightarrow> chat res" where
  "server_takes i m ms c =
    res_bind (handle (l_peer (links c ! i)) m (srv c)) (\<lambda>(s', out, goes_on).
      Ok (at_link i (\<lambda>lk. lk\<lparr>l_up := ms, l_down := l_down lk @ sent_bytes out, l_served := goes_on,
              l_holds := (if goes_on then l_holds lk \<or> length (names (srv c)) < length (names s') else False)\<rparr>)
            (c\<lparr>srv := s'\<rparr>)))"

text \<open>
  The thread reads: the next message; the end of the connection when the client has ended and everything
  it sent is read.
\<close>

definition server_reads :: "nat \<Rightarrow> chat \<Rightarrow> chat res" where
  "server_reads i c =
    (if \<not> (i < length (links c)) then Ok c
     else let lk = links c ! i
          in if \<not> l_served lk then Ok c
             else (case l_up lk of
                 [] \<Rightarrow> Ok (if has_ended (l_program lk) then at_link i (l_served_update (\<lambda>_. False)) c else c)
               | m # ms \<Rightarrow> server_takes i m ms c))"

text \<open>Messages that have all arrived may come in one read, as far as the buffer holds them.\<close>

definition server_reads_several :: "nat \<Rightarrow> nat \<Rightarrow> chat \<Rightarrow> chat res" where
  "server_reads_several i k c =
    (if \<not> (i < length (links c)) then Ok c
     else let lk = links c ! i
          in if \<not> l_served lk then Ok c
             else (case l_up lk of
                 [] \<Rightarrow> Ok c
               | m # ms \<Rightarrow>
                   if length ms < k \<or> SERVER_BUFF_SIZE < length (m @ concat (take k ms)) then Ok c
                   else server_takes i (m @ concat (take k ms)) (drop k ms) c))"

definition chat_step :: "chat_event \<Rightarrow> chat \<Rightarrow> chat res" where
  "chat_step ev c =
    (case ev of
       Opens n a \<Rightarrow> Ok (opens n a c)
     | Reads_join i \<Rightarrow> Ok (at_link i reads_join c)
     | Join_fails i \<Rightarrow> Ok (at_link i join_fails c)
     | Acts i ev \<Rightarrow> Ok (at_link i (acts ev) c)
     | Reads_part i ev \<Rightarrow> Ok (at_link i (acts_with takes_part ev) c)
     | Leaves i \<Rightarrow> Ok (at_link i (l_program_update (\<lambda>_. Ended None)) c)
     | Server_reads i \<Rightarrow> server_reads i c
     | Server_reads_several i k \<Rightarrow> server_reads_several i k c)"

fun chat_run :: "chat_event list \<Rightarrow> chat \<Rightarrow> chat res" where
  "chat_run [] c = Ok c"
| "chat_run (ev # evs) c = res_bind (chat_step ev c) (chat_run evs)"

text \<open>
  Names the client's argument check admits, but for the empty one; addresses; lines of at most 1000
  characters; ports of the system.  \<open>chat_event_ok\<close> has every message and every answer read as it was
  written, \<open>chat_event_loose\<close> has not: an answer may be read in part, or not at all, also that to a
  join request, and the server may read several messages at once.
\<close>

definition chat_event_ok :: "chat_event \<Rightarrow> bool" where
  "chat_event_ok ev \<longleftrightarrow>
    (case ev of
       Opens n a \<Rightarrow> name_ok n \<and> addr_ok a
     | Join_fails i \<Rightarrow> False
     | Acts i ev \<Rightarrow> event_ok ev \<and> (\<forall>t e. ev = Line (Some t) e \<longrightarrow> length t \<le> 1000)
     | Reads_part i ev \<Rightarrow> False
     | Server_reads_several i k \<Rightarrow> False
     | _ \<Rightarrow> True)"

definition chat_event_loose :: "chat_event \<Rightarrow> bool" where
  "chat_event_loose ev \<longleftrightarrow> 
    (case ev of
       Reads_part i e \<Rightarrow> chat_event_ok (Acts i e)
     | Join_fails i \<Rightarrow> True
     | Server_reads_several i k \<Rightarrow> True
     | _ \<Rightarrow> chat_event_ok ev)"

lemma chat_event_loose: "chat_event_ok ev \<Longrightarrow> chat_event_loose ev"
  by (cases ev) (simp_all add: chat_event_loose_def chat_event_ok_def)

section \<open>Messages and the commands they carry\<close>

definition carries :: "command \<Rightarrow> char list \<Rightarrow> bool" where
  "carries cmd m \<longleftrightarrow> cstr (zbuf SERVER_BUFF_SIZE m) = Ok (command_text cmd) \<and> NUL \<in> set m"

lemma carriesD:
  "carries cmd m \<Longrightarrow> cstr (zbuf SERVER_BUFF_SIZE m) = Ok (command_text cmd)" "carries cmd m \<Longrightarrow> NUL \<in> set m"
  by (simp_all add: carries_def)

definition asks :: "command \<Rightarrow> bool" where
  "asks cmd \<longleftrightarrow> (case cmd of Connect n p \<Rightarrow> True | Listing n \<Rightarrow> True | _ \<Rightarrow> False)"

definition peer_answer :: "(client_t \<Rightarrow> bool) \<Rightarrow> char list \<Rightarrow> bool" where
  "peer_answer G b \<longleftrightarrow> b = with_nul ''c::'' \<or> (\<exists>c. G c \<and> entry_ok c \<and> b = zbuf SERVER_BUFF_SIZE (peer_text c))"

definition list_answer :: "(client_t \<Rightarrow> bool) \<Rightarrow> char list \<Rightarrow> bool" where
  "list_answer G b \<longleftrightarrow> (\<exists>cs. (\<forall>c \<in> set cs. G c \<and> entry_ok c) \<and> b = list_reply cs)"

lemma answer_mono:
  assumes "\<And>c. G c \<Longrightarrow> H c"
  shows "peer_answer G b \<Longrightarrow> peer_answer H b" "list_answer G b \<Longrightarrow> list_answer H b"
  using assms unfolding peer_answer_def list_answer_def by blast+

lemma client_command_ok:
  "client_command n cmd \<Longrightarrow> name_ok n \<Longrightarrow> (\<forall>p. cmd \<noteq> Connect n p) \<Longrightarrow> command_ok cmd \<and> sender cmd = n"
  by (cases cmd) (auto simp: client_command_def)

lemma command_carried:
  assumes "client_command n cmd" "name_ok n" "command_bytes cmd = Ok m" "length m \<le> SERVER_BUFF_SIZE"
  shows "carries cmd m"
proof (cases "\<exists>p. cmd = Connect n p")
  case True
  then obtain p where p: "cmd = Connect n p" "no_nul p" using assms(1) by (auto simp: client_command_def)
  have m: "m = with_nul (command_text cmd)"
    using assms(3) p by (auto simp: format_cmds wire_def zbuf_def with_nul_def)
  moreover have "length (command_text cmd) < SERVER_BUFF_SIZE" using assms(4) by (simp add: m with_nul_def)
  moreover have "no_nul (command_text cmd)" using assms(2) p by (simp add: name_ok_def)
  moreover have "NUL \<in> set m" by (simp add: m with_nul_def)
  ultimately show ?thesis by (simp add: carries_def cstr_with_nul)
next
  case False
  then have ok: "command_ok cmd" using client_command_ok [OF assms(1,2)] by simp
  with command_arrives [OF ok assms(3)] command_bytes_text [OF ok] assms(3) show ?thesis
    by (simp add: carries_def with_nul_def)
qed

lemma join_carried:
  assumes "name_ok n" "check_name_conflict n [] = Ok (sent, r)"
  shows "carries (Join n) sent"
proof -
  have "sent = zbuf BUFFER_SIZE (''a:'' @ n @ '':'')"
    using assms(2) by (auto simp: check_name_conflict_def res_simps cstore_Ok_iff)
  moreover have "no_nul (''a:'' @ n @ '':'')" "length (''a:'' @ n @ '':'') < BUFFER_SIZE"
    using assms(1) by (simp_all add: name_ok_def CLIENT_NAME_LENGTH_def BUFFER_SIZE_def)
  ultimately show ?thesis
    by (simp add: carries_def cstr_zbuf_string BUFFER_SIZE_def SERVER_BUFF_SIZE_def) (simp add: zbuf_def)
qed

end
