(* ===== verification/Pro_Chat_Spec.thy ===== *)
theory Pro_Chat_Spec
  imports Pro_Chat
begin

text \<open>
  What holds in every state of the chat system of \<open>Pro_Chat\<close>: the names, the addresses in transit,
  the requests and their answers, and when the server stops.
\<close>

section \<open>One message at the server\<close>

text \<open>What the server does with a message of a client named \<open>n\<close>, by the command it carries.\<close>

definition message_effect :: "string \<Rightarrow> command \<Rightarrow> server \<Rightarrow> server \<Rightarrow> char list list \<Rightarrow> bool \<Rightarrow> bool" where
  "message_effect n cmd s s' bs goes_on \<longleftrightarrow>
    (case cmd of
       Join _ \<Rightarrow>
         if n \<in> set (names s) then set (names s') = set (names s) \<and> bs = [with_nul CMD_REJECTION_JOIN] \<and> \<not> goes_on
         else set (names s') = insert n (set (names s)) \<and> bs = [with_nul CMD_CONFIRM_JOIN] \<and> goes_on
     | Quit _ \<Rightarrow> set (names s') = set (names s) - {n} \<and> bs = [] \<and> \<not> goes_on
     | Connect _ _ \<Rightarrow> set (names s') = set (names s) \<and> (\<exists>b. bs = [b] \<and> peer_answer (\<lambda>c. c \<in> set (waiting s)) b) \<and> goes_on
     | Listing _ \<Rightarrow> set (names s') = set (names s) \<and> (\<exists>b. bs = [b] \<and> list_answer (\<lambda>c. c \<in> set (waiting s)) b) \<and> goes_on
     | _ \<Rightarrow> set (names s') = set (names s) \<and> bs = [] \<and> goes_on)"

lemma sent_bytes_simps [simp]:
  "sent_bytes [] = []" "sent_bytes (Send b # out) = b # sent_bytes out" "sent_bytes (CloseFd # out) = sent_bytes out"
  by (simp_all add: sent_bytes_def)

text \<open>Connecting, whatever peer the message names.\<close>

lemma connect_effect:
  assumes "server_ok s" "on_connect u s = Ok (s', out, k)"
  shows "names s' = names s \<and> set (waiting s') \<subseteq> set (waiting s)
    \<and> (\<exists>b. out = [Send b] \<and> peer_answer (\<lambda>c. c \<in> set (waiting s)) b) \<and> k"
proof (cases "fst (strtok '':'' (snd (strtok '':'' u)))")
  case None
  with on_connect_NULL [OF assms(1) None] assms(2) show ?thesis by (auto simp: peer_answer_def split: if_splits)
next
  case (Some p)
  show ?thesis
  proof (cases "p \<in> client ` set (waiting s)")
    case False
    with on_connect_absent [OF assms(1) Some] assms(2) show ?thesis by (auto simp: peer_answer_def)
  next
    case True
    then obtain ys c zs where w: "waiting s = ys @ c # zs" "client c = p" "p \<notin> client ` set ys"
      by (rule client_split)
    have "entry_ok c" using server_okD(3) [OF assms(1)] w(1) by simp
    then have "peer_answer (\<lambda>c. c \<in> set (waiting s)) (zbuf SERVER_BUFF_SIZE (peer_text c))"
      using w(1) by (auto simp: peer_answer_def)
    with on_connect_present [OF assms(1) Some w] assms(2) w(1) show ?thesis
      by (auto simp: names_def waiting_def)
  qed
qed

lemma find_entry_in: "find_entry n xs = Some c \<Longrightarrow> c \<in> set xs"
  by (induction xs) (auto split: if_splits)

lemma simple_effect:
  assumes "server_ok s" "distinct (names s)" "addr_ok peer" "command_ok cmd" "\<forall>n p. cmd \<noteq> Connect n p"
    and "carries cmd m" "handle peer m s = Ok (s', out, k)"
  shows "message_effect (sender cmd) cmd s s' (sent_bytes out) k
    \<and> (\<forall>c \<in> set (waiting s'). c \<in> set (waiting s) \<or> client c = sender cmd \<and> ip c = peer)"
proof -
  note m = carriesD(1) [OF assms(6)]
  have room: "\<not> list_overflow 1024 2 (waiting s)" if "cmd = Listing n" for n
    using on_list_stops [OF assms(1)] handle_command [OF m] assms(7) that by auto
  obtain s1 where s1: "handle peer m s = Ok (s1, answer_actions (snd (registry_step peer cmd (registry_of s))))"
    "registry_of s1 = fst (registry_step peer cmd (registry_of s))" "server_ok s1" "distinct (names s1)"
    using handle_simulates [OF assms(1-4) room m] by blast
  have s': "s' = s1" "out = fst (answer_actions (snd (registry_step peer cmd (registry_of s))))"
    "k = snd (answer_actions (snd (registry_step peer cmd (registry_of s))))"
    using s1(1) assms(7) by (cases "answer_actions (snd (registry_step peer cmd (registry_of s)))"; simp)+
  have waiting_ok: "entry_ok c" if "c \<in> set (waiting s)" for c using server_okD(3) [OF assms(1)] that by simp
  show ?thesis
    using s1(2) s' assms(5) waiting_ok
    by (cases cmd)
      (auto simp: message_effect_def registry_of_def list_answer_def dest!: subsetD [OF remove_entry_set])
qed

text \<open>The messages a client of the name \<open>n\<close> sends.\<close>

definition own_command :: "string \<Rightarrow> command \<Rightarrow> bool" where
  "own_command n cmd \<longleftrightarrow> cmd = Join n \<or> client_command n cmd"

lemma own_command_cases:
  assumes "own_command n cmd" "name_ok n"
  obtains p where "cmd = Connect n p" "p \<noteq> []" "no_nul p" | "command_ok cmd" "sender cmd = n" "\<forall>n p. cmd \<noteq> Connect n p"
  using assms that
  by (cases cmd) (auto simp: own_command_def client_command_def)

lemma handle_effect:
  assumes "server_ok s" "distinct (names s)" "addr_ok peer" "name_ok n" "own_command n cmd"
    and "carries cmd m" "handle peer m s = Ok (s', out, k)"
  shows "message_effect n cmd s s' (sent_bytes out) k \<and> server_ok s' \<and> distinct (names s')
    \<and> (\<forall>c \<in> set (waiting s'). c \<in> set (waiting s) \<or> client c = n \<and> ip c = peer)"
proof -
  have keeps: "server_ok s' \<and> distinct (names s')" by (rule handle_keeps [OF assms(1,3,2,7)])
  from assms(5,4) show ?thesis
  proof (cases rule: own_command_cases)
    case (1 p)
    have "on_connect (command_rest (Connect n p)) s = Ok (s', out, k)"
      using handle_command [OF carriesD(1) [OF assms(6)]] assms(7) 1(1) by simp
    from connect_effect [OF assms(1) this] keeps 1(1) show ?thesis by (auto simp: message_effect_def)
  next
    case 2
    with simple_effect [OF assms(1-3) 2(1,3) assms(6,7)] keeps show ?thesis by simp
  qed
qed

text \<open>When such a message stops the server.\<close>

definition fatal :: "string \<Rightarrow> command \<Rightarrow> server \<Rightarrow> bool" where
  "fatal n cmd s \<longleftrightarrow> (\<exists>p. cmd = Connect n p \<and> set p \<subseteq> {CHR '':''}) \<and> waiting s \<noteq> []
    \<or> cmd = Listing n \<and> list_overflow 1024 2 (waiting s)"

lemma handle_fatal:
  assumes "server_ok s" "addr_ok peer" "name_ok n" "own_command n cmd" "carries cmd m"
  shows "(\<exists>e. handle peer m s = Inl e) \<longleftrightarrow> fatal n cmd s"
proof -
  have stops: "(\<exists>e. handle peer m s = Inl e) \<longleftrightarrow> stops_server (command_text cmd) s"
    by (rule handle_stops [OF assms(1,2) carriesD(1) [OF assms(5)]])
  have names: "name_ok x \<Longrightarrow> fst (strtok '':'' (x @ '':'')) = Some x" for x
    by (simp add: name_token name_ok_def)
  have port: "fst (strtok '':'' (show_int p @ '':'')) = Some (show_int p)" for p
    using show_int_clean [of p] by (simp add: name_token)
  from assms(4,3) show ?thesis
  proof (cases rule: own_command_cases)
    case (1 p)
    then have "stops_server (command_text cmd) s \<longleftrightarrow> fst (strtok '':'' (p @ '':'')) = None \<and> waiting s \<noteq> []"
      using assms(3) by (simp add: stops_server_def letter_token name_token name_ok_def cmd_defs)
    with stops 1(1) show ?thesis by (auto simp: fatal_def strtok_None_iff)
  next
    case 2
    with stops names port show ?thesis
      by (cases cmd) (simp_all add: fatal_def stops_server_def letter_token name_token name_ok_def handler_defs)
  qed
qed

section \<open>One step of a client\<close>

text \<open>How the main thread of a client moves when it sends the commands \<open>cmds\<close>.\<close>

definition main_moves :: "string \<Rightarrow> event \<Rightarrow> main_pc \<Rightarrow> command list \<Rightarrow> main_pc \<Rightarrow> bool" where
  "main_moves n ev m cmds m' \<longleftrightarrow>
    (case ev of
       Line inp e \<Rightarrow>
         (if m = Prompt
          then m' = Prompt \<and> filter asks cmds = [] \<and> Quit n \<notin> set cmds
            \<or> m' = Connect_reply \<and> (\<exists>p. cmds = [Connect n p])
            \<or> m' = List_reply \<and> cmds = [Listing n]
            \<or> m' = Returned \<and> cmds = [Quit n]
          else m' = m \<and> cmds = [])
     | List_arrives chunks \<Rightarrow> cmds = [] \<and> m' = (if m = List_reply \<and> process_waiting_list chunks \<noteq> Ok None then Prompt else m)
     | Connect_arrives reply e \<Rightarrow> cmds = [] \<and> m' = (if m = Connect_reply then Prompt else m)
     | Interrupt \<Rightarrow> m' = m \<and> filter asks cmds = [] \<and> Quit n \<notin> set cmds \<and> (m = Returned \<longrightarrow> cmds = [])
     | _ \<Rightarrow> m' = m \<and> cmds = [])"

lemma to_server_simps [simp]:
  "to_server [] = []" "to_server (To_Server m # os) = m # to_server os" "to_server (Print t # os) = to_server os"
  "to_server (To_Peer fd b # os) = to_server os" "to_server (Connect_to a p # os) = to_server os"
  "to_server (Close_fd fd # os) = to_server os" "to_server (Shutdown_fd fd # os) = to_server os"
  "to_server (Close_server # os) = to_server os" "to_server (xs @ ys) = to_server xs @ to_server ys" "to_server (map Print ts) = []"
  by (auto simp: to_server_def)

lemma to_server_none: "\<forall>m. To_Server m \<notin> set os \<Longrightarrow> to_server os = []"
  by (auto simp: to_server_def split: out.splits)

lemma connect_quiet:
  assumes "connect_after_process reply e s = Ok (s', os)"
  shows "main_at s' = main_at s \<and> to_server os = []"
  using assms
  by (rule connect_after_process_result) (auto simp: connect_peer_Ok_iff to_server_none)

text \<open>The messages of a line of bounded length.\<close>

lemma sent_short:
  assumes "client_command n cmd" "name_ok n" "command_bytes cmd = Ok m"
    and "\<forall>p. cmd = Connect n p \<longrightarrow> length p \<le> 1000"
  shows "carries cmd m"
proof (cases "\<exists>p. cmd = Connect n p")
  case True
  then obtain p where p: "cmd = Connect n p" "length p \<le> 1000" using assms(4) by blast
  then have "m = with_nul (command_text cmd)" using assms(3) by (auto simp: format_cmds wire_def zbuf_def with_nul_def)
  then have "length m \<le> SERVER_BUFF_SIZE"
    using p assms(2) by (simp add: with_nul_def name_ok_def handler_defs)
  with command_carried [OF assms(1-3)] show ?thesis by blast
next
  case False
  then have ok: "command_ok cmd" using client_command_ok [OF assms(1,2)] by simp
  with command_arrives [OF ok assms(3)] command_bytes_text [OF ok] assms(3) show ?thesis
    by (simp add: carries_def with_nul_def)
qed

lemma carried_one: "carries cmd m \<Longrightarrow> list_all2 carries [cmd] [m]"
  by simp

lemma line_moves:
  assumes "process_line n (Some t) e s = Ok (s', os)" "main_at s = Prompt" "name_ok n" "no_nul t" "length t \<le> 1000"
    and "0 \<le> w_port e" "w_port e < 65536"
  shows "\<exists>cmds. list_all2 carries cmds (to_server os) \<and> (\<forall>cmd \<in> set cmds. client_command n cmd)
    \<and> main_moves n (Line (Some t) e) Prompt cmds (main_at s')"
  using assms(1)
proof (cases rule: process_line_cases)
  case (1 t')
  then have "s' = s" "\<forall>m. To_Server m \<notin> set os" using talk_line_result by blast+
  then show ?thesis using assms(2) to_server_none [of os] by (intro exI [of _ "[]"]) (simp add: main_moves_def)
next
  case (2 t' cmd rest)
  have rest: "no_nul rest" "length rest \<le> 1000"
    using 2(1,2) assms(4,5) strtok_rest_no_nul strtok_rest_length [of "'' ''" t' "Some cmd" rest] by (blast, simp)
  have one: ?thesis if "to_server os = [m]" "command_bytes c = Ok m" "client_command n c"
      "\<forall>p. c = Connect n p \<longrightarrow> length p \<le> 1000"
      "main_moves n (Line (Some t) e) Prompt [c] (main_at s')" for m c
    using that sent_short [OF that(3) assms(3) that(2,4)] by (intro exI [of _ "[c]"]) simp
  have none: ?thesis if "to_server os = []" "main_at s' = Prompt"
    using that by (intro exI [of _ "[]"]) (simp add: main_moves_def)
  from 2(3) consider (same) "s' = s" "\<exists>x. os = [Print x]" | (wait) "wait_command n e s = Ok (s', os)"
    | (list) "list_command n s = Ok (s', os)" | (connect) "connect_command n rest s = Ok (s', os)"
    | (quit) "quit_command n s = Ok (s', os)"
    by (auto simp: process_command_def split: if_splits)
  then show ?thesis
  proof cases
    case same
    then show ?thesis using assms(2) none by auto
  next
    case wait
    then obtain s1 p b where w: "wait_pre_process e s = Ok (s1, p)" "format_wait_cmd n p = Ok b"
      "s' = s1" "os = [To_Server (wire b)]" by (auto simp: wait_command_def res_simps)
    then have "p = w_port e" "main_at s' = Prompt" using assms(2) by (auto simp: wait_pre_process_Ok_iff)
    with w assms(6,7) one [of "wire b" "Wait n p"] show ?thesis
      by (simp add: client_command_def main_moves_def asks_def)
  next
    case list
    then obtain b where "format_list_cmd n = Ok b" "s' = s\<lparr>main_at := List_reply\<rparr>" "os = [To_Server (wire b)]"
      by (auto simp: list_command_def res_simps)
    with one [of "wire b" "Listing n"] show ?thesis by (simp add: client_command_def main_moves_def asks_def)
  next
    case connect
    show ?thesis
    proof (cases "rest = [] \<or> rest = n")
      case True
      with connect assms(2) none show ?thesis by (auto simp: connect_command_def strtok_none split: if_splits)
    next
      case False
      with connect obtain b where "format_connect_cmd n rest = Ok b" "s' = s\<lparr>main_at := Connect_reply\<rparr>"
        "os = [To_Server (wire b)]" by (auto simp: connect_command_def strtok_none res_simps)
      with one [of "wire b" "Connect n rest"] rest False show ?thesis
        by (simp add: client_command_def main_moves_def asks_def)
    qed
  next
    case quit
    then obtain b where "format_quit_cmd n = Ok b" "main_at s' = Returned" "to_server os = [wire b]"
      by (auto simp: quit_command_def res_simps)
    with one [of "wire b" "Quit n"] show ?thesis by (simp add: client_command_def main_moves_def asks_def)
  qed
qed

lemma client_step_moves:
  assumes "client_step n ev s = Ok (s', os)" "event_ok ev" "\<forall>t e. ev = Line (Some t) e \<longrightarrow> length t \<le> 1000" "name_ok n"
  shows "\<exists>cmds. list_all2 carries cmds (to_server os) \<and> (\<forall>cmd \<in> set cmds. client_command n cmd)
    \<and> main_moves n ev (main_at s) cmds (main_at s')"
proof -
  have none: ?thesis if "to_server os = []" "main_moves n ev (main_at s) [] (main_at s')"
    using that by (intro exI [of _ "[]"]) simp
  show ?thesis
  proof (cases ev)
    case (Line inp e)
    show ?thesis
    proof (cases "main_at s = Prompt")
      case True
      with assms(1) Line have l: "process_line n inp e s = Ok (s', os)" by (simp add: client_step_def)
      then obtain t where t: "inp = Some t" by (cases inp) (auto simp: process_line_def)
      from line_moves [OF l [unfolded t] True assms(4)] assms(2,3) Line t True show ?thesis
        by (simp add: event_ok_def)
    next
      case False
      with assms(1) Line none show ?thesis by (simp add: client_step_def main_moves_def)
    qed
  next
    case Interrupt
    show ?thesis
    proof (cases "main_at s \<noteq> Returned \<and> my_state s = CLIENT_STATE_WAITING")
      case True
      let ?m = "with_nul (command_text (LeaveWait n))"
      have m: "to_server os = [?m]" "main_at s' = main_at s"
        using True assms(1) Interrupt by (simp_all add: client_step_def INThandler_Ok_iff)
      have c: "client_command n (LeaveWait n)" "command_bytes (LeaveWait n) = Ok ?m"
        by (simp_all add: client_command_def format_cmds wire_def zbuf_def with_nul_def)
      from sent_short [OF c(1) assms(4) c(2)] m c(1) True Interrupt show ?thesis
        by (intro exI [of _ "[LeaveWait n]"]) (simp add: main_moves_def asks_def)
    next
      case False
      with assms(1) Interrupt have "to_server os = []" "main_at s' = main_at s"
        by (auto simp: client_step_def INThandler_Ok_iff split: if_splits)
      with none Interrupt show ?thesis by (simp add: main_moves_def)
    qed
  next
    case (Connect_arrives reply e)
    with assms(1) none connect_quiet show ?thesis
      by (auto simp: client_step_def res_simps main_moves_def split: if_splits)
  next
    case (List_arrives chunks)
    show ?thesis
    proof (cases "main_at s = List_reply")
      case True
      with List_arrives assms(1) obtain shown where "process_waiting_list chunks = Ok shown"
        "(s', os) = (case shown of None \<Rightarrow> (s, []) | Some text \<Rightarrow> (s\<lparr>main_at := Prompt\<rparr>, map Print text))"
        by (auto simp: client_step_def res_simps)
      with True List_arrives none show ?thesis by (cases shown) (simp_all add: main_moves_def)
    next
      case False
      with List_arrives assms(1) none show ?thesis by (simp add: client_step_def main_moves_def)
    qed
  next
    case (Listener_loops i)
    with assms(1) none show ?thesis
      by (auto simp: client_step_def listen_check_def main_moves_def split: if_splits)
  next
    case (Select_returns i ret fd r)
    with assms(1) none show ?thesis
      by (auto simp: client_step_def listen_select_def failHandler_def res_simps create_receive_thread_Ok_iff
          main_moves_def split: if_splits)
  next
    case (Peer_read i chunk)
    with assms(1) none show ?thesis
      by (auto simp: client_step_def peer_receive_def res_simps Let_def main_moves_def split: if_splits)
  qed
qed

section \<open>The invariant\<close>

text \<open>An entry of the table, or an address handed out, belongs to a client of the system.\<close>

definition genuine :: "link list \<Rightarrow> client_t \<Rightarrow> bool" where
  "genuine ls c \<longleftrightarrow> (\<exists>lk \<in> set ls. l_name lk = client c \<and> l_peer lk = ip c)"

text \<open>A client that has not left its loop has not said farewell.\<close>

definition in_order :: "string \<Rightarrow> main_pc \<Rightarrow> command list \<Rightarrow> bool" where
  "in_order n m cmds \<longleftrightarrow> (m \<noteq> Returned \<longrightarrow> Quit n \<notin> set cmds)"

text \<open>
  The main thread, the commands on their way to the server and the messages on their way back: a thread
  that waits for an answer has exactly one question or one answer under way, any other has none.
\<close>

definition in_sync :: "string \<Rightarrow> (client_t \<Rightarrow> bool) \<Rightarrow> main_pc \<Rightarrow> command list \<Rightarrow> char list list \<Rightarrow> bool" where
  "in_sync n G m cmds down \<longleftrightarrow>
    (case m of
       Prompt \<Rightarrow> Quit n \<notin> set cmds \<and> filter asks cmds = [] \<and> down = []
     | Connect_reply \<Rightarrow> Quit n \<notin> set cmds \<and>
         ((\<exists>p. filter asks cmds = [Connect n p]) \<and> down = []
          \<or> filter asks cmds = [] \<and> (\<exists>b. down = [b] \<and> peer_answer G b))
     | List_reply \<Rightarrow> Quit n \<notin> set cmds \<and>
         (filter asks cmds = [Listing n] \<and> down = []
          \<or> filter asks cmds = [] \<and> (\<exists>b. down = [b] \<and> list_answer G b))
     | Returned \<Rightarrow> filter asks cmds = [] \<and> down = [])"

text \<open>
  A connection of which the client may no longer read anything: it has ended, or it has gone on without
  the answer to its join request, which may then even be on its way to the server.
\<close>

definition unattended :: "string \<Rightarrow> bool \<Rightarrow> bool \<Rightarrow> command list \<Rightarrow> bool" where
  "unattended n serves holds cmds \<longleftrightarrow> (\<forall>cmd \<in> set cmds. own_command n cmd)
    \<and> (serves \<longrightarrow> holds \<and> Join n \<notin> set cmds \<or> \<not> holds \<and> (\<exists>cs. cmds = Join n # cs \<and> Join n \<notin> set cs))"

text \<open>
  Where messages and answers are read as they were written, which \<open>whole\<close> says, the two are in step;
  without that only the order of the commands is known.
\<close>

definition phase ::
    "bool \<Rightarrow> string \<Rightarrow> (client_t \<Rightarrow> bool) \<Rightarrow> program \<Rightarrow> bool \<Rightarrow> bool \<Rightarrow> bool \<Rightarrow> command list \<Rightarrow> char list list \<Rightarrow> bool" where
  "phase whole n G prog unanswered serves holds cmds down \<longleftrightarrow>
    (case prog of
       Joining \<Rightarrow> \<not> unanswered \<and>
         (serves \<and> \<not> holds \<and> cmds = [Join n] \<and> down = []
         \<or> \<not> serves \<and> \<not> holds \<and> cmds = [] \<and> down = [with_nul CMD_REJECTION_JOIN]
         \<or> serves \<and> holds \<and> cmds = [] \<and> down = [with_nul CMD_CONFIRM_JOIN])
     | Running s \<Rightarrow>
         if unanswered then \<not> whole \<and> unattended n serves holds cmds
         else (\<forall>cmd \<in> set cmds. client_command n cmd)
           \<and> (if holds then serves \<and> in_order n (main_at s) cmds \<and> (whole \<longrightarrow> in_sync n G (main_at s) cmds down)
               else \<not> serves \<and> main_at s = Returned)
     | Ended why \<Rightarrow> unattended n serves holds cmds)"

definition link_ok :: "bool \<Rightarrow> (client_t \<Rightarrow> bool) \<Rightarrow> link \<Rightarrow> bool" where
  "link_ok whole G lk \<longleftrightarrow> name_ok (l_name lk) \<and> addr_ok (l_peer lk)
    \<and> (\<exists>cmds. list_all2 carries cmds (l_up lk)
        \<and> phase whole (l_name lk) G (l_program lk) (l_unanswered lk) (l_served lk) (l_holds lk) cmds (l_down lk))"

definition holders :: "link list \<Rightarrow> nat set" where
  "holders ls = {i. i < length ls \<and> l_holds (ls ! i)}"

definition names_held :: "string set \<Rightarrow> link list \<Rightarrow> bool" where
  "names_held N ls \<longleftrightarrow> N = (\<lambda>i. l_name (ls ! i)) ` holders ls \<and> inj_on (\<lambda>i. l_name (ls ! i)) (holders ls)"

definition chat_ok :: "bool \<Rightarrow> chat \<Rightarrow> bool" where
  "chat_ok whole c \<longleftrightarrow> server_ok (srv c) \<and> distinct (names (srv c))
    \<and> (\<forall>w \<in> set (waiting (srv c)). genuine (links c) w)
    \<and> (\<forall>lk \<in> set (links c). link_ok whole (genuine (links c)) lk)
    \<and> names_held (set (names (srv c))) (links c)"

lemma phase_mono:
  assumes "\<And>c. G c \<Longrightarrow> H c"
  shows "phase whole n G prog u serves holds cmds down \<Longrightarrow> phase whole n H prog u serves holds cmds down"
  using answer_mono [of G H] assms
  by (auto simp: phase_def in_sync_def split: program.splits main_pc.splits if_splits)

lemma link_ok_mono: "(\<And>c. G c \<Longrightarrow> H c) \<Longrightarrow> link_ok whole G lk \<Longrightarrow> link_ok whole H lk"
  using phase_mono unfolding link_ok_def by blast

text \<open>Replacing a connection by one of the same name and address.\<close>

lemma genuine_update:
  assumes "i < length ls" "l_name lk = l_name (ls ! i)" "l_peer lk = l_peer (ls ! i)"
  shows "genuine (ls[i := lk]) = genuine ls"
proof -
  have "map (\<lambda>lk. (l_name lk, l_peer lk)) (ls[i := lk]) = map (\<lambda>lk. (l_name lk, l_peer lk)) ls"
    using assms by (simp add: map_update list_update_same_conv)
  then have "(\<lambda>lk. (l_name lk, l_peer lk)) ` set (ls[i := lk]) = (\<lambda>lk. (l_name lk, l_peer lk)) ` set ls"
    by (metis list.set_map)
  moreover have "genuine xs c \<longleftrightarrow> (client c, ip c) \<in> (\<lambda>lk. (l_name lk, l_peer lk)) ` set xs" for xs c
    by (simp add: genuine_def image_iff) metis
  ultimately show ?thesis by (intro ext) simp
qed

lemma names_after: "i < length ls \<Longrightarrow> l_name lk = l_name (ls ! i) \<Longrightarrow> l_name (ls[i := lk] ! j) = l_name (ls ! j)"
  by (cases "j = i") simp_all

lemma holders_after:
  "i < length ls \<Longrightarrow> holders (ls[i := lk]) = (if l_holds lk then insert i (holders ls) else holders ls - {i})"
  by (auto simp: holders_def nth_list_update)

lemma names_held_same:
  assumes "names_held N ls" "i < length ls" "l_name lk = l_name (ls ! i)" "l_holds lk = l_holds (ls ! i)"
  shows "names_held N (ls[i := lk])"
proof -
  have "holders (ls[i := lk]) = holders ls" using assms(2,4) holders_after [OF assms(2)] by (auto simp: holders_def)
  with assms(1) show ?thesis by (simp add: names_held_def names_after [OF assms(2,3)])
qed

lemma chat_ok_update:
  assumes "chat_ok whole c" "i < length (links c)" "l_name lk = l_name (links c ! i)" "l_peer lk = l_peer (links c ! i)"
    and "l_holds lk = l_holds (links c ! i)" "link_ok whole (genuine (links c)) lk"
  shows "chat_ok whole (c\<lparr>links := (links c)[i := lk]\<rparr>)"
proof -
  have "set ((links c)[i := lk]) \<subseteq> insert lk (set (links c))" by (rule set_update_subset_insert)
  with assms genuine_update [OF assms(2-4)] names_held_same [of _ "links c" i lk] show ?thesis
    by (auto simp: chat_ok_def)
qed

text \<open>Steps of one connection that keep its part of the invariant.\<close>

lemma at_link_ok:
  assumes "chat_ok whole c" "\<And>lk. link_ok whole (genuine (links c)) lk \<Longrightarrow> link_ok whole (genuine (links c)) (f lk)
      \<and> l_name (f lk) = l_name lk \<and> l_peer (f lk) = l_peer lk \<and> l_holds (f lk) = l_holds lk"
  shows "chat_ok whole (at_link i f c)"
proof (cases "i < length (links c)")
  case True
  then have "link_ok whole (genuine (links c)) (links c ! i)" using assms(1) by (simp add: chat_ok_def)
  from assms(2) [OF this] chat_ok_update [OF assms(1) True] True show ?thesis by (simp add: at_link_def)
next
  case False
  with assms(1) show ?thesis by (simp add: at_link_def)
qed

section \<open>Every step keeps the invariant\<close>

lemma client_not_join: "client_command n cmd \<Longrightarrow> cmd \<noteq> Join n"
  by (cases cmd) (auto simp: client_command_def)

lemma phase_ends: "phase whole n G prog u serves holds cmds down \<Longrightarrow> phase whole n G (Ended why) u' serves holds cmds down'"
  using client_not_join
  by (auto simp: phase_def unattended_def own_command_def split: program.splits if_splits)

lemma ends_ok: "link_ok whole G lk \<Longrightarrow> link_ok whole G (lk\<lparr>l_program := Ended why, l_down := down\<rparr>)"
  using phase_ends by (auto simp: link_ok_def)

lemma leaves_ok: "link_ok whole G lk \<Longrightarrow> link_ok whole G (lk\<lparr>l_program := Ended why\<rparr>)"
  using phase_ends by (auto simp: link_ok_def)

lemma start_of_join:
  assumes "name_ok n"
  shows "\<exists>sent. check_name_conflict n (with_nul CMD_CONFIRM_JOIN) = Ok (sent, 1)"
    "\<exists>sent. check_name_conflict n (with_nul CMD_REJECTION_JOIN) = Ok (sent, 0)"
    "ret \<noteq> 0 \<Longrightarrow> \<exists>s. start_client n ret = Ok s \<and> main_at s = Prompt"
    "\<exists>sent. check_name_conflict n [] = Ok (sent, - 1)"
proof -
  have fits: "no_nul n" "length n < 16" using assms by (simp_all add: name_ok_def CLIENT_NAME_LENGTH_def)
  then show "\<exists>sent. check_name_conflict n (with_nul CMD_CONFIRM_JOIN) = Ok (sent, 1)"
    "\<exists>sent. check_name_conflict n (with_nul CMD_REJECTION_JOIN) = Ok (sent, 0)"
    by (simp_all add: check_name_conflict_def cstore_def BUFFER_SIZE_def with_nul_def cmd_defs buf_is_def zbuf_def Let_def
        CMD_CONFIRM_JOIN_def CMD_REJECTION_JOIN_def)
  show "ret \<noteq> 0 \<Longrightarrow> \<exists>s. start_client n ret = Ok s \<and> main_at s = Prompt"
    using fits by (simp add: start_client_def cstore_def CLIENT_NAME_LENGTH_def)
  show "\<exists>sent. check_name_conflict n [] = Ok (sent, - 1)"
    using fits by (simp add: check_name_conflict_def cstore_def BUFFER_SIZE_def)
qed

lemma reads_join_ok:
  assumes "link_ok whole G lk"
  shows "link_ok whole G (reads_join lk)"
proof (cases "l_program lk = Joining \<and> l_down lk \<noteq> []")
  case True
  obtain cmds where n: "name_ok (l_name lk)" "addr_ok (l_peer lk)" "list_all2 carries cmds (l_up lk)"
    "phase whole (l_name lk) G Joining (l_unanswered lk) (l_served lk) (l_holds lk) cmds (l_down lk)"
    using assms True by (auto simp: link_ok_def)
  then have u: "\<not> l_unanswered lk" by (simp add: phase_def)
  from n(4) consider
      (refused) "\<not> l_served lk" "\<not> l_holds lk" "cmds = []" "l_down lk = [with_nul CMD_REJECTION_JOIN]"
    | (confirmed) "l_served lk" "l_holds lk" "cmds = []" "l_down lk = [with_nul CMD_CONFIRM_JOIN]"
    using True by (auto simp: phase_def)
  then show ?thesis
  proof cases
    case refused
    obtain sent where sent: "check_name_conflict (l_name lk) (with_nul CMD_REJECTION_JOIN) = Ok (sent, 0)"
      using start_of_join(2) [OF n(1)] by blast
    have "start_client (l_name lk) 0 = failHandler ''User name conflict! Exiting...''" by (simp add: start_client_def)
    with refused True n sent show ?thesis
      by (auto simp: reads_join_def joined_def link_ok_def phase_def unattended_def failHandler_def)
  next
    case confirmed
    obtain sent where sent: "check_name_conflict (l_name lk) (with_nul CMD_CONFIRM_JOIN) = Ok (sent, 1)"
      using start_of_join(1) [OF n(1)] by blast
    obtain s where s: "start_client (l_name lk) 1 = Ok s" "main_at s = Prompt" using start_of_join(3) [OF n(1), of 1] by auto
    with confirmed True n sent u show ?thesis
      by (auto simp: reads_join_def joined_def link_ok_def phase_def in_sync_def in_order_def)
  qed
next
  case False
  then have "reads_join lk = lk" by (auto simp: reads_join_def split: program.splits list.splits)
  with assms show ?thesis by simp
qed

lemma reads_join_frame:
  "l_name (reads_join lk) = l_name lk \<and> l_peer (reads_join lk) = l_peer lk \<and> l_holds (reads_join lk) = l_holds lk"
  by (auto simp: reads_join_def split: program.splits list.splits)

text \<open>A client that goes on without the answer.\<close>

lemma join_fails_ok:
  assumes "link_ok False G lk"
  shows "link_ok False G (join_fails lk)"
proof (cases "l_program lk = Joining")
  case True
  obtain cmds where n: "name_ok (l_name lk)" "addr_ok (l_peer lk)" "list_all2 carries cmds (l_up lk)"
    "phase False (l_name lk) G Joining (l_unanswered lk) (l_served lk) (l_holds lk) cmds (l_down lk)"
    using assms True by (auto simp: link_ok_def)
  obtain sent where sent: "check_name_conflict (l_name lk) [] = Ok (sent, - 1)" using start_of_join(4) [OF n(1)] by blast
  obtain s where "start_client (l_name lk) (- 1) = Ok s" using start_of_join(3) [OF n(1), of "- 1"] by auto
  with True n sent show ?thesis
    by (auto simp: join_fails_def joined_def link_ok_def phase_def unattended_def own_command_def)
next
  case False
  then have "join_fails lk = lk" by (simp add: join_fails_def split: program.splits)
  with assms show ?thesis by simp
qed

lemma join_fails_frame:
  "l_name (join_fails lk) = l_name lk \<and> l_peer (join_fails lk) = l_peer lk \<and> l_holds (join_fails lk) = l_holds lk"
  by (auto simp: join_fails_def split: program.splits)

lemma sync_moves:
  assumes "in_sync n G m cmds down" "main_moves n ev m cmds' m'" "takes ev m down = Some down'"
  shows "in_sync n G m' (cmds @ cmds') down'"
proof (cases ev)
  case (Line inp e)
  show ?thesis
  proof (cases "m = Prompt")
    case True
    with assms Line show ?thesis by (auto simp: in_sync_def main_moves_def takes_def asks_def)
  next
    case False
    with assms Line show ?thesis by (simp add: main_moves_def takes_def)
  qed
next
  case Interrupt
  with assms show ?thesis by (cases m) (auto simp: in_sync_def main_moves_def takes_def)
next
  case (Connect_arrives reply e)
  with assms show ?thesis
    by (cases m) (auto simp: in_sync_def main_moves_def takes_def split: list.splits if_splits)
next
  case (List_arrives chunks)
  with assms show ?thesis
    by (cases m) (auto simp: in_sync_def main_moves_def takes_def list_read_def split: list.splits if_splits)
qed (use assms in \<open>auto simp: main_moves_def takes_def\<close>)

lemma order_moves: "in_order n m cmds \<Longrightarrow> main_moves n ev m cmds' m' \<Longrightarrow> in_order n m' (cmds @ cmds')"
  by (cases m) (auto simp: in_order_def main_moves_def split: event.splits if_splits)

lemma returned_moves:
  "main_moves n ev Returned cmds m' \<Longrightarrow> m' = Returned \<and> cmds = []"
  by (auto simp: main_moves_def split: event.splits)

lemma acts_ok:
  assumes "link_ok whole G lk" "event_ok ev" "\<forall>t e. ev = Line (Some t) e \<longrightarrow> length t \<le> 1000"
    and "whole \<longrightarrow> taking = takes"
  shows "link_ok whole G (acts_with taking ev lk)"
proof (cases "l_program lk")
  case (Running s)
  let ?n = "l_name lk"
  obtain cmds where n: "name_ok ?n" "addr_ok (l_peer lk)" "list_all2 carries cmds (l_up lk)"
    "phase whole ?n G (Running s) (l_unanswered lk) (l_served lk) (l_holds lk) cmds (l_down lk)"
    using assms(1) Running by (auto simp: link_ok_def)
  show ?thesis
  proof (cases "taking ev (main_at s) (l_down lk)")
    case None
    with assms(1) Running show ?thesis by (simp add: acts_with_def)
  next
    case (Some down)
    show ?thesis
    proof (cases "client_step ?n ev s")
      case (Inl e)
      with Some Running ends_ok [OF assms(1)] show ?thesis by (simp add: acts_with_def)
    next
      case (Inr r)
      obtain s' os where r: "client_step ?n ev s = Ok (s', os)" using Inr by (cases r) auto
      obtain cmds' where c: "list_all2 carries cmds' (to_server os)" "\<forall>cmd \<in> set cmds'. client_command ?n cmd"
        "main_moves ?n ev (main_at s) cmds' (main_at s')"
        using client_step_moves [OF r assms(2,3) n(1)] by blast
      have "phase whole ?n G (Running s') (l_unanswered lk) (l_served lk) (l_holds lk) (cmds @ cmds') down"
      proof (cases "l_unanswered lk")
        case True
        have "Join ?n \<notin> set cmds'" using c(2) client_not_join by blast
        with True n(4) c(2) show ?thesis by (auto simp: phase_def unattended_def own_command_def)
      next
        case waits: False
        show ?thesis
        proof (cases "l_holds lk")
          case True
          with waits n(4) c assms(4) Some order_moves [OF _ c(3)] sync_moves [OF _ c(3)] show ?thesis by (auto simp: phase_def)
        next
          case False
          with waits n(4) c returned_moves [of ?n ev cmds' "main_at s'"] show ?thesis by (auto simp: phase_def)
        qed
      qed
      with n(1-3) c(1) list_all2_appendI [OF n(3) c(1)] Some r Running show ?thesis
        by (auto simp: acts_with_def link_ok_def)
    qed
  qed
qed (use assms in \<open>simp_all add: acts_with_def\<close>)

lemma acts_frame:
  "l_name (acts_with taking ev lk) = l_name lk \<and> l_peer (acts_with taking ev lk) = l_peer lk
    \<and> l_holds (acts_with taking ev lk) = l_holds lk"
  by (auto simp: acts_with_def split: program.splits option.splits sum.splits)

lemma acts_at_ok:
  assumes "chat_ok whole c" "chat_event_ok (Acts i ev)" "whole \<longrightarrow> taking = takes"
  shows "chat_ok whole (at_link i (acts_with taking ev) c)"
  using acts_ok acts_frame assms by (intro at_link_ok) (auto simp: chat_event_ok_def)

lemma genuine_mono: "genuine ls w \<Longrightarrow> genuine (ls @ [lk]) w"
  by (auto simp: genuine_def)

lemma names_held_new:
  assumes "names_held N ls" "\<not> l_holds lk"
  shows "names_held N (ls @ [lk])"
proof -
  have "holders (ls @ [lk]) = holders ls" using assms(2) by (auto simp: holders_def nth_append)
  moreover have "l_name ((ls @ [lk]) ! j) = l_name (ls ! j)" if "j \<in> holders ls" for j
    using that by (simp add: nth_append holders_def)
  ultimately show ?thesis using assms(1) by (simp add: names_held_def inj_on_def cong: image_cong_simp)
qed

lemma opens_ok:
  assumes "chat_ok whole c" "name_ok n" "addr_ok a"
  shows "chat_ok whole (opens n a c)"
proof (cases "check_name_conflict n []")
  case (Inr r)
  obtain sent ret where r: "check_name_conflict n [] = Ok (sent, ret)" using Inr by (cases r) auto
  have "link_ok whole G \<lparr>l_name = n, l_peer = a, l_program = Joining, l_served = True, l_holds = False, l_unanswered = False,
      l_up = [sent], l_down = []\<rparr>" for G
    using join_carried [OF assms(2) r] assms(2,3) by (auto simp: link_ok_def phase_def)
  moreover have "link_ok whole (genuine (links c @ [l])) lk" if "lk \<in> set (links c)" for lk l
    using assms(1) that link_ok_mono [OF genuine_mono] by (auto simp: chat_ok_def)
  ultimately show ?thesis
    using r assms(1) names_held_new genuine_mono by (auto simp: chat_ok_def opens_def)
qed (use assms in \<open>simp add: opens_def\<close>)

subsection \<open>The server reads a message\<close>

definition holds_after :: "string \<Rightarrow> command \<Rightarrow> server \<Rightarrow> bool \<Rightarrow> bool" where
  "holds_after n cmd s holds \<longleftrightarrow> (case cmd of Join _ \<Rightarrow> n \<notin> set (names s) | Quit _ \<Rightarrow> False | _ \<Rightarrow> holds)"

lemma phase_head:
  assumes "phase whole n G prog u True holds (cmd # cs) down"
  shows "own_command n cmd" "(\<exists>x. cmd = Join x) \<longleftrightarrow> \<not> holds"
  using assms
  by (auto simp: phase_def unattended_def own_command_def client_command_def split: program.splits if_splits command.splits)

lemma unattended_message:
  assumes "unattended n True holds (cmd # cs)" "message_effect n cmd s s' bs k"
  shows "unattended n k (holds_after n cmd s holds) cs"
  using assms
  by (cases cmd)
    (auto simp: unattended_def message_effect_def holds_after_def own_command_def client_command_def split: if_splits)

lemma phase_message:
  assumes "phase whole n G prog u True holds (cmd # cs) down" "message_effect n cmd s s' bs k" "\<forall>w \<in> set (waiting s). G w"
  shows "phase whole n G prog u k (holds_after n cmd s holds) cs (down @ bs)"
proof -
  note answers = answer_mono [of "\<lambda>w. w \<in> set (waiting s)" G] assms(3)
  show ?thesis
  proof (cases prog)
    case Joining
    with assms show ?thesis by (auto simp: phase_def message_effect_def holds_after_def split: if_splits)
  next
    case (Running st)
    show ?thesis
    proof (cases u)
      case True
      with assms Running unattended_message [OF _ assms(2)] show ?thesis by (simp add: phase_def)
    next
      case False
      with Running assms answers show ?thesis
        by (cases cmd; cases "main_at st")
          (auto simp: phase_def message_effect_def holds_after_def in_sync_def in_order_def asks_def client_command_def
            split: if_splits)
    qed
  next
    case Ended
    with assms unattended_message [OF _ assms(2)] show ?thesis by (simp add: phase_def)
  qed
qed

text \<open>Messages behind the first that are read with it are lost.\<close>

lemma phase_drop:
  assumes "phase False n G prog u True holds (cmd # cs) down"
  shows "phase False n G prog u True holds (cmd # drop k cs) down"
proof -
  have d: "x \<in> set (drop k cs) \<Longrightarrow> x \<in> set cs" for x by (rule in_set_dropD)
  have u: "unattended n True holds (cmd # cs) \<Longrightarrow> unattended n True holds (cmd # drop k cs)"
    unfolding unattended_def using d by fastforce
  show ?thesis
  proof (cases prog)
    case Joining
    with assms show ?thesis by (auto simp: phase_def)
  next
    case (Running s)
    show ?thesis
    proof (cases u)
      case True
      with assms Running u show ?thesis by (simp add: phase_def)
    next
      case False
      with assms Running have "\<forall>x \<in> set (cmd # cs). client_command n x" "holds" "in_order n (main_at s) (cmd # cs)"
        by (simp_all add: phase_def split: if_splits)
      moreover from this(1,3) d have "\<forall>x \<in> set (cmd # drop k cs). client_command n x"
        "in_order n (main_at s) (cmd # drop k cs)" unfolding in_order_def by (fastforce, fastforce)
      ultimately show ?thesis using False Running by (simp add: phase_def)
    qed
  next
    case (Ended why)
    with assms u show ?thesis by (simp add: phase_def)
  qed
qed

lemma grows_iff:
  assumes "distinct xs" "distinct ys"
  shows "set ys \<subseteq> set xs \<Longrightarrow> \<not> length xs < length ys" "n \<notin> set xs \<Longrightarrow> set ys = insert n (set xs) \<Longrightarrow> length xs < length ys"
  using card_mono [of "set xs" "set ys"] distinct_card [OF assms(1)] distinct_card [OF assms(2)] by auto

lemma holds_update:
  assumes "own_command n cmd" "message_effect n cmd s s' bs k" "distinct (names s)" "distinct (names s')"
  shows "(if k then holds \<or> length (names s) < length (names s') else False) = holds_after n cmd s holds"
  using assms(1,2) grows_iff [OF assms(3,4)]
  by (cases cmd) (auto simp: message_effect_def holds_after_def own_command_def client_command_def split: if_splits)

text \<open>The holders after connection \<open>i\<close> has taken the name of its client, or given it up.\<close>

lemma names_held_add:
  assumes "names_held N ls" "i < length ls" "l_name (ls ! i) \<notin> N" "l_name lk = l_name (ls ! i)" "l_holds lk"
  shows "names_held (insert (l_name lk) N) (ls[i := lk])"
proof -
  have "l_name (ls ! i) \<notin> (\<lambda>j. l_name (ls ! j)) ` (holders ls - {i})" using assms(1,3) by (auto simp: names_held_def)
  with assms(1,4,5) show ?thesis
    by (simp add: names_held_def holders_after [OF assms(2)] names_after [OF assms(2,4)])
qed

lemma names_held_drop:
  assumes "names_held N ls" "i < length ls" "l_holds (ls ! i)" "l_name lk = l_name (ls ! i)" "\<not> l_holds lk"
  shows "names_held (N - {l_name lk}) (ls[i := lk])"
proof -
  have i: "i \<in> holders ls" and inj: "inj_on (\<lambda>j. l_name (ls ! j)) (holders ls)"
    using assms(1-3) by (simp_all add: holders_def names_held_def)
  have "(\<lambda>j. l_name (ls ! j)) ` (holders ls - {i}) = (\<lambda>j. l_name (ls ! j)) ` holders ls - {l_name (ls ! i)}"
    using inj_on_image_set_diff [OF inj, of "holders ls" "{i}"] i by simp
  with assms(1,4,5) inj_on_diff [OF inj] show ?thesis
    by (simp add: names_held_def holders_after [OF assms(2)] names_after [OF assms(2,4)])
qed

lemma names_held_message:
  assumes "names_held (set (names s)) ls" "i < length ls" "l_name lk = l_name (ls ! i)"
    and "own_command (l_name lk) cmd" "(\<exists>x. cmd = Join x) \<longleftrightarrow> \<not> l_holds (ls ! i)"
    and "message_effect (l_name lk) cmd s s' bs k" "l_holds lk = holds_after (l_name lk) cmd s (l_holds (ls ! i))"
  shows "names_held (set (names s')) (ls[i := lk])"
proof (cases cmd)
  case (Join x)
  with assms names_held_add [OF assms(1,2) _ assms(3)] names_held_same [OF assms(1-3)] show ?thesis
    by (auto simp: message_effect_def holds_after_def split: if_splits)
next
  case (Quit x)
  with assms names_held_drop [OF assms(1,2) _ assms(3)] show ?thesis
    by (auto simp: message_effect_def holds_after_def)
qed (use assms names_held_same [OF assms(1-3)] in \<open>auto simp: message_effect_def holds_after_def\<close>)

text \<open>The step as one rule: what the server read, and what the connection is then.\<close>

lemma server_reads_message:
  assumes "chat_ok whole c" "i < length (links c)" "l_served (links c ! i)" "l_up (links c ! i) = m # ms"
    and "server_reads i c = Ok c'"
  obtains cmd cs s' out k where "carries cmd m" "own_command (l_name (links c ! i)) cmd"
    "(\<exists>x. cmd = Join x) \<longleftrightarrow> \<not> l_holds (links c ! i)"
    "handle (l_peer (links c ! i)) m (srv c) = Ok (s', out, k)"
    "message_effect (l_name (links c ! i)) cmd (srv c) s' (sent_bytes out) k" "server_ok s'" "distinct (names s')"
    "\<forall>w \<in> set (waiting s'). genuine (links c) w"
    "list_all2 carries cs ms"
    "phase whole (l_name (links c ! i)) (genuine (links c)) (l_program (links c ! i)) (l_unanswered (links c ! i)) k
      (holds_after (l_name (links c ! i)) cmd (srv c) (l_holds (links c ! i))) cs (l_down (links c ! i) @ sent_bytes out)"
    "c' = c\<lparr>srv := s', links := (links c)[i := (links c ! i)\<lparr>l_up := ms,
        l_down := l_down (links c ! i) @ sent_bytes out, l_served := k,
        l_holds := holds_after (l_name (links c ! i)) cmd (srv c) (l_holds (links c ! i))\<rparr>]\<rparr>"
proof -
  let ?lk = "links c ! i"
  note ok = assms(1) [unfolded chat_ok_def]
  have lk: "?lk \<in> set (links c)" using assms(2) by simp
  then have "link_ok whole (genuine (links c)) ?lk" using ok by blast
  then obtain cmd cs where c: "name_ok (l_name ?lk)" "addr_ok (l_peer ?lk)" "carries cmd m" "list_all2 carries cs ms"
    "phase whole (l_name ?lk) (genuine (links c)) (l_program ?lk) (l_unanswered ?lk) True (l_holds ?lk) (cmd # cs) (l_down ?lk)"
    using assms(3,4) unfolding link_ok_def by (auto simp: list_all2_Cons2)
  obtain s' out k where h: "handle (l_peer ?lk) m (srv c) = Ok (s', out, k)"
    using assms(2-5) by (auto simp: server_reads_def server_takes_def res_simps Let_def)
  note own = phase_head [OF c(5)]
  from handle_effect [OF _ _ c(2,1) own(1) c(3) h] ok
  have eff: "message_effect (l_name ?lk) cmd (srv c) s' (sent_bytes out) k" "server_ok s'" "distinct (names s')"
    "\<forall>w \<in> set (waiting s'). w \<in> set (waiting (srv c)) \<or> client w = l_name ?lk \<and> ip w = l_peer ?lk" by auto
  have "genuine (links c) w" if "client w = l_name ?lk" "ip w = l_peer ?lk" for w
    using that lk by (auto simp: genuine_def)
  then have gen: "\<forall>w \<in> set (waiting s'). genuine (links c) w" using eff(4) ok by blast
  have "holds_after (l_name ?lk) cmd (srv c) (l_holds ?lk)
      = (if k then l_holds ?lk \<or> length (names (srv c)) < length (names s') else False)"
    using holds_update [OF own(1) eff(1) _ eff(3)] ok by simp
  then have "c' = c\<lparr>srv := s', links := (links c)[i := ?lk\<lparr>l_up := ms,
        l_down := l_down ?lk @ sent_bytes out, l_served := k,
        l_holds := holds_after (l_name ?lk) cmd (srv c) (l_holds ?lk)\<rparr>]\<rparr>"
    using assms(2-5) h by (auto simp: server_reads_def server_takes_def Let_def at_link_def)
  with that [OF c(3) own h eff(1-3) gen c(4) phase_message [OF c(5) eff(1)]] ok show thesis by blast
qed

lemma server_reads_ok:
  assumes "chat_ok whole c" "server_reads i c = Ok c'"
  shows "chat_ok whole c'"
proof (cases "i < length (links c) \<and> l_served (links c ! i)")
  case True
  note i = conjunct1 [OF True]
  show ?thesis
  proof (cases "l_up (links c ! i)")
    case Nil
    have "chat_ok whole (at_link i (l_served_update (\<lambda>_. False)) c)" if "has_ended (l_program (links c ! i))"
    proof -
      have "link_ok whole (genuine (links c)) (links c ! i)" using assms(1) i by (simp add: chat_ok_def)
      then have "link_ok whole (genuine (links c)) ((links c ! i)\<lparr>l_served := False\<rparr>)"
        using that by (auto simp: link_ok_def phase_def unattended_def has_ended_def split: program.splits)
      with chat_ok_update [OF assms(1) i] i show ?thesis by (simp add: at_link_def)
    qed
    with assms True Nil show ?thesis by (auto simp: server_reads_def Let_def split: if_splits)
  next
    case (Cons m ms)
    let ?lk = "links c ! i"
    obtain cmd cs s' out k where r: "carries cmd m" "own_command (l_name ?lk) cmd" "(\<exists>x. cmd = Join x) \<longleftrightarrow> \<not> l_holds ?lk"
      "handle (l_peer ?lk) m (srv c) = Ok (s', out, k)"
      "message_effect (l_name ?lk) cmd (srv c) s' (sent_bytes out) k" "server_ok s'" "distinct (names s')"
      "\<forall>w \<in> set (waiting s'). genuine (links c) w" "list_all2 carries cs ms"
      "phase whole (l_name ?lk) (genuine (links c)) (l_program ?lk) (l_unanswered ?lk) k
        (holds_after (l_name ?lk) cmd (srv c) (l_holds ?lk)) cs (l_down ?lk @ sent_bytes out)"
      "c' = c\<lparr>srv := s', links := (links c)[i := ?lk\<lparr>l_up := ms, l_down := l_down ?lk @ sent_bytes out, l_served := k,
        l_holds := holds_after (l_name ?lk) cmd (srv c) (l_holds ?lk)\<rparr>]\<rparr>"
      by (rule server_reads_message [OF assms(1) i conjunct2 [OF True] Cons assms(2)])
    let ?lk' = "?lk\<lparr>l_up := ms, l_down := l_down ?lk @ sent_bytes out, l_served := k,
        l_holds := holds_after (l_name ?lk) cmd (srv c) (l_holds ?lk)\<rparr>"
    have "link_ok whole (genuine (links c)) ?lk" using assms(1) i by (simp add: chat_ok_def)
    then have lk': "link_ok whole (genuine (links c)) ?lk'" using r(9,10) by (auto simp: link_ok_def)
    have gen: "genuine ((links c)[i := ?lk']) = genuine (links c)" using i by (intro genuine_update) simp_all
    have "names_held (set (names s')) ((links c)[i := ?lk'])"
      using names_held_message [of "srv c" "links c" i ?lk' cmd s' "sent_bytes out" k] assms(1) i r(2,3,5)
      by (simp add: chat_ok_def)
    moreover have "link_ok whole (genuine (links c)) lk" if "lk \<in> set ((links c)[i := ?lk'])" for lk
      using that set_update_subset_insert [of "links c" i ?lk'] lk' assms(1) by (auto simp: chat_ok_def)
    ultimately show ?thesis using r(6-8,11) gen by (simp add: chat_ok_def)
  qed
next
  case False
  with assms show ?thesis by (auto simp: server_reads_def Let_def split: if_splits)
qed

text \<open>
  Reading several messages at once is reading the first with the others gone: each holds a zero byte, and
  the handler sees the string before the first one.
\<close>

lemma merged_messages_lost:
  assumes "NUL \<in> set m"
  shows "handle peer (m @ rest) s = handle peer m s"
proof -
  have "cstr (zbuf n (m @ rest)) = cstr (zbuf n m)" for n
    using assms by (auto simp: cstr_def zbuf_def takeWhile_append)
  then show ?thesis by (simp add: handle_def)
qed

definition read_together :: "nat \<Rightarrow> nat \<Rightarrow> chat \<Rightarrow> bool" where
  "read_together i k c \<longleftrightarrow> k < length (l_up (links c ! i)) \<and> length (concat (take (Suc k) (l_up (links c ! i)))) \<le> SERVER_BUFF_SIZE"

definition dropping :: "nat \<Rightarrow> nat \<Rightarrow> chat \<Rightarrow> chat" where
  "dropping i k c = at_link i (\<lambda>lk. lk\<lparr>l_up := hd (l_up lk) # drop (Suc k) (l_up lk)\<rparr>) c"

lemma reads_several_not:
  assumes "\<not> (i < length (links c) \<and> l_served (links c ! i) \<and> read_together i k c)"
  shows "server_reads_several i k c = Ok c"
  using assms by (auto simp: server_reads_several_def read_together_def Let_def not_less split: list.splits)

lemma reads_several_drops:
  assumes "chat_ok False c" "i < length (links c)" "l_served (links c ! i)" "read_together i k c"
  shows "chat_ok False (dropping i k c)" "server_reads_several i k c = server_reads i (dropping i k c)"
    "\<exists>m ms. l_up (links c ! i) = m # ms \<and> l_up (links (dropping i k c) ! i) = m # drop k ms"
proof -
  let ?lk = "links c ! i"
  obtain m ms where up: "l_up ?lk = m # ms" using assms(4) by (cases "l_up ?lk") (auto simp: read_together_def)
  let ?lk' = "?lk\<lparr>l_up := m # drop k ms\<rparr>"
  have d: "dropping i k c = c\<lparr>links := (links c)[i := ?lk']\<rparr>" using assms(2) up by (simp add: dropping_def at_link_def)
  then show "\<exists>m ms. l_up ?lk = m # ms \<and> l_up (links (dropping i k c) ! i) = m # drop k ms" using assms(2) up by simp
  have "link_ok False (genuine (links c)) ?lk" using assms(1,2) by (simp add: chat_ok_def)
  then obtain cmd cs where c: "name_ok (l_name ?lk)" "addr_ok (l_peer ?lk)" "carries cmd m" "list_all2 carries cs ms"
    "phase False (l_name ?lk) (genuine (links c)) (l_program ?lk) (l_unanswered ?lk) True (l_holds ?lk) (cmd # cs) (l_down ?lk)"
    using assms(3) up unfolding link_ok_def by (auto simp: list_all2_Cons2)
  have "list_all2 carries (cmd # drop k cs) (m # drop k ms)" using c(3,4) by (simp add: list_all2_dropI)
  then have "link_ok False (genuine (links c)) ?lk'"
    using c(1,2) phase_drop [OF c(5), of k] assms(3) unfolding link_ok_def by fastforce
  with chat_ok_update [OF assms(1,2), of ?lk'] d show "chat_ok False (dropping i k c)" by simp
  have "\<not> (length ms < k \<or> SERVER_BUFF_SIZE < length (m @ concat (take k ms)))"
    using assms(4) up by (auto simp: read_together_def)
  then have "server_reads_several i k c = server_takes i (m @ concat (take k ms)) (drop k ms) c"
    using assms(2,3) up by (simp add: server_reads_several_def Let_def)
  also have "\<dots> = server_takes i m (drop k ms) (dropping i k c)"
    using assms(2) d merged_messages_lost [OF carriesD(2) [OF c(3)]]
    by (simp add: server_takes_def at_link_def cong: if_cong)
  also have "\<dots> = server_reads i (dropping i k c)"
    using assms(2,3) d by (simp add: server_reads_def Let_def)
  finally show "server_reads_several i k c = server_reads i (dropping i k c)" .
qed

lemma reads_several_ok:
  assumes "chat_ok False c" "server_reads_several i k c = Ok c'"
  shows "chat_ok False c'"
  using reads_several_drops [OF assms(1)] reads_several_not server_reads_ok assms by (metis sum.inject(2))

lemma init_chat_ok: "chat_ok whole init_chat"
  by (simp add: chat_ok_def init_chat_def names_held_def holders_def server_ok_def init_server_def names_def waiting_def
      initArray_wf initNameArray_wf)

text \<open>The events of a run whose answers are read as they were written, or of any run.\<close>

definition event_in :: "bool \<Rightarrow> chat_event \<Rightarrow> bool" where
  "event_in whole ev \<longleftrightarrow> (if whole then chat_event_ok ev else chat_event_loose ev)"

lemma event_in_simps [simp]: "event_in True = chat_event_ok" "event_in False = chat_event_loose"
  by (simp_all add: event_in_def fun_eq_iff)

lemma acts_eq: "acts ev = acts_with takes ev"
  by (simp add: fun_eq_iff acts_def)

lemma chat_step_ok:
  assumes "chat_ok whole c" "event_in whole ev" "chat_step ev c = Ok c'"
  shows "chat_ok whole c'"
proof (cases ev)
  case (Reads_join i)
  have "chat_ok whole (at_link i reads_join c)" using reads_join_ok reads_join_frame assms(1) by (intro at_link_ok) auto
  with Reads_join assms(3) show ?thesis by (simp add: chat_step_def)
next
  case (Leaves i)
  have "chat_ok whole (at_link i (l_program_update (\<lambda>_. Ended None)) c)"
    using leaves_ok assms(1) by (intro at_link_ok) auto
  with Leaves assms(3) show ?thesis by (simp add: chat_step_def)
next
  case (Acts i e)
  with assms(2) have "chat_event_ok (Acts i e)" by (simp add: event_in_def chat_event_loose_def split: if_splits)
  with acts_at_ok [OF assms(1), of i e takes] Acts assms(3) show ?thesis by (simp add: chat_step_def acts_eq)
next
  case (Reads_part i e)
  with assms(2) have "\<not> whole" "chat_event_ok (Acts i e)"
    by (simp_all add: event_in_def chat_event_loose_def chat_event_ok_def split: if_splits)
  with acts_at_ok [OF assms(1), of i e takes_part] Reads_part assms(3) show ?thesis by (simp add: chat_step_def)
next
  case (Join_fails i)
  with assms(2) have w: "\<not> whole" by (simp add: event_in_def chat_event_ok_def split: if_splits)
  then have "chat_ok whole (at_link i join_fails c)"
    using join_fails_ok join_fails_frame assms(1) by (intro at_link_ok) auto
  with Join_fails assms(3) show ?thesis by (simp add: chat_step_def)
next
  case (Server_reads_several i k)
  with assms(2) have w: "\<not> whole" by (simp add: event_in_def chat_event_ok_def split: if_splits)
  with reads_several_ok [of c i k c'] assms(1,3) Server_reads_several show ?thesis by (simp add: chat_step_def)
qed (use assms opens_ok server_reads_ok in
    \<open>auto simp: chat_step_def event_in_def chat_event_loose_def chat_event_ok_def split: if_splits\<close>)

lemma chat_run_ok:
  "chat_ok whole c \<Longrightarrow> \<forall>ev \<in> set evs. event_in whole ev \<Longrightarrow> chat_run evs c = Ok c' \<Longrightarrow> chat_ok whole c'"
proof (induction evs arbitrary: c)
  case (Cons ev evs)
  then obtain c1 where "chat_step ev c = Ok c1" "chat_run evs c1 = Ok c'" by (auto simp: res_simps)
  with Cons chat_step_ok [of whole c ev c1] show ?case by simp
qed simp

section \<open>What the invariant gives\<close>

text \<open>A client that has joined and has not quit.\<close>

definition at_work :: "link \<Rightarrow> bool" where
  "at_work lk \<longleftrightarrow> (case l_program lk of Running s \<Rightarrow> main_at s \<noteq> Returned | _ \<Rightarrow> False)"

lemma at_workE:
  assumes "link_ok whole G lk" "at_work lk" "whole \<or> \<not> l_unanswered lk"
  obtains s cmds where "l_program lk = Running s" "main_at s \<noteq> Returned" "l_served lk" "l_holds lk"
    "list_all2 carries cmds (l_up lk)" "whole \<longrightarrow> in_sync (l_name lk) G (main_at s) cmds (l_down lk)"
    "\<forall>cmd \<in> set cmds. client_command (l_name lk) cmd"
  using assms by (auto simp: link_ok_def at_work_def phase_def split: program.splits if_splits)

lemma chat_link: "chat_ok whole c \<Longrightarrow> i < length (links c) \<Longrightarrow> link_ok whole (genuine (links c)) (links c ! i)"
  by (simp add: chat_ok_def)






text \<open>The connection a client makes on an answer.\<close>

lemma answer_connects:
  assumes "peer_answer G b" "client_step n (Connect_arrives b e) s = Ok (s', os)" "main_at s = Connect_reply"
    and "Connect_to a p \<in> set os"
  shows "\<exists>w. G w \<and> ip w = a \<and> p = port w mod 65536"
proof -
  obtain s1 where s1: "connect_after_process b e s = Ok (s1, os)" using assms(2,3) by (auto simp: client_step_def res_simps)
  show ?thesis
  proof (cases "b = with_nul ''c::''")
    case True
    with s1 assms(4) show ?thesis by (auto simp: connect_after_process_def with_nul_def buf_is_def zbuf_def BUFFER_SIZE_def)
  next
    case False
    then obtain w where w: "G w" "entry_ok w" "b = zbuf SERVER_BUFF_SIZE (peer_text w)"
      using assms(1) by (auto simp: peer_answer_def)
    with s1 connect_reply [OF w(2)] assms(4) show ?thesis by (auto simp: connect_peer_Ok_iff)
  qed
qed

lemma acts_connects:
  assumes "chat_ok True c" "i < length (links c)" "l_program (links c ! i) = Running s" "main_at s = Connect_reply"
    and "takes (Connect_arrives b e) (main_at s) (l_down (links c ! i)) = Some down"
    and "client_step (l_name (links c ! i)) (Connect_arrives b e) s = Ok (s', os)" "Connect_to a p \<in> set os"
  shows "\<exists>lk \<in> set (links c). l_peer lk = a"
proof -
  have "at_work (links c ! i)" using assms(3,4) by (simp add: at_work_def)
  from at_workE [OF chat_link [OF assms(1,2)] this] assms(3,4)
  obtain cmds where "in_sync (l_name (links c ! i)) (genuine (links c)) Connect_reply cmds (l_down (links c ! i))"
    by (metis program.inject)
  with assms(4,5) have "peer_answer (genuine (links c)) b" by (auto simp: in_sync_def takes_def split: list.splits if_splits)
  from answer_connects [OF this assms(6,4,7)] show ?thesis by (auto simp: genuine_def)
qed

subsection \<open>When the server stops\<close>

definition fatal_message :: "nat \<Rightarrow> chat \<Rightarrow> bool" where
  "fatal_message i c \<longleftrightarrow> i < length (links c) \<and> l_served (links c ! i)
    \<and> (\<exists>m ms cmd. l_up (links c ! i) = m # ms \<and> own_command (l_name (links c ! i)) cmd \<and> carries cmd m
         \<and> fatal (l_name (links c ! i)) cmd (srv c))"

lemma res_bind_Inl: "(\<And>x. \<exists>y. f x = Inr y) \<Longrightarrow> (\<exists>e. res_bind r f = Inl e) \<longleftrightarrow> (\<exists>e. r = Inl e)"
  by (cases r) (auto, metis sum.distinct(1))

lemma server_reads_stops:
  assumes "chat_ok whole c"
  shows "(\<exists>e. server_reads i c = Inl e) \<longleftrightarrow> fatal_message i c"
proof (cases "i < length (links c) \<and> l_served (links c ! i) \<and> l_up (links c ! i) \<noteq> []")
  case True
  then obtain m ms where up: "i < length (links c)" "l_served (links c ! i)" "l_up (links c ! i) = m # ms"
    by (auto simp: neq_Nil_conv)
  let ?lk = "links c ! i"
  obtain cmd cs where c: "name_ok (l_name ?lk)" "addr_ok (l_peer ?lk)" "carries cmd m"
    "phase whole (l_name ?lk) (genuine (links c)) (l_program ?lk) (l_unanswered ?lk) True (l_holds ?lk) (cmd # cs) (l_down ?lk)"
    using chat_link [OF assms up(1)] up(2,3) unfolding link_ok_def by (auto simp: list_all2_Cons2)
  have stops: "(\<exists>e. handle (l_peer ?lk) m (srv c) = Inl e) \<longleftrightarrow> fatal (l_name ?lk) cmd' (srv c)"
    if "own_command (l_name ?lk) cmd'" "carries cmd' m" for cmd'
    using handle_fatal [OF _ c(2,1) that] assms by (simp add: chat_ok_def)
  have "(\<exists>e. server_reads i c = Inl e) \<longleftrightarrow> (\<exists>e. handle (l_peer ?lk) m (srv c) = Inl e)"
    using up by (simp add: server_reads_def server_takes_def Let_def) (subst res_bind_Inl, auto split: prod.splits)
  with stops phase_head(1) [OF c(4)] c(3) up show ?thesis unfolding fatal_message_def by auto
next
  case False
  then show ?thesis by (auto simp: server_reads_def fatal_message_def Let_def)
qed



subsection \<open>Waiting for an answer\<close>

text \<open>The server has read all that a client at work has sent, or stopped.\<close>

lemma drains:
  assumes "l_up (links c ! i) = ms" "chat_ok True c" "i < length (links c)" "l_program (links c ! i) = Running s"
    and "main_at s \<noteq> Returned"
  shows "case chat_run (replicate (length ms) (Server_reads i)) c of
      Inl e \<Rightarrow> \<exists>k < length ms. \<exists>c1. chat_run (replicate k (Server_reads i)) c = Ok c1 \<and> fatal_message i c1
    | Inr c' \<Rightarrow> chat_ok True c' \<and> i < length (links c') \<and> l_program (links c' ! i) = Running s
        \<and> l_name (links c' ! i) = l_name (links c ! i) \<and> l_up (links c' ! i) = []"
  using assms(1-4)
proof (induction ms arbitrary: c)
  case (Cons m ms)
  let ?next = "Server_reads i"
  show ?case
  proof (cases "server_reads i c")
    case (Inl e)
    then have "fatal_message i c" using server_reads_stops [OF Cons.prems(2)] by blast
    moreover have "chat_run (replicate 0 ?next) c = Ok c" by simp
    ultimately have "\<exists>k < length (m # ms). \<exists>c1. chat_run (replicate k ?next) c = Ok c1 \<and> fatal_message i c1" by blast
    with Inl show ?thesis by (simp add: chat_step_def)
  next
    case (Inr c1)
    have "at_work (links c ! i)" using Cons.prems(4) assms(5) by (simp add: at_work_def)
    then have served: "l_served (links c ! i)" by (rule at_workE [OF chat_link [OF Cons.prems(2,3)]]) simp_all
    have ok: "chat_ok True c1" by (rule server_reads_ok [OF Cons.prems(2) Inr])
    have one: "l_up (links c1 ! i) = ms" "i < length (links c1)" "l_program (links c1 ! i) = Running s"
      "l_name (links c1 ! i) = l_name (links c ! i)"
      using Inr Cons.prems(1,3,4) served
      by (auto simp: server_reads_def server_takes_def Let_def res_simps at_link_def)
    have step: "chat_run (replicate (Suc k) ?next) c = chat_run (replicate k ?next) c1" for k
      using Inr by (simp add: chat_step_def)
    show ?thesis
    proof (cases "chat_run (replicate (length ms) ?next) c1")
      case (Inl e)
      then obtain k c2 where "k < length ms" "chat_run (replicate k ?next) c1 = Ok c2" "fatal_message i c2"
        using Cons.IH [OF one(1) ok one(2,3)] by auto
      then have "\<exists>k < length (m # ms). \<exists>c1. chat_run (replicate k ?next) c = Ok c1 \<and> fatal_message i c1"
        using step [of k] by (intro exI [of _ "Suc k"]) auto
      with Inl step [of "length ms"] show ?thesis by simp
    next
      case (Inr c2)
      with Cons.IH [OF one(1) ok one(2,3)] step [of "length ms"] one(4) show ?thesis by simp
    qed
  qed
qed simp

text \<open>
  The reads by which a waiting client takes the answer \<open>b\<close>: an address in one read; a list in pieces, of
  which the last holds both closing colons or is followed by a read that returns nothing.
\<close>

definition reads_answer :: "event \<Rightarrow> main_pc \<Rightarrow> char list \<Rightarrow> bool" where
  "reads_answer ev m b \<longleftrightarrow>
    (case m of
       Connect_reply \<Rightarrow> \<exists>e. ev = Connect_arrives b e \<and> connect_env_ok e
     | List_reply \<Rightarrow> \<exists>chunks. concat chunks = b \<and> (\<forall>ch \<in> set chunks. ch \<noteq> [] \<and> length ch < BUFFER_SIZE)
         \<and> (ev = List_arrives chunks \<and> list_ended chunks \<or> ev = List_arrives (chunks @ [[]]))
     | _ \<Rightarrow> False)"

lemma list_reads_all:
  assumes "\<forall>c \<in> set cs. name_ok (client c)" "whole @ concat chunks = list_reply cs" "\<forall>ch \<in> set chunks. ch \<noteq> []"
    and "end = [] \<or> end = [[]]"
  shows "concat (list_reads idx (chunks @ end)) = concat chunks"
  using assms(2,3)
proof (induction chunks arbitrary: whole idx)
  case Nil
  show ?case using assms(4) by auto
next
  case (Cons ch chunks)
  have "no_nul ch" using list_reply_no_nul [OF assms(1)] Cons.prems(1) by (metis concat.simps(2) no_nul_simps(3))
  then have buf: "takeWhile (\<lambda>c. c \<noteq> NUL) ch = ch" unfolding no_nul_def takeWhile_eq_all_conv by blast
  show ?case
  proof (cases "strstr ch ''::'' = None")
    case True
    then have "ch \<noteq> ''l::''" using strstr_colons(5) by blast
    with True Cons.IH [of "whole @ ch" "idx + 1"] Cons.prems show ?thesis by (simp add: buf)
  next
    case False
    then obtain u v where "ch = u @ ''::'' @ v" using strstr_occurs by blast
    with Cons.prems(1) have "list_reply cs = (whole @ u) @ ''::'' @ v @ concat chunks" by simp
    from list_reply_colons_end [OF assms(1) this] Cons.prems(2) have "chunks = []" by (cases chunks) auto
    with False show ?thesis by (simp add: buf)
  qed
qed

lemma list_answer_read:
  assumes "list_answer G b" "concat chunks = b" "\<forall>ch \<in> set chunks. ch \<noteq> [] \<and> length ch < BUFFER_SIZE"
    and "ev = List_arrives chunks \<and> list_ended chunks \<or> ev = List_arrives (chunks @ [[]])"
  obtains cks shown where "ev = List_arrives cks" "process_waiting_list cks = Ok (Some shown)" "list_read cks = Some b"
proof -
  obtain cs where cs: "\<forall>c \<in> set cs. name_ok (client c)" "b = list_reply cs"
    using assms(1) by (auto simp: list_answer_def entry_ok_def)
  note shown = list_reply_shown [OF cs(1) _ assms(3)] assms(2) cs(2)
  have "[] @ concat chunks = list_reply cs" "\<forall>ch \<in> set chunks. ch \<noteq> []" using assms(2,3) cs(2) by simp_all
  note all = list_reads_all [OF cs(1) this]
  from assms(4) show thesis
  proof
    assume ev: "ev = List_arrives chunks \<and> list_ended chunks"
    with shown have "process_waiting_list chunks = Ok (Some (shown_list chunks cs))" by simp
    moreover from this all [of "[]" 0] have "list_read chunks = Some b" by (simp add: list_read_def assms(2))
    ultimately show thesis using that ev by blast
  next
    assume ev: "ev = List_arrives (chunks @ [[]])"
    with shown have "process_waiting_list (chunks @ [[]]) = Ok (Some (shown_list chunks cs))" by simp
    moreover from this all [of "[[]]" 0] have "list_read (chunks @ [[]]) = Some b" by (simp add: list_read_def assms(2))
    ultimately show thesis using that ev by blast
  qed
qed

lemma answer_returns:
  assumes "in_sync n G (main_at s) cmds [b]" "main_at s = Connect_reply \<or> main_at s = List_reply"
    and "reads_answer ev (main_at s) b"
  shows "takes ev (main_at s) [b] = Some [] \<and> (\<exists>s' os. client_step n ev s = Ok (s', os) \<and> main_at s' = Prompt)"
  using assms(2)
proof
  assume m: "main_at s = Connect_reply"
  with assms(3) obtain e where e: "ev = Connect_arrives b e" "connect_env_ok e" by (auto simp: reads_answer_def)
  have "peer_answer G b" using assms(1) m by (auto simp: in_sync_def)
  then consider "b = with_nul ''c::''" | (entry) w where "entry_ok w" "b = zbuf SERVER_BUFF_SIZE (peer_text w)"
    by (auto simp: peer_answer_def)
  then have "\<exists>s1 os. connect_after_process b e s = Ok (s1, os)"
  proof cases
    case 1
    then show ?thesis by (simp add: connect_after_process_def with_nul_def buf_is_def zbuf_def BUFFER_SIZE_def)
  next
    case entry
    with connect_reply [OF entry(1)] connect_peer_good [OF e(2)] show ?thesis by simp
  qed
  with m e show ?thesis by (auto simp: takes_def client_step_def)
next
  assume m: "main_at s = List_reply"
  with assms(3) obtain chunks where ch: "concat chunks = b" "\<forall>ch \<in> set chunks. ch \<noteq> [] \<and> length ch < BUFFER_SIZE"
    "ev = List_arrives chunks \<and> list_ended chunks \<or> ev = List_arrives (chunks @ [[]])"
    by (auto simp: reads_answer_def)
  have "list_answer G b" using assms(1) m by (auto simp: in_sync_def)
  from this ch obtain cks shown where "ev = List_arrives cks" "process_waiting_list cks = Ok (Some shown)" "list_read cks = Some b"
    by (rule list_answer_read)
  with m show ?thesis by (auto simp: takes_def client_step_def)
qed

definition at_prompt :: "link \<Rightarrow> bool" where
  "at_prompt lk \<longleftrightarrow> (case l_program lk of Running s \<Rightarrow> main_at s = Prompt | _ \<Rightarrow> False)"

lemma answered:
  assumes "chat_ok True c" "i < length (links c)" "l_program (links c ! i) = Running s"
    and "main_at s = Connect_reply \<or> main_at s = List_reply" "l_up (links c ! i) = []"
  shows "\<exists>b. l_down (links c ! i) = [b]
    \<and> (\<forall>ev. reads_answer ev (main_at s) b \<longrightarrow> at_prompt (acts ev (links c ! i)))"
proof -
  have "at_work (links c ! i)" using assms(3,4) by (auto simp: at_work_def)
  from at_workE [OF chat_link [OF assms(1,2)] this] assms(3,5)
  have sync: "in_sync (l_name (links c ! i)) (genuine (links c)) (main_at s) [] (l_down (links c ! i))"
    by (metis list_all2_Nil2 program.inject)
  with assms(4) obtain b where b: "l_down (links c ! i) = [b]" by (auto simp: in_sync_def)
  have "at_prompt (acts ev (links c ! i))" if "reads_answer ev (main_at s) b" for ev
    using answer_returns [OF sync [unfolded b] assms(4) that] assms(3) b by (auto simp: acts_def acts_with_def at_prompt_def)
  with b show ?thesis by blast
qed

subsection \<open>When a client does\<close>







lemma failHandler_UB: "(\<exists>u. failHandler m = ub u) \<longleftrightarrow> False"
  by (simp add: failHandler_def)







section \<open>Properties\<close>

lemma run_ok:
  assumes "chat_run evs init_chat = Ok c"
  shows "\<forall>ev \<in> set evs. chat_event_ok ev \<Longrightarrow> chat_ok True c" "\<forall>ev \<in> set evs. chat_event_loose ev \<Longrightarrow> chat_ok False c"
  using chat_run_ok [OF init_chat_ok [of True]] chat_run_ok [OF init_chat_ok [of False]] assms by simp_all


text \<open>
  Property C5.  Where every message and every answer is read as it was written, that to a join request
  included, lines have at most 1000 characters and the server handles one message at a time, a client that
  asked for a peer only ever connects to the address of a client of the chat: however such events
  interleave, the answer it reads makes it connect to an address the server accepted a connection
  from.  (A list read in part can make it connect elsewhere: \<open>partial_list_connects_elsewhere\<close>.)
\<close>

theorem connects_inside_chat:
  assumes "chat_run evs init_chat = Ok c" "\<forall>ev \<in> set evs. chat_event_ok ev"
    and "i < length (links c)" "l_program (links c ! i) = Running s" "main_at s = Connect_reply"
    and "takes (Connect_arrives b e) (main_at s) (l_down (links c ! i)) = Some down"
    and "client_step (l_name (links c ! i)) (Connect_arrives b e) s = Ok (s', os)" "Connect_to a p \<in> set os"
  shows "\<exists>lk \<in> set (links c). l_peer lk = a"
  by (rule acts_connects [OF run_ok(1) [OF assms(1,2)] assms(3-8)])


text \<open>
  Property C7.  A client that waits for an answer gets it, in a run in which every message and every
  answer so far was read as it was written and with a server that handles one message at a time: once the
  server has read what the client has sent, exactly one answer is under way; and reading that answer
  whole, an address in one read, a list in pieces shorter than the buffer of which the last holds both
  closing colons or is followed by a read that returns nothing, brings the client back to its prompt;
  unless one of the server's reads stops the server.
\<close>

theorem request_is_answered:
  assumes "chat_run evs init_chat = Ok c" "\<forall>ev \<in> set evs. chat_event_ok ev"
    and "i < length (links c)" "l_program (links c ! i) = Running s" "main_at s = Connect_reply \<or> main_at s = List_reply"
  shows "case chat_run (replicate (length (l_up (links c ! i))) (Server_reads i)) c of
      Inl e \<Rightarrow> \<exists>k < length (l_up (links c ! i)). \<exists>c1.
        chat_run (replicate k (Server_reads i)) c = Ok c1 \<and> fatal_message i c1
    | Inr c' \<Rightarrow> \<exists>b. l_down (links c' ! i) = [b]
        \<and> (\<forall>ev. reads_answer ev (main_at s) b \<longrightarrow> at_prompt (acts ev (links c' ! i)))"
proof -
  have "main_at s \<noteq> Returned" using assms(5) by auto
  from drains [OF refl run_ok(1) [OF assms(1,2)] assms(3,4) this] answered [OF _ _ _ assms(5)] show ?thesis
    by (auto split: sum.splits)
qed

section \<open>A concrete chat\<close>

text \<open>Two clients join; later one waits and the other connects to it.\<close>

definition both_joined :: "chat_event list" where
  "both_joined = [Opens ''amy'' ''10.0.0.9'', Server_reads 0, Reads_join 0,
    Opens ''bob'' ''10.0.0.7'', Server_reads 1, Reads_join 1]"

definition wait_state_bob :: client_g where
  "wait_state_bob = start_state\<lparr>my_state := CLIENT_STATE_WAITING, l_fd := 4, listeners := [Loop_top]\<rparr>"

lemma both_joined_ok: "\<forall>ev \<in> set both_joined. chat_event_ok ev"
  by (simp add: both_joined_def chat_event_ok_def name_ok_def addr_ok_def CLIENT_NAME_LENGTH_def)

lemma bob_waits_ok: "\<forall>ev \<in> set (both_joined @ [Acts 1 (Line (Some ''/wait'') wenv), Server_reads 1]). chat_event_ok ev"
  using both_joined_ok by (auto simp: chat_event_ok_def event_ok_def wenv_def)

lemma both_joined_run:
  obtains c where "chat_run both_joined init_chat = Ok c" "chat_ok True c" "names (srv c) = [''amy'', ''bob'']" "waiting (srv c) = []"
    "links c = [\<lparr>l_name = ''amy'', l_peer = ''10.0.0.9'', l_program = Running start_state, l_served = True, l_holds = True, l_unanswered = False,
        l_up = [], l_down = []\<rparr>,
      \<lparr>l_name = ''bob'', l_peer = ''10.0.0.7'', l_program = Running start_state, l_served = True, l_holds = True, l_unanswered = False,
        l_up = [], l_down = []\<rparr>]"
proof -
  have r: "case chat_run both_joined init_chat of Inl e \<Rightarrow> False
    | Inr c \<Rightarrow> names (srv c) = [''amy'', ''bob''] \<and> waiting (srv c) = []
      \<and> links c = [\<lparr>l_name = ''amy'', l_peer = ''10.0.0.9'', l_program = Running start_state, l_served = True,
          l_holds = True, l_unanswered = False, l_up = [], l_down = []\<rparr>,
        \<lparr>l_name = ''bob'', l_peer = ''10.0.0.7'', l_program = Running start_state, l_served = True,
          l_holds = True, l_unanswered = False, l_up = [], l_down = []\<rparr>]"
    by code_simp
  with that run_ok(1) [OF _ both_joined_ok] show thesis by (auto split: sum.splits)
qed

lemma chat_run_append: "chat_run (xs @ ys) c = res_bind (chat_run xs c) (chat_run ys)"
proof (induction xs arbitrary: c)
  case (Cons ev xs)
  then show ?case by (cases "chat_step ev c") simp_all
qed simp

lemma bob_waits_run:
  obtains c where "chat_run (both_joined @ [Acts 1 (Line (Some ''/wait'') wenv), Server_reads 1]) init_chat = Ok c"
    "chat_ok True c" "waiting (srv c) = [bob]"
    "links c = [\<lparr>l_name = ''amy'', l_peer = ''10.0.0.9'', l_program = Running start_state, l_served = True, l_holds = True, l_unanswered = False,
        l_up = [], l_down = []\<rparr>,
      \<lparr>l_name = ''bob'', l_peer = ''10.0.0.7'', l_program = Running wait_state_bob, l_served = True, l_holds = True, l_unanswered = False,
        l_up = [], l_down = []\<rparr>]"
proof -
  obtain c where c: "chat_run both_joined init_chat = Ok c" "chat_ok True c" "waiting (srv c) = []"
    "links c = [\<lparr>l_name = ''amy'', l_peer = ''10.0.0.9'', l_program = Running start_state, l_served = True, l_holds = True, l_unanswered = False,
        l_up = [], l_down = []\<rparr>,
      \<lparr>l_name = ''bob'', l_peer = ''10.0.0.7'', l_program = Running start_state, l_served = True, l_holds = True, l_unanswered = False,
        l_up = [], l_down = []\<rparr>]" by (rule both_joined_run)
  have w: "command_ok (Wait ''bob'' 4001)" "addr_ok ''10.0.0.7''" by (simp_all add: bob_name_ok addr_ok_def)
  then have "cstr (zbuf SERVER_BUFF_SIZE (with_nul (command_text (Wait ''bob'' 4001)))) = Ok (command_text (Wait ''bob'' 4001))"
    using command_arrives [OF w(1)] command_bytes_text [OF w(1)] by simp
  moreover have "server_ok (srv c)" "distinct (names (srv c))" using c(2) by (simp_all add: chat_ok_def)
  ultimately obtain srv1
    where h: "handle ''10.0.0.7'' (with_nul (command_text (Wait ''bob'' 4001))) (srv c) = Ok (srv1, [], True)"
      "waiting srv1 = [bob]"
    using handle_simulates [of "srv c", OF _ _ w(2,1)] by (auto simp: registry_of_def c(3) bob_def)
  let ?evs = "[Acts 1 (Line (Some ''/wait'') wenv), Server_reads 1]"
  let ?c = "c\<lparr>srv := srv1, links := [links c ! 0, (links c ! 1)\<lparr>l_program := Running wait_state_bob\<rparr>]\<rparr>"
  have "main_at start_state = Prompt" by (simp add: start_state_def)
  then have "chat_run ?evs c = Ok ?c"
    using wait_line [of "''bob''"] h(1) c(4)
    by (simp add: chat_step_def at_link_def acts_def acts_with_def takes_def server_reads_def server_takes_def wait_state_bob_def)
  moreover have "\<forall>ev \<in> set ?evs. chat_event_ok ev" using bob_waits_ok by simp
  ultimately have ok: "chat_run (both_joined @ ?evs) init_chat = Ok ?c" "chat_ok True ?c"
    using c(1) chat_run_ok [OF c(2), of ?evs ?c] by (simp_all only: chat_run_append res_bind_simps event_in_simps)
  with that [of ?c] c(4) h(2) show thesis by simp
qed

lemma amy_asks_run:
  assumes "p \<noteq> []" "p \<noteq> ''amy''" "no_nul p" "length p \<le> 991"
  obtains evs c where "chat_run evs init_chat = Ok c" "\<forall>ev \<in> set evs. chat_event_ok ev" "chat_ok True c" "waiting (srv c) = [bob]"
    "links c ! 0 = \<lparr>l_name = ''amy'', l_peer = ''10.0.0.9'', l_program = Running (start_state\<lparr>main_at := Connect_reply\<rparr>),
      l_served = True, l_holds = True, l_unanswered = False, l_up = [with_nul (command_text (Connect ''amy'' p))], l_down = []\<rparr>"
    "length (links c) = 2" "l_peer (links c ! 1) = ''10.0.0.7''"
proof -
  obtain c evs where c: "chat_run evs init_chat = Ok c" "\<forall>ev \<in> set evs. chat_event_ok ev" "chat_ok True c" "waiting (srv c) = [bob]"
    "links c = [\<lparr>l_name = ''amy'', l_peer = ''10.0.0.9'', l_program = Running start_state, l_served = True, l_holds = True, l_unanswered = False,
        l_up = [], l_down = []\<rparr>,
      \<lparr>l_name = ''bob'', l_peer = ''10.0.0.7'', l_program = Running wait_state_bob, l_served = True, l_holds = True, l_unanswered = False,
        l_up = [], l_down = []\<rparr>]"
    by (rule bob_waits_run) (use bob_waits_ok in blast)
  let ?ev = "Acts 0 (Line (Some (''/connect '' @ p)) wenv)"
  let ?c = "at_link 0 (acts (Line (Some (''/connect '' @ p)) wenv)) c"
  have ok: "chat_event_ok ?ev" using assms(3,4) by (simp add: chat_event_ok_def event_ok_def wenv_def)
  have run: "chat_run (evs @ [?ev]) init_chat = Ok ?c" using c(1) by (simp add: chat_run_append chat_step_def)
  have "main_at start_state = Prompt" by (simp add: start_state_def)
  then have l: "links ?c ! 0 = \<lparr>l_name = ''amy'', l_peer = ''10.0.0.9'', l_program = Running (start_state\<lparr>main_at := Connect_reply\<rparr>),
      l_served = True, l_holds = True, l_unanswered = False, l_up = [with_nul (command_text (Connect ''amy'' p))], l_down = []\<rparr>"
    using c(5) connect_line [OF assms(1,2)] by (simp add: at_link_def acts_def acts_with_def takes_def)
  have "waiting (srv ?c) = [bob]" "length (links ?c) = 2" "l_peer (links ?c ! 1) = ''10.0.0.7''"
    using c(4,5) by (simp_all add: at_link_def)
  with that [OF run _ _ _ l] c(2,3) ok chat_step_ok [OF c(3), of ?ev] ok show thesis by (simp add: chat_step_def)
qed




lemma amy_reads_answer:
  obtains evs c0 c s' where "chat_run evs init_chat = Ok c0" "\<forall>ev \<in> set evs. chat_event_ok ev"
    "length (links c0) = 2" "l_program (links c0 ! 0) = Running (start_state\<lparr>main_at := Connect_reply\<rparr>)"
    "length (l_up (links c0 ! 0)) = 1" "chat_run [Server_reads 0] c0 = Ok c"
    "length (links c) = 2"
    "l_peer (links c ! 0) = ''10.0.0.9''" "l_peer (links c ! 1) = ''10.0.0.7''" "l_name (links c ! 0) = ''amy''"
    "l_program (links c ! 0) = Running (start_state\<lparr>main_at := Connect_reply\<rparr>)"
    "l_down (links c ! 0) = [zbuf SERVER_BUFF_SIZE (peer_text bob)]"
    "client_step ''amy'' (Connect_arrives (zbuf SERVER_BUFF_SIZE (peer_text bob)) cenv) (start_state\<lparr>main_at := Connect_reply\<rparr>)
      = Ok (s', [Connect_to ''10.0.0.7'' 4001])"
proof -
  obtain evs c where c: "chat_run evs init_chat = Ok c" "\<forall>ev \<in> set evs. chat_event_ok ev" "chat_ok True c" "waiting (srv c) = [bob]"
    "links c ! 0 = \<lparr>l_name = ''amy'', l_peer = ''10.0.0.9'', l_program = Running (start_state\<lparr>main_at := Connect_reply\<rparr>),
      l_served = True, l_holds = True, l_unanswered = False, l_up = [with_nul (command_text (Connect ''amy'' ''bob''))], l_down = []\<rparr>"
    "length (links c) = 2" "l_peer (links c ! 1) = ''10.0.0.7''"
    by (rule amy_asks_run [of "''bob''"]) auto
  have w: "command_ok (Connect ''amy'' ''bob'')" "addr_ok ''10.0.0.9''"
    by (simp_all add: amy_ok name_ok_def CLIENT_NAME_LENGTH_def addr_ok_def)
  then have "cstr (zbuf SERVER_BUFF_SIZE (with_nul (command_text (Connect ''amy'' ''bob'')))) = Ok (command_text (Connect ''amy'' ''bob''))"
    using command_arrives [OF w(1)] command_bytes_text [OF w(1)] by simp
  moreover have "server_ok (srv c)" "distinct (names (srv c))" using c(3) by (simp_all add: chat_ok_def)
  moreover have "find_entry ''bob'' [bob] = Some bob" by (simp add: bob_def)
  ultimately obtain srv1 where h: "handle ''10.0.0.9'' (with_nul (command_text (Connect ''amy'' ''bob''))) (srv c)
      = Ok (srv1, [Send (zbuf SERVER_BUFF_SIZE (peer_text bob))], True)"
    using handle_simulates [of "srv c", OF _ _ w(2,1)] by (auto simp: registry_of_def c(4))
  obtain c' where c': "server_reads 0 c = Ok c'" "length (links c') = 2" "l_peer (links c' ! 1) = ''10.0.0.7''"
    "l_name (links c' ! 0) = ''amy''" "l_peer (links c' ! 0) = ''10.0.0.9''"
    "l_program (links c' ! 0) = Running (start_state\<lparr>main_at := Connect_reply\<rparr>)"
    "l_down (links c' ! 0) = [zbuf SERVER_BUFF_SIZE (peer_text bob)]"
    using h c(5-7) by (simp add: server_reads_def server_takes_def Let_def at_link_def)
  have run: "chat_run [Server_reads 0] c = Ok c'" using c'(1) by (simp add: chat_step_def)
  have before: "l_program (links c ! 0) = Running (start_state\<lparr>main_at := Connect_reply\<rparr>)" "length (l_up (links c ! 0)) = 1"
    using c(5) by simp_all
  have "connect_env_ok cenv" by (simp add: connect_env_ok_def cenv_def)
  then obtain s' where "client_step ''amy'' (Connect_arrives (zbuf SERVER_BUFF_SIZE (peer_text bob)) cenv)
      (start_state\<lparr>main_at := Connect_reply\<rparr>) = Ok (s', [Connect_to ''10.0.0.7'' 4001])"
    using connect_reply [OF bob_ok] connect_peer_good [of cenv] by (simp add: client_step_def) (simp add: bob_def)
  with that [OF c(1,2,6) before run] c' show thesis by blast
qed

theorem connects_inside_chat_witness:
  "\<exists>evs c. chat_run evs init_chat = Ok c \<and> length (links c) = 2 \<and> (\<exists>lk \<in> set (links c). l_peer lk = ''10.0.0.7'')"
proof -
  obtain evs c0 c s' where c: "chat_run evs init_chat = Ok c0" "\<forall>ev \<in> set evs. chat_event_ok ev" "length (links c0) = 2"
    "l_program (links c0 ! 0) = Running (start_state\<lparr>main_at := Connect_reply\<rparr>)" "length (l_up (links c0 ! 0)) = 1"
    "chat_run [Server_reads 0] c0 = Ok c" "length (links c) = 2"
    "l_peer (links c ! 0) = ''10.0.0.9''" "l_peer (links c ! 1) = ''10.0.0.7''" "l_name (links c ! 0) = ''amy''"
    "l_program (links c ! 0) = Running (start_state\<lparr>main_at := Connect_reply\<rparr>)"
    "l_down (links c ! 0) = [zbuf SERVER_BUFF_SIZE (peer_text bob)]"
    "client_step ''amy'' (Connect_arrives (zbuf SERVER_BUFF_SIZE (peer_text bob)) cenv) (start_state\<lparr>main_at := Connect_reply\<rparr>)
      = Ok (s', [Connect_to ''10.0.0.7'' 4001])" by (rule amy_reads_answer)
  have run: "chat_run (evs @ [Server_reads 0]) init_chat = Ok c" using c(1,6) by (simp only: chat_run_append res_bind_simps)
  have ok: "\<forall>ev \<in> set (evs @ [Server_reads 0]). chat_event_ok ev" using c(2) by (simp add: chat_event_ok_def)
  have "0 < length (links c)" using c(7) by simp
  from connects_inside_chat [OF run ok this c(11), of "zbuf SERVER_BUFF_SIZE (peer_text bob)" cenv "[]"] c(10,12,13)
  have "\<exists>lk \<in> set (links c). l_peer lk = ''10.0.0.7''" by (simp add: takes_def)
  with run c(7) show ?thesis by blast
qed


theorem request_is_answered_witness:
  "\<exists>evs c c' b. chat_run evs init_chat = Ok c \<and> chat_run (replicate (length (l_up (links c ! 0))) (Server_reads 0)) c = Ok c'
    \<and> l_down (links c' ! 0) = [b] \<and> at_prompt (acts (Connect_arrives b cenv) (links c' ! 0))"
proof -
  obtain evs c0 c s' where c: "chat_run evs init_chat = Ok c0" "\<forall>ev \<in> set evs. chat_event_ok ev" "length (links c0) = 2"
    "l_program (links c0 ! 0) = Running (start_state\<lparr>main_at := Connect_reply\<rparr>)" "length (l_up (links c0 ! 0)) = 1"
    "chat_run [Server_reads 0] c0 = Ok c" "length (links c) = 2"
    "l_peer (links c ! 0) = ''10.0.0.9''" "l_peer (links c ! 1) = ''10.0.0.7''" "l_name (links c ! 0) = ''amy''"
    "l_program (links c ! 0) = Running (start_state\<lparr>main_at := Connect_reply\<rparr>)"
    "l_down (links c ! 0) = [zbuf SERVER_BUFF_SIZE (peer_text bob)]"
    "client_step ''amy'' (Connect_arrives (zbuf SERVER_BUFF_SIZE (peer_text bob)) cenv) (start_state\<lparr>main_at := Connect_reply\<rparr>)
      = Ok (s', [Connect_to ''10.0.0.7'' 4001])" by (rule amy_reads_answer)
  have 0: "0 < length (links c0)" using c(3) by simp
  have m: "main_at (start_state\<lparr>main_at := Connect_reply\<rparr>) = Connect_reply" by simp
  have run: "chat_run (replicate (length (l_up (links c0 ! 0))) (Server_reads 0)) c0 = Ok c" using c(5,6) by simp
  have "reads_answer (Connect_arrives b cenv) Connect_reply b" for b
    by (auto simp: reads_answer_def connect_env_ok_def cenv_def)
  with request_is_answered [OF c(1,2) 0 c(4)] run m c(1) show ?thesis by fastforce
qed

end
