(* ===== verification/Pro_Chat_Late.thy ===== *)
theory Pro_Chat_Late
  imports Pro_Chat_Spec
begin

text \<open>
  What becomes of a client of the chat whose read of an answer fails.  A read fails after three minutes,
  and at once when the user interrupts it: a handler does not restart a read on a socket that has a
  timeout.  The answer still comes, and is read for the next one.  And what becomes of messages that
  the server reads at once.
\<close>

text \<open>
  A client that gets no answer to its join request goes on all the same: two clients then work under
  one name.
\<close>

lemma failed_join_shares_name:
  "case chat_run [Opens ''amy'' ''10.0.0.9'', Server_reads 0, Reads_join 0, Opens ''amy'' ''10.0.0.7'', Join_fails 1] init_chat of
     Inl e \<Rightarrow> False
   | Inr c \<Rightarrow> map l_name (links c) = [''amy'', ''amy''] \<and> list_all at_work (links c)"
  by code_simp

text \<open>A list of which no byte was read is printed all the same, from behind its end.\<close>

lemma failed_list_read_overruns:
  assumes "main_at s = List_reply"
  shows "client_step n (List_arrives ([] # chunks)) s = ub Out_Of_Bounds"
  using assms by (simp add: client_step_def process_waiting_list_def list_shown_def print_waiting_list_def)

text \<open>
  A list that comes in pieces with a pause of three minutes between them: the client shows what came, and
  the rest is read as the answer to its next request.  Here names of waiting clients are taken for an
  address and a port, and the client connects to a machine that has nothing to do with the chat.
\<close>

definition four_waiting :: "client_t list" where
  "four_waiting = map (\<lambda>n. \<lparr>client = n, ip = ''10.0.0.7'', port = 4001\<rparr>) [''bob'', ''carl'', ''134744072'', ''80'']"

lemma partial_list_connects_elsewhere:
  assumes "main_at s = List_reply" "my_state s = CLIENT_STATE_NORMAL" "connect_env_ok ce"
    and "q \<noteq> []" "q \<noteq> n"
  shows "list_reply four_waiting = ''l:'' @ ''bob:carl:134744072:80::''"
    and "\<exists>s1 os1 os2 s3. client_step n (List_arrives [''l:'', []]) s = Ok (s1, os1)
      \<and> client_step n (Line (Some (''/connect '' @ q)) e) s1 = Ok (s1\<lparr>main_at := Connect_reply\<rparr>, os2)
      \<and> client_step n (Connect_arrives ''bob:carl:134744072:80::'' ce) (s1\<lparr>main_at := Connect_reply\<rparr>)
          = Ok (s3, [Connect_to ''134744072'' 80])"
proof -
  show "list_reply four_waiting = ''l:'' @ ''bob:carl:134744072:80::''"
    by (simp add: list_reply_def four_waiting_def)
  let ?s1 = "s\<lparr>main_at := Prompt\<rparr>"
  have "process_waiting_list [''l:'', []] = Ok (Some [])" by code_simp
  then have 1: "client_step n (List_arrives [''l:'', []]) s = Ok (?s1, [])" using assms(1) by (simp add: client_step_def)
  have "strtok '' '' (''/connect'' @ CHR '' '' # q) = (Some ''/connect'', q)" by (rule strtok_token) auto
  then have 2: "client_step n (Line (Some (''/connect '' @ q)) e) ?s1 = Ok (?s1\<lparr>main_at := Connect_reply\<rparr>,
      [To_Server (with_nul (command_text (Connect n q)))])"
    using assms(2,4,5)
    by (simp add: client_step_def process_line_def process_command_def connect_command_def strtok_none
        should_command_work_with_state_def format_cmds wire_def zbuf_def with_nul_def)
  have r: "reply_tokens ''bob:carl:134744072:80::'' = (Some ''carl'', Some ''134744072'', Some ''80'')" "atoi ''80'' = 80"
    by code_simp+
  have b: "\<not> buf_is (zbuf BUFFER_SIZE ''bob:carl:134744072:80::'') ''c::''"
    "cstr (zbuf BUFFER_SIZE ''bob:carl:134744072:80::'') = Ok ''bob:carl:134744072:80::''"
    by (simp add: buf_is_def zbuf_def BUFFER_SIZE_def, simp add: cstr_zbuf_string BUFFER_SIZE_def)
  have "client_step n (Connect_arrives ''bob:carl:134744072:80::'' ce) (?s1\<lparr>main_at := Connect_reply\<rparr>)
      = res_bind (connect_peer (Some ''134744072'') 80 ce (?s1\<lparr>main_at := Connect_reply\<rparr>))
          (\<lambda>(s1, os). Ok (s1\<lparr>main_at := Prompt\<rparr>, os))"
    by (simp add: client_step_def connect_after_process_def b r)
  then have "\<exists>s3. client_step n (Connect_arrives ''bob:carl:134744072:80::'' ce) (?s1\<lparr>main_at := Connect_reply\<rparr>)
      = Ok (s3, [Connect_to ''134744072'' 80])"
    by (simp add: connect_peer_good [OF assms(3)])
  with 1 2 show "\<exists>s1 os1 os2 s3. client_step n (List_arrives [''l:'', []]) s = Ok (s1, os1)
      \<and> client_step n (Line (Some (''/connect '' @ q)) e) s1 = Ok (s1\<lparr>main_at := Connect_reply\<rparr>, os2)
      \<and> client_step n (Connect_arrives ''bob:carl:134744072:80::'' ce) (s1\<lparr>main_at := Connect_reply\<rparr>)
          = Ok (s3, [Connect_to ''134744072'' 80])" by blast
qed

text \<open>A late address is one block of 1024 bytes, too many for the loop that reads a list.\<close>

lemma late_address_overruns_list:
  assumes "main_at s = List_reply" "entry_ok w"
  shows "client_step n (List_arrives (zbuf SERVER_BUFF_SIZE (peer_text w) # chunks)) s = ub Out_Of_Bounds"
proof -
  have "length (peer_text w) < SERVER_BUFF_SIZE" "peer_text w \<noteq> []"
    using assms(2) length_show_int32 [of "port w"]
    by (auto simp: peer_text_def entry_ok_def name_ok_def addr_ok_def handler_defs)
  then have "BUFFER_SIZE \<le> length (zbuf SERVER_BUFF_SIZE (peer_text w))" "zbuf SERVER_BUFF_SIZE (peer_text w) \<noteq> []"
    by (simp_all add: zbuf_def BUFFER_SIZE_def SERVER_BUFF_SIZE_def)
  then show ?thesis using assms(1) by (simp add: client_step_def process_waiting_list_def)
qed

text \<open>The line that asks for a peer, in any state at the prompt.\<close>

lemma connect_line_asks:
  assumes "main_at s = Prompt" "my_state s = CLIENT_STATE_NORMAL" "q \<noteq> []" "q \<noteq> n"
  shows "client_step n (Line (Some (''/connect '' @ q)) e) s = Ok
    (s\<lparr>main_at := Connect_reply\<rparr>, [To_Server (with_nul (command_text (Connect n q)))])"
proof -
  have "strtok '' '' (''/connect'' @ CHR '' '' # q) = (Some ''/connect'', q)" by (rule strtok_token) auto
  with assms show ?thesis
    by (simp add: client_step_def process_line_def process_command_def connect_command_def strtok_none
        should_command_work_with_state_def format_cmds wire_def zbuf_def with_nul_def)
qed

lemma connect_read_fails:
  "main_at s = Connect_reply \<Longrightarrow> client_step n (Connect_arrives [] e) s = Ok (s\<lparr>main_at := Prompt\<rparr>, [])"
  by (simp add: client_step_def connect_after_process_def)

text \<open>After the failed read and the next question the earlier answer is still the next to be read.\<close>

lemma asks_again:
  assumes "i < length (links c)" "l_program (links c ! i) = Running s" "main_at s = Connect_reply"
    and "my_state s = CLIENT_STATE_NORMAL" "l_down (links c ! i) = [b]" "b \<noteq> []" "q \<noteq> []" "q \<noteq> l_name (links c ! i)"
  shows "\<exists>c'. chat_run [Reads_part i (Connect_arrives [] e), Acts i (Line (Some (''/connect '' @ q)) e')] c = Ok c'
    \<and> l_program (links c' ! i) = Running s
    \<and> l_up (links c' ! i) = l_up (links c ! i) @ [with_nul (command_text (Connect (l_name (links c ! i)) q))]
    \<and> l_down (links c' ! i) = [b]"
proof -
  let ?n = "l_name (links c ! i)" and ?s = "s\<lparr>main_at := Prompt\<rparr>"
  have same: "?s\<lparr>main_at := Connect_reply\<rparr> = s" using assms(3) by simp
  have fails: "acts_with takes_part (Connect_arrives [] e) (links c ! i) = (links c ! i)\<lparr>l_program := Running ?s\<rparr>"
    using assms(2,3,5,6) connect_read_fails [OF assms(3)] by (simp add: acts_with_def takes_part_def)
  have "client_step ?n (Line (Some (''/connect '' @ q)) e') ?s = Ok (s, [To_Server (with_nul (command_text (Connect ?n q)))])"
    using connect_line_asks [of ?s q ?n e'] assms(4,7,8) same by simp
  then have asks: "acts (Line (Some (''/connect '' @ q)) e') ((links c ! i)\<lparr>l_program := Running ?s\<rparr>)
      = (links c ! i)\<lparr>l_program := Running s,
          l_up := l_up (links c ! i) @ [with_nul (command_text (Connect ?n q))]\<rparr>"
    by (simp add: acts_def acts_with_def takes_def)
  show ?thesis using assms(1,5) fails asks by (simp add: chat_step_def at_link_def del: append_Cons)
qed

text \<open>
  Property C8.  An answer that comes late is taken for the next one: when the read of the answer to a
  connect request fails and the user then asks for another peer, whoever that is, the client connects
  to the peer of the first request, and before the server has seen the second.
\<close>

theorem late_answer_connects:
  assumes "chat_run evs init_chat = Ok c" "\<forall>ev \<in> set evs. chat_event_ok ev"
    and "i < length (links c)" "l_program (links c ! i) = Running s" "main_at s = Connect_reply"
    and "my_state s = CLIENT_STATE_NORMAL" "l_down (links c ! i) = [b]" "b \<noteq> with_nul ''c::''"
    and "q \<noteq> []" "q \<noteq> l_name (links c ! i)" "connect_env_ok ce"
  shows "\<exists>w c' s'. entry_ok w \<and> genuine (links c) w \<and> b = zbuf SERVER_BUFF_SIZE (peer_text w)
    \<and> chat_run [Reads_part i (Connect_arrives [] e), Acts i (Line (Some (''/connect '' @ q)) e')] c = Ok c'
    \<and> srv c' = srv c \<and> l_program (links c' ! i) = Running s \<and> l_down (links c' ! i) = [b]
    \<and> last (l_up (links c' ! i)) = with_nul (command_text (Connect (l_name (links c ! i)) q))
    \<and> client_step (l_name (links c ! i)) (Connect_arrives b ce) s = Ok (s', [Connect_to (ip w) (port w mod 65536)])"
proof -
  have ok: "chat_ok True c" using run_ok(1) assms(1,2) by blast
  have "at_work (links c ! i)" using assms(4,5) by (simp add: at_work_def)
  from at_workE [OF chat_link [OF ok assms(3)] this] assms(4,5,7)
  have "peer_answer (genuine (links c)) b" by (force simp: in_sync_def)
  then obtain w where w: "entry_ok w" "genuine (links c) w" "b = zbuf SERVER_BUFF_SIZE (peer_text w)"
    using assms(8) by (auto simp: peer_answer_def)
  have "b \<noteq> []" by (simp add: w(3) zbuf_def peer_text_def)
  from asks_again [OF assms(3-7) this assms(9,10)] obtain c' where c':
    "chat_run [Reads_part i (Connect_arrives [] e), Acts i (Line (Some (''/connect '' @ q)) e')] c = Ok c'"
    "l_program (links c' ! i) = Running s" "l_down (links c' ! i) = [b]"
    "last (l_up (links c' ! i)) = with_nul (command_text (Connect (l_name (links c ! i)) q))" by fastforce
  moreover have "srv c' = srv c" using c'(1) by (auto simp: chat_step_def at_link_def res_simps)
  moreover obtain s' where "client_step (l_name (links c ! i)) (Connect_arrives b ce) s = Ok (s', [Connect_to (ip w) (port w mod 65536)])"
    using connect_reply [OF w(1)] connect_peer_good [OF assms(11)] w(3) assms(5) by (simp add: client_step_def)
  ultimately show ?thesis using w by blast
qed

theorem late_answer_connects_witness:
  "\<exists>c c' s'. chat_run [Reads_part 0 (Connect_arrives [] cenv), Acts 0 (Line (Some ''/connect carl'') wenv)] c = Ok c'
    \<and> last (l_up (links c' ! 0)) = with_nul ''c:amy:carl:''
    \<and> client_step ''amy'' (Connect_arrives (zbuf SERVER_BUFF_SIZE (peer_text bob)) cenv) (start_state\<lparr>main_at := Connect_reply\<rparr>)
        = Ok (s', [Connect_to ''10.0.0.7'' 4001])"
proof -
  obtain evs c0 c s' where c: "chat_run evs init_chat = Ok c0" "\<forall>ev \<in> set evs. chat_event_ok ev" "length (links c0) = 2"
    "l_program (links c0 ! 0) = Running (start_state\<lparr>main_at := Connect_reply\<rparr>)" "length (l_up (links c0 ! 0)) = 1"
    "chat_run [Server_reads 0] c0 = Ok c" "length (links c) = 2"
    "l_peer (links c ! 0) = ''10.0.0.9''" "l_peer (links c ! 1) = ''10.0.0.7''" "l_name (links c ! 0) = ''amy''"
    "l_program (links c ! 0) = Running (start_state\<lparr>main_at := Connect_reply\<rparr>)"
    "l_down (links c ! 0) = [zbuf SERVER_BUFF_SIZE (peer_text bob)]"
    "client_step ''amy'' (Connect_arrives (zbuf SERVER_BUFF_SIZE (peer_text bob)) cenv) (start_state\<lparr>main_at := Connect_reply\<rparr>)
      = Ok (s', [Connect_to ''10.0.0.7'' 4001])" by (rule amy_reads_answer)
  have run: "chat_run (evs @ [Server_reads 0]) init_chat = Ok c" using c(1,6) by (simp only: chat_run_append res_bind_simps)
  have ev: "\<forall>ev \<in> set (evs @ [Server_reads 0]). chat_event_ok ev" using c(2) by (simp add: chat_event_ok_def)
  have i: "0 < length (links c)" using c(7) by simp
  have s: "main_at (start_state\<lparr>main_at := Connect_reply\<rparr>) = Connect_reply"
    "my_state (start_state\<lparr>main_at := Connect_reply\<rparr>) = CLIENT_STATE_NORMAL" by (simp_all add: start_state_def)
  have b: "zbuf SERVER_BUFF_SIZE (peer_text bob) \<noteq> with_nul ''c::''"
    by (simp add: zbuf_def with_nul_def peer_text_def bob_def)
  have "connect_env_ok cenv" by (simp add: connect_env_ok_def cenv_def)
  from late_answer_connects [OF run ev i c(11) s c(12) b _ _ this, of "''carl''" cenv wenv] c(10,13)
  show ?thesis by simp blast
qed

section \<open>Messages that arrive together\<close>

text \<open>
  A read may return several messages, of which all but the first are lost (\<open>merged_messages_lost\<close>).  So
  a client that waits and is interrupted before the server has read its request stays in the table,
  while its state is normal.
\<close>

lemma lost_farewell:
  assumes "server_ok s" "distinct (names s)" "addr_ok a" "command_ok (Wait n p)"
    and "command_bytes (Wait n p) = Ok wait_msg" "command_bytes (LeaveWait n) = Ok leave_msg"
  shows "\<exists>s'. handle a (wait_msg @ leave_msg) s = Ok (s', [], True)
    \<and> waiting s' = waiting s @ [\<lparr>client = n, ip = a, port = p\<rparr>]"
proof -
  have "wait_msg = with_nul (command_text (Wait n p))" using command_bytes_text [OF assms(4)] assms(5) by simp
  then have "handle a (wait_msg @ leave_msg) s = handle a wait_msg s"
    by (intro merged_messages_lost) (simp add: with_nul_def)
  moreover obtain s' where "handle a wait_msg s = Ok (s', [], True)" "waiting s' = waiting s @ [\<lparr>client = n, ip = a, port = p\<rparr>]"
    using handle_simulates [OF assms(1-4) _ command_arrives [OF assms(4,5)]] by (auto simp: registry_of_def)
  ultimately show ?thesis by simp
qed

end
