(* ===== verification/Pro_Talk.thy ===== *)
theory Pro_Talk
  imports Pro_Client_Spec
begin

text \<open>
  Two clients of \<^verbatim>\<open>pro/src/client.c\<close> that talk: what one shows of the lines typed at the other, and
  how a talk ends for both.  The receiving thread's buffer is memory here, 1024 bytes that hold whatever
  the stack held before: a state of \<open>Pro_Client\<close> whose receiver knows all of them.
\<close>

section \<open>What the known bytes of a buffer say\<close>

text \<open>
  \<open>Pro_Client\<close> keeps only the bytes a receiver has written.  Where that is enough to print, every
  memory prints the same; where it is not, what is printed depends on the memory.
\<close>

definition shown :: "string \<Rightarrow> char list \<Rightarrow> out" where
  "shown n text = Print (newline @ text @ newline @ n @ ''> '')"

lemma peer_read_step:
  assumes "i < length (receivers t)" "m \<noteq> []"
  shows "client_step n (Peer_read i m) t =
    res_bind (known_string (overwrite (receivers t ! i) m)) (\<lambda>text.
      Ok (t\<lparr>receivers := (receivers t)[i := overwrite (receivers t ! i) m]\<rparr>, [shown n text]))"
  using assms by (simp add: client_step_def peer_receive_def shown_def Let_def)

lemma known_string_mono:
  assumes "known_string known = Ok text"
  shows "known_string (known @ rest) = Ok text"
  using assms by (auto simp: known_string_def takeWhile_append split: if_splits)

lemma known_string_Ok_iff:
  assumes "length known < room"
  shows "known_string known = Ok text \<longleftrightarrow>
    (\<forall>rest. length known + length rest = room \<longrightarrow> known_string (known @ rest) = Ok text)"
proof
  assume "known_string known = Ok text"
  with known_string_mono show "\<forall>rest. length known + length rest = room \<longrightarrow> known_string (known @ rest) = Ok text" by blast
next
  assume all: "\<forall>rest. length known + length rest = room \<longrightarrow> known_string (known @ rest) = Ok text"
  let ?k = "room - length known"
  have "known_string (known @ replicate ?k NUL) = Ok text" "known_string (known @ replicate ?k (CHR ''x'')) = Ok text"
    using all assms by simp_all
  then show "known_string known = Ok text" using assms
    by (auto simp: known_string_def takeWhile_append split: if_splits)
qed

section \<open>What is shown of a message\<close>

lemma nth_overwrite:
  "length m < length buf \<Longrightarrow> p < length buf \<Longrightarrow> overwrite buf m ! p = (if p < length m then m ! p else buf ! p)"
  by (simp add: overwrite_def nth_append)

lemma length_overwrite [simp]: "length m < length buf \<Longrightarrow> length (overwrite buf m) = length buf"
  by (simp add: overwrite_def)

text \<open>A byte of the buffer is zero when it was at first and no message has reached it.\<close>

lemma zero_after:
  assumes "\<forall>m \<in> set ms. no_nul m \<and> length m < length mem" "p < length mem"
  shows "foldl overwrite mem ms ! p = NUL \<longleftrightarrow> mem ! p = NUL \<and> (\<forall>m \<in> set ms. length m \<le> p)"
  using assms
proof (induction ms arbitrary: mem)
  case (Cons m ms)
  then have m: "no_nul m" "length m < length mem" by simp_all
  have "m ! p \<noteq> NUL" if "p < length m" using m(1) nth_mem [OF that] by (metis no_nul_def)
  with nth_overwrite [OF m(2)] Cons.prems(2)
  have "overwrite mem m ! p = NUL \<longleftrightarrow> mem ! p = NUL \<and> length m \<le> p" by auto
  moreover have "foldl overwrite (overwrite mem m) ms ! p = NUL
      \<longleftrightarrow> overwrite mem m ! p = NUL \<and> (\<forall>m \<in> set ms. length m \<le> p)"
    using Cons.IH [of "overwrite mem m"] Cons.prems m by simp
  ultimately show ?case by auto
qed simp

lemma length_after:
  "\<forall>m \<in> set ms. length m < length mem \<Longrightarrow> length (foldl overwrite mem ms) = length mem"
  by (induction ms arbitrary: mem) simp_all

lemma text_exact:
  assumes "no_nul m" "length m < length buf"
  shows "takeWhile (\<lambda>c. c \<noteq> NUL) (overwrite buf m) = m \<longleftrightarrow> buf ! length m = NUL"
proof -
  have all: "\<forall>c \<in> set m. c \<noteq> NUL" using assms(1) by (auto simp: no_nul_def)
  have "drop (length m) buf = buf ! length m # drop (Suc (length m)) buf" using assms(2) by (rule Cons_nth_drop_Suc [symmetric])
  then have "takeWhile (\<lambda>c. c \<noteq> NUL) (overwrite buf m)
      = m @ takeWhile (\<lambda>c. c \<noteq> NUL) (buf ! length m # drop (Suc (length m)) buf)"
    using all by (simp add: overwrite_def takeWhile_append)
  then show ?thesis by simp
qed

text \<open>With a zero byte at its end the buffer always holds a string.\<close>

definition terminated :: "char list \<Rightarrow> bool" where
  "terminated buf \<longleftrightarrow> length buf = BUFFER_SIZE \<and> last buf = NUL"

lemma terminated_overwrite:
  assumes "terminated buf" "length m < BUFFER_SIZE"
  shows "terminated (overwrite buf m)" "known_string (overwrite buf m) = Ok (takeWhile (\<lambda>c. c \<noteq> NUL) (overwrite buf m))"
proof -
  have "drop (length m) buf \<noteq> []" "buf \<noteq> []" using assms by (auto simp: terminated_def BUFFER_SIZE_def)
  then show t: "terminated (overwrite buf m)" using assms by (simp add: terminated_def overwrite_def)
  then have "overwrite buf m \<noteq> []" "last (overwrite buf m) = NUL" by (auto simp: terminated_def BUFFER_SIZE_def)
  then have "NUL \<in> set (overwrite buf m)" using last_in_set by metis
  then show "known_string (overwrite buf m) = Ok (takeWhile (\<lambda>c. c \<noteq> NUL) (overwrite buf m))"
    by (simp add: known_string_def)
qed

lemma reads_defined:
  assumes "i < length (receivers t)" "terminated (receivers t ! i)" "\<forall>m \<in> set ms. m \<noteq> [] \<and> length m < BUFFER_SIZE"
  shows "\<exists>t' os. client_run n (map (Peer_read i) ms) t = Ok (t', os)"
  using assms
proof (induction ms arbitrary: t)
  case (Cons m ms)
  let ?t = "t\<lparr>receivers := (receivers t)[i := overwrite (receivers t ! i) m]\<rparr>"
  have m: "m \<noteq> []" "length m < BUFFER_SIZE" using Cons.prems(3) by simp_all
  obtain t' os where "client_run n (map (Peer_read i) ms) ?t = Ok (t', os)"
    using Cons.IH [of ?t] Cons.prems terminated_overwrite(1) [OF Cons.prems(2) m(2)] by auto
  then show ?case
    using peer_read_step [OF Cons.prems(1) m(1)] terminated_overwrite(2) [OF Cons.prems(2) m(2)] by simp
qed simp

text \<open>The outputs of a receiving thread, one for each read.\<close>

lemma reads_show:
  assumes "client_run n (map (Peer_read i) ms) t = Ok (t', os)" "i < length (receivers t)" "\<forall>m \<in> set ms. m \<noteq> []"
  shows "os = map (\<lambda>k. shown n (takeWhile (\<lambda>c. c \<noteq> NUL) (overwrite (foldl overwrite (receivers t ! i) (take k ms)) (ms ! k))))
    [0..<length ms]"
  using assms
proof (induction ms arbitrary: t os)
  case (Cons m ms)
  let ?buf = "overwrite (receivers t ! i) m" and ?text = "takeWhile (\<lambda>c. c \<noteq> NUL)"
  let ?t = "t\<lparr>receivers := (receivers t)[i := ?buf]\<rparr>"
  from Cons.prems obtain os' where os': "client_run n (map (Peer_read i) ms) ?t = Ok (t', os')"
    "os = shown n (?text ?buf) # os'"
    by (auto simp: peer_read_step res_simps known_string_def split: if_splits)
  have "os' = map (\<lambda>k. shown n (?text (overwrite (foldl overwrite ?buf (take k ms)) (ms ! k)))) [0..<length ms]"
    using Cons.IH [OF os'(1)] Cons.prems(2,3) by simp
  moreover have "[0..<length (m # ms)] = 0 # map Suc [0..<length ms]" by (simp add: upt_conv_Cons map_Suc_upt del: upt_Suc)
  ultimately show ?case using os'(2) by (simp del: upt_Suc)
qed simp

section \<open>What is sent of a line\<close>

definition talk_text :: "string \<Rightarrow> string \<Rightarrow> string" where
  "talk_text n line = n @ '': '' @ line @ newline"

text \<open>A line that is no command.\<close>

definition plain :: "string \<Rightarrow> bool" where
  "plain line \<longleftrightarrow> no_nul line \<and> (line = [] \<or> hd line \<noteq> CHR ''/'')"

lemma plain_line_step:
  assumes "plain line" "main_at s = Prompt"
  shows "client_step n (Line (Some line) e) s = talk_line n line s"
  using assms by (auto simp: plain_def client_step_def process_line_def)

lemma talk_line_sends:
  assumes "my_state s = CLIENT_STATE_TALKING" "0 < talk_fd s"
  shows "talk_line n line s =
    (if length (talk_text n line) < BUFFER_SIZE then Ok (s, [To_Peer (talk_fd s) (talk_text n line)]) else ub Out_Of_Bounds)"
  using assms by (simp add: talk_line_def send_msg_to_peer_def talk_text_def cstore_def)

lemma lines_sent:
  assumes "client_run n (map (\<lambda>line. Line (Some line) e) lines) s = Ok (s', os)" "\<forall>line \<in> set lines. plain line"
    and "main_at s = Prompt" "my_state s = CLIENT_STATE_TALKING" "0 < talk_fd s"
  shows "s' = s \<and> os = map (\<lambda>line. To_Peer (talk_fd s) (talk_text n line)) lines
    \<and> (\<forall>line \<in> set lines. length (talk_text n line) < BUFFER_SIZE)"
  using assms(1,2)
proof (induction lines arbitrary: os)
  case (Cons line lines)
  then show ?case
    using assms(3-5) plain_line_step [of line s n e] talk_line_sends [of s n line]
    by (auto simp: res_simps split: if_splits)
qed simp

text \<open>
  Property C18.  What a client shows of the lines typed at its peer: read one by one into a buffer of
  any contents, a line is shown as it was typed exactly when no earlier line was longer and the byte
  behind it was zero from the start; otherwise it is followed by what is left there.
\<close>

theorem talk_shows_lines:
  assumes "client_run a (map (\<lambda>line. Line (Some line) e) lines) s = Ok (s', sent)"
    and "main_at s = Prompt" "my_state s = CLIENT_STATE_TALKING" "0 < talk_fd s"
    and "\<forall>line \<in> set lines. plain line" "no_nul a"
    and "i < length (receivers t)" "length (receivers t ! i) = BUFFER_SIZE"
    and "client_run b (map (\<lambda>m. case m of To_Peer fd bytes \<Rightarrow> Peer_read i bytes | _ \<Rightarrow> Peer_read i []) sent) t = Ok (t', os)"
    and "k < length lines"
  shows "length os = length lines
    \<and> (os ! k = shown b (talk_text a (lines ! k)) \<longleftrightarrow>
        receivers t ! i ! length (talk_text a (lines ! k)) = NUL \<and> (\<forall>j < k. length (lines ! j) \<le> length (lines ! k)))"
proof -
  let ?ms = "map (talk_text a) lines" and ?mem = "receivers t ! i"
  from lines_sent [OF assms(1,5,2-4)]
  have sent: "sent = map (\<lambda>line. To_Peer (talk_fd s) (talk_text a line)) lines"
    and fits: "\<forall>m \<in> set ?ms. length m < length ?mem" by (simp_all add: assms(8))
  have run: "client_run b (map (Peer_read i) ?ms) t = Ok (t', os)" using assms(9) by (simp add: sent comp_def)
  have ms: "\<forall>m \<in> set ?ms. m \<noteq> []" "\<forall>m \<in> set ?ms. no_nul m"
    using assms(5,6) by (auto simp: talk_text_def plain_def newline_def)
  note os = reads_show [OF run assms(7) ms(1)]
  have lines_k: "k < length ?ms" "?ms ! k = talk_text a (lines ! k)" using assms(10) by simp_all
  let ?buf = "foldl overwrite ?mem (take k ?ms)"
  have m: "no_nul (?ms ! k)" "length (?ms ! k) < length ?mem" using ms(2) fits nth_mem [OF lines_k(1)] by blast+
  have earlier: "\<forall>m \<in> set (take k ?ms). no_nul m \<and> length m < length ?mem"
    using ms(2) fits by (meson in_set_takeD)
  then have len: "length ?buf = length ?mem" using length_after by blast
  have "os ! k = shown b (takeWhile (\<lambda>c. c \<noteq> NUL) (overwrite ?buf (?ms ! k)))" using os lines_k(1) by simp
  then have "os ! k = shown b (?ms ! k) \<longleftrightarrow> ?buf ! length (?ms ! k) = NUL"
    using text_exact [OF m(1), of ?buf] m(2) len by (simp add: shown_def)
  also have "\<dots> \<longleftrightarrow> ?mem ! length (?ms ! k) = NUL \<and> (\<forall>m \<in> set (take k ?ms). length m \<le> length (?ms ! k))"
    by (rule zero_after [OF earlier m(2)])
  also have "(\<forall>m \<in> set (take k ?ms). length m \<le> length (?ms ! k)) \<longleftrightarrow> (\<forall>j < k. length (lines ! j) \<le> length (lines ! k))"
    using assms(10) by (auto simp: all_set_conv_all_nth talk_text_def)
  finally show ?thesis using os lines_k(2) by simp
qed

section \<open>The two ends of a talk\<close>

text \<open>
  A party: its name, its client, its descriptor of the connection, the bytes that have arrived there,
  whether it has shut the connection down (also by ending its process), and, as history, the outputs of
  its receiving thread's last read, which returned nothing.  \<open>True\<close> is the party that called.
\<close>

record party =
  p_name :: string
  p_client :: client_g
  p_fd :: int
  p_in :: "char list"
  p_shut :: bool
  p_end :: "out list option"

type_synonym talk = "bool \<Rightarrow> party"

datatype talk_event =
    Says bool event     \<comment> \<open>the user's input or interrupt at one party\<close>
  | Gets bool nat       \<comment> \<open>its receiving thread reads: so many bytes, or the end of the connection\<close>

definition gone :: "party \<Rightarrow> bool" where
  "gone p \<longleftrightarrow> main_at (p_client p) = Returned"

definition sent_to_peer :: "int \<Rightarrow> out list \<Rightarrow> char list" where
  "sent_to_peer fd os = concat (map (\<lambda>a. case a of To_Peer d bytes \<Rightarrow> if d = fd then bytes else [] | _ \<Rightarrow> []) os)"

text \<open>What is written to a connection that either party has left is lost.\<close>

definition says :: "bool \<Rightarrow> event \<Rightarrow> talk \<Rightarrow> talk res" where
  "says b ev t =
    (let p = t b; q = t (\<not> b)
     in res_bind (client_step (p_name p) ev (p_client p)) (\<lambda>(s, os).
          let left = p_shut p \<or> Shutdown_fd (p_fd p) \<in> set os \<or> main_at s = Returned;
              bytes = (if p_shut p \<or> p_shut q then [] else sent_to_peer (p_fd p) os)
          in Ok (t(b := p\<lparr>p_client := s, p_shut := left\<rparr>, \<not> b := q\<lparr>p_in := p_in q @ bytes\<rparr>))))"

text \<open>
  The thread's \<open>read\<close> blocks while the connection is open and nothing has arrived; what has arrived
  before it was shut down can still be read.
\<close>

definition gets :: "bool \<Rightarrow> nat \<Rightarrow> talk \<Rightarrow> talk res" where
  "gets b n t =
    (let p = t b
     in if gone p \<or> receivers (p_client p) = [] then Ok t
        else if p_in p \<noteq> [] then
          res_bind (client_step (p_name p) (Peer_read 0 (take n (p_in p))) (p_client p)) (\<lambda>(s, os).
            Ok (t(b := p\<lparr>p_client := s, p_in := drop n (p_in p)\<rparr>)))
        else if p_shut p \<or> p_shut (t (\<not> b)) then
          res_bind (client_step (p_name p) (Peer_read 0 []) (p_client p)) (\<lambda>(s, os).
            Ok (t(b := p\<lparr>p_client := s, p_end := Some os\<rparr>)))
        else Ok t)"

definition talk_step :: "talk_event \<Rightarrow> talk \<Rightarrow> talk res" where
  "talk_step ev t = (case ev of Says b e \<Rightarrow> says b e t | Gets b n \<Rightarrow> gets b n t)"

fun talk_run :: "talk_event list \<Rightarrow> talk \<Rightarrow> talk res" where
  "talk_run [] t = Ok t"
| "talk_run (ev # evs) t = res_bind (talk_step ev t) (talk_run evs)"

text \<open>
  A talk begins: the clients are as \<open>__connect_peer__\<close> and \<open>__listen_receive__\<close> leave them, with no
  receiving thread of an earlier talk, and the new one's buffer is in memory.
\<close>

definition begins :: "party \<Rightarrow> bool" where
  "begins p \<longleftrightarrow> my_state (p_client p) = CLIENT_STATE_TALKING \<and> main_at (p_client p) = Prompt \<and> fromwait (p_client p) = 1
    \<and> talk_fd (p_client p) = p_fd p \<and> 0 < p_fd p \<and> (\<exists>mem. receivers (p_client p) = [mem] \<and> terminated mem)
    \<and> p_in p = [] \<and> \<not> p_shut p \<and> p_end p = None \<and> no_nul (p_name p)"

lemma begin_caller:
  assumes "connect_peer a pt e s = Ok (s', os)" "receivers s = []" "terminated mem" "main_at s = Connect_reply"
    and "0 < c_socket e" "no_nul n"
  shows "begins \<lparr>p_name = n, p_client = s'\<lparr>main_at := Prompt, receivers := [mem]\<rparr>, p_fd = c_socket e, p_in = [],
    p_shut = False, p_end = None\<rparr>"
  using assms by (auto simp: begins_def connect_peer_Ok_iff)

lemma begin_called:
  assumes "listen_select i 1 fd 0 s = Ok (s', os)" "receivers s = []" "terminated mem" "main_at s = Prompt" "0 < fd" "no_nul n"
  shows "begins \<lparr>p_name = n, p_client = s'\<lparr>receivers := [mem]\<rparr>, p_fd = fd, p_in = [], p_shut = False, p_end = None\<rparr>"
  using assms by (auto simp: begins_def listen_select_def create_receive_thread_Ok_iff res_simps)

text \<open>
  Lines that fit the message buffer and are no commands but the one to quit, interrupts, and reads of
  at most 1023 bytes: a read that fills the buffer leaves no string in it.
\<close>

definition talk_event_ok :: "(bool \<Rightarrow> string) \<Rightarrow> talk_event \<Rightarrow> bool" where
  "talk_event_ok name ev \<longleftrightarrow>
    (case ev of
       Says b (Line (Some line) e) \<Rightarrow> line = ''/quit'' \<or> plain line \<and> length (talk_text (name b) line) < BUFFER_SIZE
     | Says b Interrupt \<Rightarrow> True
     | Says b _ \<Rightarrow> False
     | Gets b n \<Rightarrow> 0 < n \<and> n < BUFFER_SIZE)"

subsection \<open>Where a party is\<close>

datatype stage = Talks | Leaves_talk | Out | Gone

definition at_stage :: "party \<Rightarrow> stage \<Rightarrow> bool" where
  "at_stage p g \<longleftrightarrow>
    (case g of
       Talks \<Rightarrow> my_state (p_client p) = CLIENT_STATE_TALKING \<and> main_at (p_client p) = Prompt \<and> fromwait (p_client p) = 1
         \<and> talk_fd (p_client p) = p_fd p \<and> 0 < p_fd p \<and> (\<exists>buf. receivers (p_client p) = [buf] \<and> terminated buf)
         \<and> \<not> p_shut p \<and> p_end p = None
     | Leaves_talk \<Rightarrow> my_state (p_client p) = CLIENT_STATE_NORMAL \<and> main_at (p_client p) = Prompt \<and> fromwait (p_client p) \<noteq> 1
         \<and> (\<exists>buf. receivers (p_client p) = [buf] \<and> terminated buf) \<and> p_shut p \<and> p_end p = None
     | Out \<Rightarrow> my_state (p_client p) = CLIENT_STATE_NORMAL \<and> main_at (p_client p) = Prompt \<and> receivers (p_client p) = []
         \<and> p_end p = Some (if p_shut p then [] else [shown (p_name p) ''peer chatter has left!''])
     | Gone \<Rightarrow> gone p \<and> p_shut p)"

lemma at_stage_in [simp]: "at_stage (p\<lparr>p_in := x\<rparr>) g \<longleftrightarrow> at_stage p g"
  by (simp add: at_stage_def gone_def split: stage.split)

lemma begins_talks: "begins p \<Longrightarrow> at_stage p Talks"
  by (simp add: begins_def at_stage_def)

lemma gone_step: "main_at s = Returned \<Longrightarrow> (\<exists>x e. ev = Line x e) \<or> ev = Interrupt \<Longrightarrow> client_step n ev s = Ok (s, [])"
  by (auto simp: client_step_def)

lemma quit_line:
  assumes "main_at s = Prompt" "my_state s \<noteq> CLIENT_STATE_WAITING"
  shows "\<exists>os. client_step n (Line (Some ''/quit'') e) s = Ok (s\<lparr>fromwait := 0, main_at := Returned\<rparr>, os)"
proof -
  have "strtok '' '' ''/quit'' = (Some ''/quit'', [])" by (simp add: strtok_last)
  with assms show ?thesis
    by (simp add: client_step_def process_line_def process_command_def quit_command_def format_cmds
        should_command_work_with_state_def) (cases "my_state s"; simp)
qed

lemma interrupt_talks:
  assumes "main_at s \<noteq> Returned" "my_state s = CLIENT_STATE_TALKING"
  shows "\<exists>os. client_step n Interrupt s = Ok (s\<lparr>fromwait := 0, my_state := CLIENT_STATE_NORMAL\<rparr>, os) \<and> Shutdown_fd (talk_fd s) \<in> set os"
  using assms INThandler_Ok_iff [of n s] by (simp add: client_step_def)

lemma interrupt_idle:
  assumes "main_at s \<noteq> Returned" "my_state s = CLIENT_STATE_NORMAL"
  shows "client_step n Interrupt s = Ok (s, [])"
proof -
  have "INThandler n s = Inr (s\<lparr>my_state := CLIENT_STATE_NORMAL\<rparr>, [])" using assms(2) by (subst INThandler_Ok_iff) simp
  moreover have "s\<lparr>my_state := CLIENT_STATE_NORMAL\<rparr> = s" using assms(2) by simp
  ultimately show ?thesis using assms(1) by (simp add: client_step_def)
qed

lemma plain_line_idle:
  "plain line \<Longrightarrow> main_at s = Prompt \<Longrightarrow> my_state s = CLIENT_STATE_NORMAL \<Longrightarrow>
    client_step n (Line (Some line) e) s = Ok (s, [Print invalid_input_msg])"
  using plain_line_step [of line s n e] by (simp add: talk_line_def)

definition after_says :: "party \<Rightarrow> client_g \<Rightarrow> out list \<Rightarrow> party" where
  "after_says p s os = p\<lparr>p_client := s, p_shut := p_shut p \<or> Shutdown_fd (p_fd p) \<in> set os \<or> main_at s = Returned\<rparr>"

text \<open>What a user can do in a talk.\<close>

lemma says_cases:
  assumes "talk_event_ok name (Says b ev)"
  obtains e where "ev = Line (Some ''/quit'') e"
    | l e where "ev = Line (Some l) e" "plain l" "length (talk_text (name b) l) < BUFFER_SIZE"
    | "ev = Interrupt"
  using assms by (auto simp: talk_event_ok_def split: event.splits option.splits)

lemma quits_stage:
  assumes "main_at (p_client p) = Prompt" "my_state (p_client p) \<noteq> CLIENT_STATE_WAITING" "ev = Line (Some ''/quit'') e"
  shows "\<exists>s os. client_step (p_name p) ev (p_client p) = Ok (s, os) \<and> at_stage (after_says p s os) Gone"
  using quit_line [OF assms(1,2), of "p_name p" e] assms(3) by (auto simp: after_says_def at_stage_def gone_def)

text \<open>A party that no longer talks stays where it is, or quits.\<close>

lemma idle_stage:
  assumes "at_stage p g" "g = Leaves_talk \<or> g = Out" "talk_event_ok name (Says b ev)"
  shows "\<exists>s os g'. client_step (p_name p) ev (p_client p) = Ok (s, os) \<and> at_stage (after_says p s os) g' \<and> (g' = Out \<longrightarrow> g = Out)"
proof -
  have st: "my_state (p_client p) = CLIENT_STATE_NORMAL" "main_at (p_client p) = Prompt"
    using assms(1,2) by (auto simp: at_stage_def)
  have stay: "at_stage (after_says p (p_client p) os) g" if "\<forall>fd. Shutdown_fd fd \<notin> set os" for os
    using assms(1) st(2) that by (simp add: after_says_def)
  from assms(3) show ?thesis
  proof (cases rule: says_cases)
    case (1 e)
    with quits_stage [OF st(2) _ 1] st(1) show ?thesis by fastforce
  next
    case (2 l e)
    have "client_step (p_name p) ev (p_client p) = Ok (p_client p, [Print invalid_input_msg])"
      using plain_line_idle [OF 2(2) st(2,1)] 2(1) by simp
    with stay [of "[Print invalid_input_msg]"] show ?thesis by (intro exI conjI) auto
  next
    case 3
    have "client_step (p_name p) ev (p_client p) = Ok (p_client p, [])"
      using interrupt_idle [of "p_client p" "p_name p"] st 3 by simp
    with stay [of "[]"] show ?thesis by (intro exI conjI) auto
  qed
qed

lemma says_stage:
  assumes "at_stage p g" "talk_event_ok name (Says b ev)" "name b = p_name p"
  shows "\<exists>s os g'. client_step (p_name p) ev (p_client p) = Ok (s, os) \<and> at_stage (after_says p s os) g' \<and> (g' = Out \<longrightarrow> g = Out)"
proof (cases g)
  case Gone
  have "(\<exists>x e. ev = Line x e) \<or> ev = Interrupt" using assms(2) by (rule says_cases) auto
  then have "client_step (p_name p) ev (p_client p) = Ok (p_client p, [])"
    using assms(1) Gone by (intro gone_step) (simp_all add: at_stage_def gone_def)
  moreover have "at_stage (after_says p (p_client p) []) Gone"
    using assms(1) Gone by (simp add: after_says_def at_stage_def gone_def)
  ultimately show ?thesis using Gone by blast
next
  case Talks
  note st = assms(1) [unfolded Talks at_stage_def, simplified]
  from assms(2) show ?thesis
  proof (cases rule: says_cases)
    case (1 e)
    with quits_stage [OF _ _ 1] st show ?thesis by fastforce
  next
    case (2 l e)
    have "client_step (p_name p) ev (p_client p) = Ok (p_client p, [To_Peer (p_fd p) (talk_text (p_name p) l)])"
      using plain_line_step [OF 2(2), of "p_client p" "p_name p" e] talk_line_sends [of "p_client p" "p_name p" l] st 2 assms(3)
      by simp
    moreover have "at_stage (after_says p (p_client p) [To_Peer (p_fd p) (talk_text (p_name p) l)]) Talks"
      using st by (simp add: after_says_def at_stage_def)
    ultimately show ?thesis by blast
  next
    case 3
    with st obtain os where "client_step (p_name p) ev (p_client p) = Ok ((p_client p)\<lparr>fromwait := 0, my_state := CLIENT_STATE_NORMAL\<rparr>, os)"
      "Shutdown_fd (p_fd p) \<in> set os" using interrupt_talks [of "p_client p" "p_name p"] by auto
    moreover from this(2) have "at_stage (after_says p ((p_client p)\<lparr>fromwait := 0, my_state := CLIENT_STATE_NORMAL\<rparr>) os) Leaves_talk"
      using st by (simp add: after_says_def at_stage_def)
    ultimately show ?thesis by blast
  qed
qed (use idle_stage [OF assms(1) _ assms(2)] in auto)

text \<open>The receiving thread reads bytes, or the end of the connection.\<close>

lemma gets_stage:
  assumes "at_stage p g" "g = Talks \<or> g = Leaves_talk" "p_in p \<noteq> []" "0 < n" "n < BUFFER_SIZE"
  shows "\<exists>s os. client_step (p_name p) (Peer_read 0 (take n (p_in p))) (p_client p) = Ok (s, os)
    \<and> at_stage (p\<lparr>p_client := s, p_in := x\<rparr>) g"
proof -
  obtain buf where buf: "receivers (p_client p) = [buf]" "terminated buf" using assms(1,2) by (auto simp: at_stage_def)
  have m: "take n (p_in p) \<noteq> []" "length (take n (p_in p)) < BUFFER_SIZE" using assms(3-5) by auto
  let ?s = "(p_client p)\<lparr>receivers := [overwrite buf (take n (p_in p))]\<rparr>"
  have "\<exists>os. client_step (p_name p) (Peer_read 0 (take n (p_in p))) (p_client p) = Ok (?s, os)"
    using peer_read_step [OF _ m(1), of 0 "p_client p"] buf terminated_overwrite(2) [OF buf(2) m(2)] by simp
  moreover have "at_stage (p\<lparr>p_client := ?s, p_in := x\<rparr>) g"
    using assms(1,2) terminated_overwrite(1) [OF buf(2) m(2)] by (auto simp: at_stage_def)
  ultimately show ?thesis by blast
qed

lemma end_stage:
  assumes "at_stage p g" "g = Talks \<or> g = Leaves_talk"
  shows "\<exists>s os. client_step (p_name p) (Peer_read 0 []) (p_client p) = Ok (s, os) \<and> at_stage (p\<lparr>p_client := s, p_end := Some os\<rparr>) Out"
  using assms
  by (auto simp: at_stage_def client_step_def peer_receive_def without_def shown_def)

subsection \<open>Every run\<close>

definition talk_ok :: "(bool \<Rightarrow> string) \<Rightarrow> talk \<Rightarrow> bool" where
  "talk_ok name t \<longleftrightarrow> (\<forall>b. p_name (t b) = name b
    \<and> (\<exists>g. at_stage (t b) g \<and> (g = Out \<longrightarrow> p_shut (t b) \<or> p_shut (t (\<not> b)))))"

lemma talk_ok_stage:
  assumes "talk_ok name t"
  obtains g where "at_stage (t b) g" "g = Out \<longrightarrow> p_shut (t b) \<or> p_shut (t (\<not> b))" "p_name (t b) = name b"
  using assms by (auto simp: talk_ok_def)

text \<open>One party changes, and the other at most in what has arrived there.\<close>

lemma talk_ok_update:
  assumes "talk_ok name t" "at_stage p g" "p_name p = name b" "p_shut (t b) \<longrightarrow> p_shut p"
    and "g = Out \<longrightarrow> p_shut p \<or> p_shut (t (\<not> b))"
  shows "talk_ok name (t(b := p, \<not> b := (t (\<not> b))\<lparr>p_in := x\<rparr>))" "talk_ok name (t(b := p))"
proof -
  obtain g' where "at_stage (t (\<not> b)) g'" "g' = Out \<longrightarrow> p_shut (t (\<not> b)) \<or> p_shut (t b)" "p_name (t (\<not> b)) = name (\<not> b)"
    by (rule talk_ok_stage [OF assms(1), of "\<not> b"]) auto
  then show "talk_ok name (t(b := p, \<not> b := (t (\<not> b))\<lparr>p_in := x\<rparr>))" "talk_ok name (t(b := p))"
    using assms(2-5) unfolding talk_ok_def by (cases b; auto simp: all_bool_eq)+
qed

lemma says_keeps:
  assumes "talk_ok name t" "talk_event_ok name (Says b ev)"
  shows "\<exists>t'. says b ev t = Ok t' \<and> talk_ok name t'"
proof -
  obtain g where g: "at_stage (t b) g" "g = Out \<longrightarrow> p_shut (t b) \<or> p_shut (t (\<not> b))" "p_name (t b) = name b"
    by (rule talk_ok_stage [OF assms(1)])
  obtain s os g' where r: "client_step (p_name (t b)) ev (p_client (t b)) = Ok (s, os)"
    "at_stage (after_says (t b) s os) g'" "g' = Out \<longrightarrow> g = Out"
    using says_stage [OF g(1) assms(2)] g(3) by auto
  have "g' = Out \<longrightarrow> p_shut (after_says (t b) s os) \<or> p_shut (t (\<not> b))" using r(3) g(2) by (auto simp: after_says_def)
  from talk_ok_update(1) [OF assms(1) r(2) _ _ this] g(3) r(1) show ?thesis
    by (auto simp: says_def Let_def after_says_def)
qed

lemma gets_keeps:
  assumes "talk_ok name t" "0 < n" "n < BUFFER_SIZE"
  shows "\<exists>t'. gets b n t = Ok t' \<and> talk_ok name t'"
proof -
  obtain g where g: "at_stage (t b) g" "g = Out \<longrightarrow> p_shut (t b) \<or> p_shut (t (\<not> b))" "p_name (t b) = name b"
    by (rule talk_ok_stage [OF assms(1)])
  show ?thesis
  proof (cases "g = Talks \<or> g = Leaves_talk")
    case True
    then have on: "\<not> gone (t b)" "receivers (p_client (t b)) \<noteq> []" using g(1) by (auto simp: at_stage_def gone_def)
    show ?thesis
    proof (cases "p_in (t b) = []")
      case False
      obtain s os where r: "client_step (p_name (t b)) (Peer_read 0 (take n (p_in (t b)))) (p_client (t b)) = Ok (s, os)"
        "at_stage ((t b)\<lparr>p_client := s, p_in := drop n (p_in (t b))\<rparr>) g"
        using gets_stage [OF g(1) True False assms(2,3)] by blast
      from talk_ok_update(2) [OF assms(1) r(2)] g(2,3) r(1) on False show ?thesis by (simp add: gets_def Let_def)
    next
      case empty: True
      show ?thesis
      proof (cases "p_shut (t b) \<or> p_shut (t (\<not> b))")
        case shut: True
        obtain s os where r: "client_step (p_name (t b)) (Peer_read 0 []) (p_client (t b)) = Ok (s, os)"
          "at_stage ((t b)\<lparr>p_client := s, p_end := Some os\<rparr>) Out" using end_stage [OF g(1) True] by blast
        from talk_ok_update(2) [OF assms(1) r(2)] g(3) r(1) on empty shut show ?thesis by (simp add: gets_def Let_def)
      next
        case False
        with assms(1) on empty show ?thesis by (simp add: gets_def Let_def)
      qed
    qed
  next
    case False
    then have "g = Out \<or> g = Gone" by (cases g) auto
    with g(1) assms(1) show ?thesis by (auto simp: gets_def at_stage_def Let_def)
  qed
qed

lemma talk_run_keeps:
  "talk_ok name t \<Longrightarrow> \<forall>ev \<in> set evs. talk_event_ok name ev \<Longrightarrow> \<exists>t'. talk_run evs t = Ok t' \<and> talk_ok name t'"
proof (induction evs arbitrary: t)
  case (Cons ev evs)
  have "\<exists>t1. talk_step ev t = Ok t1 \<and> talk_ok name t1"
  proof (cases ev)
    case (Says b e)
    with says_keeps [OF Cons.prems(1), of b e] Cons.prems(2) show ?thesis by (simp add: talk_step_def)
  next
    case (Gets b n)
    with gets_keeps [OF Cons.prems(1), of n b] Cons.prems(2) show ?thesis by (simp add: talk_step_def talk_event_ok_def)
  qed
  with Cons show ?case by auto
qed simp

lemma talk_run_append: "talk_run (xs @ ys) t = res_bind (talk_run xs t) (talk_run ys)"
proof (induction xs arbitrary: t)
  case (Cons ev xs)
  then show ?case by (cases "talk_step ev t") simp_all
qed simp

subsection \<open>Its end\<close>

definition ended :: "party \<Rightarrow> bool" where
  "ended p \<longleftrightarrow> at_stage p Out \<or> at_stage p Gone"

lemma ended_gets: "ended (t b) \<Longrightarrow> talk_run (replicate k (Gets b n)) t = Ok t"
  by (induction k) (auto simp: ended_def talk_step_def gets_def at_stage_def)

text \<open>A party reads what has arrived and then the end.\<close>

lemma reads_out:
  assumes "talk_ok name t" "p_shut (t b) \<or> p_shut (t (\<not> b))" "length (p_in (t b)) \<le> k" "0 < n" "n < BUFFER_SIZE"
  shows "\<exists>t'. talk_run (replicate (Suc k) (Gets b n)) t = Ok t' \<and> talk_ok name t' \<and> ended (t' b)
    \<and> t' (\<not> b) = t (\<not> b) \<and> p_shut (t' b) = p_shut (t b)"
  using assms(1-3)
proof (induction k arbitrary: t)
  case k: 0
  obtain g where g: "at_stage (t b) g" by (rule talk_ok_stage [OF k(1)])
  obtain t' where t': "gets b n t = Ok t'" "talk_ok name t'" using gets_keeps [OF k(1) assms(4,5)] by blast
  have "ended (t' b) \<and> t' (\<not> b) = t (\<not> b) \<and> p_shut (t' b) = p_shut (t b)"
  proof (cases "g = Talks \<or> g = Leaves_talk")
    case True
    obtain s os where "client_step (p_name (t b)) (Peer_read 0 []) (p_client (t b)) = Ok (s, os)"
      "at_stage ((t b)\<lparr>p_client := s, p_end := Some os\<rparr>) Out" using end_stage [OF g True] by blast
    moreover have "\<not> gone (t b)" "receivers (p_client (t b)) \<noteq> []" using g True by (auto simp: at_stage_def gone_def)
    ultimately show ?thesis using t'(1) k(2,3) by (auto simp: gets_def Let_def ended_def)
  next
    case False
    then have "ended (t b)" using g by (cases g) (auto simp: ended_def)
    with ended_gets [of t b 1 n] t'(1) show ?thesis by (simp add: talk_step_def)
  qed
  with t' show ?case by (simp add: talk_step_def)
next
  case (Suc k)
  obtain g where g: "at_stage (t b) g" by (rule talk_ok_stage [OF Suc.prems(1)])
  show ?case
  proof (cases "ended (t b) \<or> p_in (t b) = []")
    case True
    then consider "ended (t b)" | "p_in (t b) = []" by blast
    then show ?thesis
    proof cases
      case 1
      with ended_gets Suc.prems(1) show ?thesis by blast
    next
      case 2
      then obtain t' where t': "talk_run (replicate (Suc k) (Gets b n)) t = Ok t'" "talk_ok name t'" "ended (t' b)"
        "t' (\<not> b) = t (\<not> b)" "p_shut (t' b) = p_shut (t b)" using Suc.IH [OF Suc.prems(1,2)] by auto
      have "replicate (Suc (Suc k)) (Gets b n) = replicate (Suc k) (Gets b n) @ replicate 1 (Gets b n)"
        by (simp only: replicate_add [symmetric]) simp
      then have "talk_run (replicate (Suc (Suc k)) (Gets b n)) t = Ok t'"
        using t'(1) ended_gets [of t' b 1 n, OF t'(3)] by (simp only: talk_run_append res_bind_simps)
      with t' show ?thesis by blast
    qed
  next
    case False
    then have on: "g = Talks \<or> g = Leaves_talk" using g by (cases g) (auto simp: ended_def)
    obtain s os where r: "client_step (p_name (t b)) (Peer_read 0 (take n (p_in (t b)))) (p_client (t b)) = Ok (s, os)"
      using gets_stage [OF g on _ assms(4,5)] False by blast
    let ?t = "t(b := (t b)\<lparr>p_client := s, p_in := drop n (p_in (t b))\<rparr>)"
    have "\<not> gone (t b)" "receivers (p_client (t b)) \<noteq> []" using g on by (auto simp: at_stage_def gone_def)
    then have step: "gets b n t = Ok ?t" using r False by (simp add: gets_def Let_def)
    have ok: "talk_ok name ?t" using step gets_keeps [OF Suc.prems(1) assms(4,5), of b] by simp
    have shut: "p_shut (?t b) \<or> p_shut (?t (\<not> b))" using Suc.prems(2) by simp
    have "length (p_in (?t b)) \<le> k" using Suc.prems(3) assms(4) by simp
    from Suc.IH [OF ok shut this] obtain t' where "talk_run (replicate (Suc k) (Gets b n)) ?t = Ok t' \<and> talk_ok name t'
      \<and> ended (t' b) \<and> t' (\<not> b) = ?t (\<not> b) \<and> p_shut (t' b) = p_shut (?t b)" by (rule exE)
    then show ?thesis using step by (simp add: talk_step_def)
  qed
qed

text \<open>The reads by which a party takes all that has arrived, and one more.\<close>

definition reads_all :: "bool \<Rightarrow> talk \<Rightarrow> talk_event list" where
  "reads_all b t = replicate (Suc (length (p_in (t b)))) (Gets b 1023)"

text \<open>A party at the end of a talk: it has quit, or is back in the normal state without its thread.\<close>

definition talk_over :: "party \<Rightarrow> bool" where
  "talk_over p \<longleftrightarrow> gone p
    \<or> my_state (p_client p) = CLIENT_STATE_NORMAL \<and> main_at (p_client p) = Prompt \<and> receivers (p_client p) = []
      \<and> p_end p = Some (if p_shut p then [] else [shown (p_name p) ''peer chatter has left!''])"

lemma ended_over: "ended p \<Longrightarrow> talk_over p"
  by (auto simp: ended_def at_stage_def talk_over_def)

lemma both_read_out:
  assumes "talk_ok name t" "p_shut (t True) \<or> p_shut (t False)"
  shows "\<exists>t'. talk_run (reads_all True t @ reads_all False t) t = Ok t' \<and> (\<forall>b. talk_over (t' b) \<and> p_shut (t' b) = p_shut (t b))"
proof -
  have n: "(0::nat) < 1023" "1023 < BUFFER_SIZE" by (simp_all add: BUFFER_SIZE_def)
  obtain t1 where t1: "talk_run (reads_all True t) t = Ok t1" "talk_ok name t1" "ended (t1 True)" "t1 False = t False"
    "p_shut (t1 True) = p_shut (t True)"
    using reads_out [OF assms(1) _ le_refl n, of True] assms(2) by (auto simp: reads_all_def)
  obtain t2 where t2: "talk_run (reads_all False t) t1 = Ok t2" "ended (t2 False)" "t2 True = t1 True"
    "p_shut (t2 False) = p_shut (t1 False)"
    using reads_out [OF t1(2) _ le_refl n, of False] assms(2) t1(4,5) by (auto simp: reads_all_def)
  from t1 t2 ended_over show ?thesis by (simp add: talk_run_append all_bool_eq)
qed

text \<open>
  Property C19.  How a talk ends.  Let the receive buffers of both clients, which nothing initialises,
  happen to end in a zero byte (C18 says what they show otherwise, and without any zero byte the first
  message is read past the buffer); let the users type only lines that fit the message buffer and are
  plain or \<^verbatim>\<open>/quit\<close>, or interrupt; and let no read fill the buffer of 1024 bytes.  Then in every such
  run nothing of the talk is undefined; both talk, each with its receiving thread, until one interrupts
  or quits; from then on, once both have read what had arrived, each has quit or is back in the normal
  state without its thread, and it was told that its peer has left exactly if it did not itself leave.
\<close>

theorem talk_ends_for_both:
  assumes "begins (t0 True)" "begins (t0 False)" "\<forall>ev \<in> set evs. talk_event_ok (\<lambda>b. p_name (t0 b)) ev"
  shows "\<exists>t. talk_run evs t0 = Ok t \<and>
    (if p_shut (t True) \<or> p_shut (t False)
     then \<exists>t'. talk_run (reads_all True t @ reads_all False t) t = Ok t' \<and> (\<forall>b. talk_over (t' b) \<and> p_shut (t' b) = p_shut (t b))
     else \<forall>b. my_state (p_client (t b)) = CLIENT_STATE_TALKING \<and> receivers (p_client (t b)) \<noteq> [])"
proof -
  have "talk_ok (\<lambda>b. p_name (t0 b)) t0"
    using begins_talks [OF assms(1)] begins_talks [OF assms(2)] by (auto simp: talk_ok_def all_bool_eq)
  from talk_run_keeps [OF this assms(3)] obtain t where t: "talk_run evs t0 = Ok t" "talk_ok (\<lambda>b. p_name (t0 b)) t" by blast
  have "my_state (p_client (t b)) = CLIENT_STATE_TALKING \<and> receivers (p_client (t b)) \<noteq> []"
    if "\<not> p_shut (t True)" "\<not> p_shut (t False)" for b
  proof -
    have open_b: "\<not> p_shut (t b')" for b' using that by (cases b') simp_all
    obtain g where g: "at_stage (t b) g" "g \<noteq> Out" using talk_ok_stage [OF t(2), of b] open_b by metis
    with open_b have "at_stage (t b) Talks" by (cases g) (auto simp: at_stage_def)
    then show ?thesis by (auto simp: at_stage_def)
  qed
  with t both_read_out [OF t(2)] show ?thesis by auto
qed

theorem talk_shows_lines_witness:
  "\<exists>t' os. client_run ''bob'' (map (Peer_read 0) [''amy: hello'' @ newline, ''amy: hi'' @ newline])
      (talk_state\<lparr>receivers := [replicate 1024 NUL]\<rparr>) = Ok (t', os)
    \<and> os ! 0 = shown ''bob'' (''amy: hello'' @ newline) \<and> os ! 1 \<noteq> shown ''bob'' (''amy: hi'' @ newline)"
proof -
  let ?t = "talk_state\<lparr>receivers := [replicate 1024 NUL]\<rparr>" and ?lines = "[''hello'', ''hi'']"
  let ?ms = "[''amy: hello'' @ newline, ''amy: hi'' @ newline]"
  have s: "main_at talk_state = Prompt" "my_state talk_state = CLIENT_STATE_TALKING" "0 < talk_fd talk_state"
    by (simp_all add: talk_state_def)
  have p: "\<forall>line \<in> set ?lines. plain line" "no_nul ''amy''" by (simp_all add: plain_def)
  have t: "0 < length (receivers ?t)" "length (receivers ?t ! 0) = BUFFER_SIZE" "terminated (receivers ?t ! 0)"
    by (simp_all add: terminated_def BUFFER_SIZE_def)
  have sent: "client_run ''amy'' (map (\<lambda>line. Line (Some line) wenv) ?lines) talk_state
      = Ok (talk_state, map (To_Peer 5) ?ms)"
    using s p(1) plain_line_step [OF _ s(1)] talk_line_sends [OF s(2,3)]
    by (simp add: talk_text_def BUFFER_SIZE_def newline_def) (simp add: talk_state_def)
  obtain t' os where run: "client_run ''bob'' (map (Peer_read 0) ?ms) ?t = Ok (t', os)"
    using reads_defined [OF t(1,3), of ?ms "''bob''"] by (simp only: BUFFER_SIZE_def newline_def) fastforce
  have "client_run ''bob'' (map (\<lambda>m. case m of To_Peer fd bytes \<Rightarrow> Peer_read 0 bytes | _ \<Rightarrow> Peer_read 0 [])
      (map (To_Peer 5) ?ms)) ?t = Ok (t', os)" using run by simp
  note exact = talk_shows_lines [OF sent s p t(1,2) this]
  from exact [of 0] exact [of 1] run show ?thesis by (auto simp: talk_text_def newline_def)
qed

definition amy_and_bob :: talk where
  "amy_and_bob b = \<lparr>p_name = (if b then ''amy'' else ''bob''), p_client = talk_state\<lparr>receivers := [replicate 1024 NUL]\<rparr>,
    p_fd = 5, p_in = [], p_shut = False, p_end = None\<rparr>"

theorem talk_ends_for_both_witness:
  "\<exists>t t'. talk_run [Says True (Line (Some ''hello'') wenv), Says False Interrupt] amy_and_bob = Ok t \<and> p_shut (t False)
    \<and> talk_run (reads_all True t @ reads_all False t) t = Ok t' \<and> talk_over (t' True) \<and> talk_over (t' False)"
proof -
  let ?evs = "[Says True (Line (Some ''hello'') wenv), Says False Interrupt]"
  have b: "begins (amy_and_bob b)" for b
    by (simp add: begins_def amy_and_bob_def talk_state_def terminated_def BUFFER_SIZE_def)
  have ev: "\<forall>ev \<in> set ?evs. talk_event_ok (\<lambda>b. p_name (amy_and_bob b)) ev"
    by (simp add: talk_event_ok_def plain_def amy_and_bob_def talk_text_def newline_def BUFFER_SIZE_def)
  obtain t where t: "talk_run ?evs amy_and_bob = Ok t"
    "if p_shut (t True) \<or> p_shut (t False)
     then \<exists>t'. talk_run (reads_all True t @ reads_all False t) t = Ok t' \<and> (\<forall>b. talk_over (t' b) \<and> p_shut (t' b) = p_shut (t b))
     else \<forall>b. my_state (p_client (t b)) = CLIENT_STATE_TALKING \<and> receivers (p_client (t b)) \<noteq> []"
    using talk_ends_for_both [OF b b ev] by blast
  have "p_shut (t False)"
    using t(1) by (auto simp: talk_step_def says_def Let_def res_simps client_step_def INThandler_Ok_iff amy_and_bob_def
        talk_state_def split: if_splits)
  with t show ?thesis by auto
qed

end
