(* ===== verification/Hw4_Array.thy ===== *)
theory Hw4_Array
  imports Dyn_Array Sockets
begin

text \<open>
  \<^verbatim>\<open>HW4/mydatastructure.c\<close>: the download client's list of servers, which grows, and its
  lists of jobs, stacks of a fixed capacity that \<open>addJobItem\<close> does not check.  A
  \<open>dealloc\<close> function returns the pointers it passes to \<open>free\<close>, \<open>None\<close> for NULL.
\<close>

section \<open>Data\<close>

definition SERVER_ADD_SIZE :: int where
  "SERVER_ADD_SIZE = 5"

record server_list_t =
  sl_array :: "sockaddr_in option list"
  sl_size :: int
  sl_occupied :: int

record job_item_t =
  job_id :: int
  file_name :: string
  file_start :: int
  file_end :: int

record job_list_t =
  jl_array :: "job_item_t option list"
  jl_size :: int
  jl_occupied :: int

section \<open>The list of servers\<close>

definition initServerListArray :: server_list_t where
  "initServerListArray =
    \<lparr>sl_array = replicate (nat SERVER_ADD_SIZE) None, sl_size = SERVER_ADD_SIZE, sl_occupied = 0\<rparr>"

definition addServerItem :: "server_list_t \<Rightarrow> sockaddr_in \<Rightarrow> server_list_t res" where
  "addServerItem a n =
    (let a1 = (if sl_size a = sl_occupied a
               then let n_size = SERVER_ADD_SIZE + sl_size a
                    in a\<lparr>sl_array := realloc (sl_array a) (nat n_size), sl_size := n_size\<rparr>
               else a)
     in res_bind (poke (sl_array a1) (sl_occupied a1) (Some n)) (\<lambda>arr.
          Ok (a1\<lparr>sl_array := arr, sl_occupied := sl_occupied a1 + 1\<rparr>)))"

definition getServerItem :: "server_list_t \<Rightarrow> int \<Rightarrow> sockaddr_in option res" where
  "getServerItem a idx = (if sl_occupied a \<le> idx then Ok None else peek (sl_array a) idx)"

definition removeServerItem :: "server_list_t \<Rightarrow> int \<Rightarrow> server_list_t res" where
  "removeServerItem a idx =
    (if idx < 0 \<or> sl_occupied a \<le> idx then Ok a
     else res_bind (shift_left (sl_array a) idx (sl_occupied a - 1)) (\<lambda>arr.
          Ok (a\<lparr>sl_array := arr, sl_occupied := sl_occupied a - 1\<rparr>)))"

function dealloc_servers_from :: "server_list_t \<Rightarrow> int \<Rightarrow> sockaddr_in option list res" where
  "dealloc_servers_from a t =
    (if t < sl_occupied a
     then res_bind (getServerItem a t) (\<lambda>n. res_bind (dealloc_servers_from a (t + 1)) (\<lambda>freed. Ok (n # freed)))
     else Ok [])"
  by pat_completeness auto
termination
  by (relation "measure (\<lambda>(a, t). nat (sl_occupied a - t))") auto

declare dealloc_servers_from.simps [simp del]

definition deallocServerList :: "server_list_t \<Rightarrow> sockaddr_in option list res" where
  "deallocServerList a = dealloc_servers_from a 0"

section \<open>The lists of jobs\<close>

text \<open>A negative size becomes a huge one: \<open>calloc\<close> fails and the zeroing writes through NULL.\<close>

definition initJobArray :: "int \<Rightarrow> job_list_t res" where
  "initJobArray job_size =
    (if job_size < 0 then ub Null_Pointer
     else Ok \<lparr>jl_array = replicate (nat job_size) None, jl_size = job_size, jl_occupied = 0\<rparr>)"

definition getJobItem :: "job_list_t \<Rightarrow> int \<Rightarrow> job_item_t option res" where
  "getJobItem a idx = peek (jl_array a) idx"

definition addJobItem :: "job_list_t \<Rightarrow> job_item_t \<Rightarrow> job_list_t res" where
  "addJobItem a item =
    res_bind (poke (jl_array a) (jl_occupied a) (Some item)) (\<lambda>arr.
      Ok (a\<lparr>jl_array := arr, jl_occupied := jl_occupied a + 1\<rparr>))"

definition removeJobItem :: "job_list_t \<Rightarrow> int \<Rightarrow> job_list_t res" where
  "removeJobItem a idx =
    (if idx < 0 \<or> jl_occupied a \<le> idx then Ok a
     else res_bind (shift_left (jl_array a) idx (jl_occupied a - 1)) (\<lambda>arr.
          Ok (a\<lparr>jl_array := arr, jl_occupied := jl_occupied a - 1\<rparr>)))"

text \<open>All slots are freed, those behind the occupied ones too.\<close>

function dealloc_jobs_from :: "job_list_t \<Rightarrow> int \<Rightarrow> job_item_t option list res" where
  "dealloc_jobs_from a t =
    (if t < jl_size a
     then res_bind (getJobItem a t) (\<lambda>n. res_bind (dealloc_jobs_from a (t + 1)) (\<lambda>freed. Ok (n # freed)))
     else Ok [])"
  by pat_completeness auto
termination
  by (relation "measure (\<lambda>(a, t). nat (jl_size a - t))") auto

declare dealloc_jobs_from.simps [simp del]

definition deallocJobList :: "job_list_t \<Rightarrow> job_item_t option list res" where
  "deallocJobList a = dealloc_jobs_from a 0"

definition pushJobItem :: "job_list_t \<Rightarrow> job_item_t \<Rightarrow> job_list_t res" where
  "pushJobItem a item = addJobItem a item"

definition popJobItem :: "job_list_t \<Rightarrow> (job_item_t option \<times> job_list_t) res" where
  "popJobItem a =
    (if jl_occupied a = 0 then Ok (None, a)
     else res_bind (getJobItem a (jl_occupied a - 1)) (\<lambda>n.
          res_bind (removeJobItem a (jl_occupied a - 1)) (\<lambda>a'. Ok (n, a'))))"

definition peekJobItem :: "job_list_t \<Rightarrow> job_item_t option res" where
  "peekJobItem a = (if jl_occupied a = 0 then Ok None else getJobItem a (jl_occupied a - 1))"

section \<open>Invariants and contents\<close>

definition slist_wf :: "server_list_t \<Rightarrow> bool" where
  "slist_wf a \<longleftrightarrow> sl_size a = int (length (sl_array a)) \<and> filled (sl_array a) (sl_occupied a)"

definition servers :: "server_list_t \<Rightarrow> sockaddr_in list" where
  "servers a = live (sl_array a) (sl_occupied a)"

definition jlist_wf :: "job_list_t \<Rightarrow> bool" where
  "jlist_wf a \<longleftrightarrow> jl_size a = int (length (jl_array a)) \<and> filled (jl_array a) (jl_occupied a)"

definition jobs :: "job_list_t \<Rightarrow> job_item_t list" where
  "jobs a = live (jl_array a) (jl_occupied a)"

definition job_room :: "job_list_t \<Rightarrow> job_item_t \<Rightarrow> bool" where
  "job_room a item \<longleftrightarrow> int (length (jobs a)) < jl_size a"

lemma slist_count: "slist_wf a \<Longrightarrow> sl_occupied a = int (length (servers a))"
  by (simp add: slist_wf_def servers_def int_length_live)

lemma jlist_count: "jlist_wf a \<Longrightarrow> jl_occupied a = int (length (jobs a))"
  by (simp add: jlist_wf_def jobs_def int_length_live)

lemma initServerListArray_wf: "slist_wf initServerListArray" "servers initServerListArray = []"
  by (simp_all add: slist_wf_def servers_def initServerListArray_def SERVER_ADD_SIZE_def)

lemma initJobArray_wf:
  "0 \<le> n \<Longrightarrow> \<exists>a. initJobArray n = Ok a \<and> jlist_wf a \<and> jobs a = [] \<and> jl_size a = n"
  by (simp add: initJobArray_def jlist_wf_def jobs_def)

lemma addServerItem_spec:
  assumes "slist_wf a"
  shows "\<exists>a'. addServerItem a x = Ok a' \<and> slist_wf a' \<and> servers a' = servers a @ [x]"
proof -
  define a1 where "a1 = (if sl_size a = sl_occupied a
    then a\<lparr>sl_array := realloc (sl_array a) (nat (SERVER_ADD_SIZE + sl_size a)),
           sl_size := SERVER_ADD_SIZE + sl_size a\<rparr>
    else a)"
  have a1: "slist_wf a1 \<and> servers a1 = servers a \<and> sl_occupied a1 < int (length (sl_array a1))"
    using assms grow_room [of "sl_array a" "sl_occupied a" SERVER_ADD_SIZE "sl_array a1"]
    by (auto simp: a1_def slist_wf_def servers_def SERVER_ADD_SIZE_def filled_bounds)
  then obtain arr where arr: "poke (sl_array a1) (sl_occupied a1) (Some x) = Ok arr"
    "length arr = length (sl_array a1)" "filled arr (sl_occupied a1 + 1)"
    "live arr (sl_occupied a1 + 1) = live (sl_array a1) (sl_occupied a1) @ [x]"
    using poke_append [of "sl_array a1" "sl_occupied a1" x] by (auto simp: slist_wf_def)
  have "addServerItem a x = Ok (a1\<lparr>sl_array := arr, sl_occupied := sl_occupied a1 + 1\<rparr>)"
    unfolding addServerItem_def Let_def a1_def [symmetric] using arr(1) by simp
  with arr a1 show ?thesis by (auto simp: slist_wf_def servers_def)
qed

lemma getServerItem_in:
  assumes "slist_wf a" "0 \<le> i" "i < int (length (servers a))"
  shows "getServerItem a i = Ok (Some (servers a ! nat i))"
proof -
  from assms have "i < sl_occupied a" "filled (sl_array a) (sl_occupied a)"
    using slist_count [OF assms(1)] by (simp_all add: slist_wf_def)
  then show ?thesis using peek_live assms(2) by (simp add: getServerItem_def servers_def)
qed

lemma removeServerItem_in:
  assumes "slist_wf a" "0 \<le> i" "i < int (length (servers a))"
  shows "\<exists>a'. removeServerItem a i = Ok a' \<and> slist_wf a'
    \<and> servers a' = take (nat i) (servers a) @ drop (Suc (nat i)) (servers a)"
proof -
  from assms have i: "i < sl_occupied a" and f: "filled (sl_array a) (sl_occupied a)"
    using slist_count [OF assms(1)] by (simp_all add: slist_wf_def)
  from shift_left_live [OF f assms(2) i] assms i show ?thesis
    by (auto simp: removeServerItem_def slist_wf_def servers_def)
qed

lemma removeServerItem_out:
  "slist_wf a \<Longrightarrow> i < 0 \<or> int (length (servers a)) \<le> i \<Longrightarrow> removeServerItem a i = Ok a"
  using slist_count [of a] by (auto simp: removeServerItem_def)

interpretation servers_array: growing_array slist_wf servers "\<lambda>_ _. True" addServerItem
  by unfold_locales (use addServerItem_spec in auto)

interpretation servers_store: removable_array slist_wf servers "\<lambda>_ _. True" addServerItem getServerItem
    removeServerItem
  by unfold_locales (simp_all add: getServerItem_in removeServerItem_in removeServerItem_out)

lemma addJobItem_spec:
  assumes "jlist_wf a" "job_room a x"
  shows "\<exists>a'. addJobItem a x = Ok a' \<and> jlist_wf a' \<and> jobs a' = jobs a @ [x]"
proof -
  have "filled (jl_array a) (jl_occupied a)" "jl_occupied a < int (length (jl_array a))"
    using assms jlist_count [OF assms(1)] by (simp_all add: jlist_wf_def job_room_def)
  from poke_append [OF this, of x] assms(1) show ?thesis
    by (auto simp: addJobItem_def jlist_wf_def jobs_def)
qed

text \<open>A full list: the write goes past the block.\<close>

lemma addJobItem_full: "jlist_wf a \<Longrightarrow> \<not> job_room a x \<Longrightarrow> addJobItem a x = ub Out_Of_Bounds"
  using jlist_count [of a] by (simp add: addJobItem_def poke_def job_room_def jlist_wf_def)

lemma getJobItem_in:
  assumes "jlist_wf a" "0 \<le> i" "i < int (length (jobs a))"
  shows "getJobItem a i = Ok (Some (jobs a ! nat i))"
proof -
  from assms have "i < jl_occupied a" "filled (jl_array a) (jl_occupied a)"
    using jlist_count [OF assms(1)] by (simp_all add: jlist_wf_def)
  then show ?thesis using peek_live assms(2) by (simp add: getJobItem_def jobs_def)
qed

lemma removeJobItem_in:
  assumes "jlist_wf a" "0 \<le> i" "i < int (length (jobs a))"
  shows "\<exists>a'. removeJobItem a i = Ok a' \<and> jlist_wf a'
    \<and> jobs a' = take (nat i) (jobs a) @ drop (Suc (nat i)) (jobs a)"
proof -
  from assms have i: "i < jl_occupied a" and f: "filled (jl_array a) (jl_occupied a)"
    using jlist_count [OF assms(1)] by (simp_all add: jlist_wf_def)
  from shift_left_live [OF f assms(2) i] assms i show ?thesis
    by (auto simp: removeJobItem_def jlist_wf_def jobs_def)
qed

lemma removeJobItem_out:
  "jlist_wf a \<Longrightarrow> i < 0 \<or> int (length (jobs a)) \<le> i \<Longrightarrow> removeJobItem a i = Ok a"
  using jlist_count [of a] by (auto simp: removeJobItem_def)

interpretation jobs_array: append_array jlist_wf jobs job_room addJobItem
  by unfold_locales (rule addJobItem_spec)

interpretation jobs_store: removable_array jlist_wf jobs job_room addJobItem getJobItem removeJobItem
  by unfold_locales (simp_all add: getJobItem_in removeJobItem_in removeJobItem_out)

lemma addJobItem_size: "addJobItem a x = Ok a' \<Longrightarrow> jl_size a' = jl_size a"
  by (auto simp: addJobItem_def res_simps)

lemma removeJobItem_size: "removeJobItem a i = Ok a' \<Longrightarrow> jl_size a' = jl_size a"
  by (auto simp: removeJobItem_def res_simps split: if_splits)

section \<open>The job lists are stacks\<close>

lemma popJobItem_empty: "jlist_wf a \<Longrightarrow> jobs a = [] \<Longrightarrow> popJobItem a = Ok (None, a)"
  using jlist_count [of a] by (simp add: popJobItem_def)

lemma popJobItem_snoc:
  assumes "jlist_wf a" "jobs a = xs @ [x]"
  shows "\<exists>a'. popJobItem a = Ok (Some x, a') \<and> jlist_wf a' \<and> jobs a' = xs \<and> jl_size a' = jl_size a"
proof -
  have n: "jl_occupied a = int (length xs) + 1" using jlist_count [OF assms(1)] assms(2) by simp
  obtain a' where "removeJobItem a (int (length xs)) = Ok a'" "jlist_wf a'" "jobs a' = xs"
    using jobs_store.remove_last [OF assms] by blast
  with n jobs_store.get_last [OF assms] removeJobItem_size show ?thesis
    by (auto simp: popJobItem_def)
qed

lemma peekJobItem_snoc: "jlist_wf a \<Longrightarrow> jobs a = xs @ [x] \<Longrightarrow> peekJobItem a = Ok (Some x)"
  using jlist_count [of a] jobs_store.get_last [of a xs x] by (simp add: peekJobItem_def)

text \<open>Taking the last server, as the workers do.\<close>

lemma last_server:
  assumes "slist_wf a" "servers a = xs @ [x]"
  shows "getServerItem a (sl_occupied a - 1) = Ok (Some x)
    \<and> (\<exists>a'. removeServerItem a (sl_occupied a - 1) = Ok a' \<and> slist_wf a' \<and> servers a' = xs)"
  using servers_store.get_last [OF assms] servers_store.remove_last [OF assms] slist_count [OF assms(1)]
    assms(2) by simp

section \<open>Freeing the lists\<close>

lemma dealloc_servers_all:
  assumes "slist_wf a"
  shows "deallocServerList a = Ok (map Some (servers a))"
proof -
  have "dealloc_servers_from a (int k) = Ok (map Some (drop k (servers a)))" for k
  proof (induction "length (servers a) - k" arbitrary: k)
    case 0
    then show ?case using slist_count [OF assms] by (simp add: dealloc_servers_from.simps [of a])
  next
    case (Suc d)
    then have k: "k < length (servers a)" by simp
    have "dealloc_servers_from a (int k + 1) = Ok (map Some (drop (Suc k) (servers a)))"
      using Suc(1) [of "Suc k"] Suc(2) by (simp add: add.commute)
    moreover have "drop k (servers a) = servers a ! k # drop (Suc k) (servers a)" using k by (simp add: Cons_nth_drop_Suc)
    ultimately show ?case
      using getServerItem_in [OF assms, of "int k"] slist_count [OF assms] k
      by (simp add: dealloc_servers_from.simps [of a "int k"])
  qed
  from this [of 0] show ?thesis by (simp add: deallocServerList_def)
qed

lemma dealloc_jobs_all:
  assumes "jlist_wf a"
  shows "deallocJobList a = Ok (jl_array a)"
proof -
  have size: "jl_size a = int (length (jl_array a))" using assms by (simp add: jlist_wf_def)
  have "dealloc_jobs_from a (int k) = Ok (drop k (jl_array a))" for k
  proof (induction "length (jl_array a) - k" arbitrary: k)
    case 0
    then show ?case by (simp add: dealloc_jobs_from.simps [of a] size)
  next
    case (Suc d)
    then have k: "k < length (jl_array a)" by simp
    have "dealloc_jobs_from a (int k + 1) = Ok (drop (Suc k) (jl_array a))"
      using Suc(1) [of "Suc k"] Suc(2) by (simp add: add.commute)
    with k show ?case
      by (simp add: dealloc_jobs_from.simps [of a "int k"] size getJobItem_def peek_def Cons_nth_drop_Suc)
  qed
  from this [of 0] show ?thesis by (simp add: deallocJobList_def)
qed

text \<open>A list to which items were only ever added holds NULL behind them, so nothing is freed twice.\<close>

definition no_stale :: "job_list_t \<Rightarrow> bool" where
  "no_stale a \<longleftrightarrow> (\<exists>k. jl_array a = map Some (jobs a) @ replicate k None)"

lemma init_no_stale: "initJobArray n = Ok a \<Longrightarrow> no_stale a"
  by (auto simp: initJobArray_def no_stale_def jobs_def split: if_splits)

lemma add_no_stale:
  assumes "jlist_wf a" "no_stale a" "addJobItem a x = Ok a'"
  shows "no_stale a'"
proof -
  have room: "job_room a x" using assms(1,3) addJobItem_full by (cases "job_room a x") auto
  obtain k where k: "jl_array a = map Some (jobs a) @ replicate k None" using assms(2) by (auto simp: no_stale_def)
  have n: "jl_occupied a = int (length (jobs a))" by (rule jlist_count [OF assms(1)])
  have "0 < k" using room assms(1) arg_cong [OF k, of length] by (simp add: job_room_def jlist_wf_def)
  then obtain k' where k': "k = Suc k'" by (cases k) auto
  have "jl_array a' = (jl_array a)[length (jobs a) := Some x]"
    using assms(3) n by (auto simp: addJobItem_def poke_def split: if_splits)
  moreover have "(map Some (jobs a) @ replicate (Suc k') None)[length (jobs a) := Some x] = map Some (jobs a @ [x]) @ replicate k' None"
    by (simp add: list_update_append)
  moreover have "jobs a' = jobs a @ [x]" using addJobItem_spec [OF assms(1) room] assms(3) by auto
  ultimately show ?thesis unfolding no_stale_def k k' by metis
qed

end
