(* ===== verification/Hw4_Server.thy ===== *)
theory Hw4_Server
  imports Sockets
begin

text \<open>
  \<^verbatim>\<open>HW4/server.c\<close> and \<^verbatim>\<open>HW4/myprotocol.h\<close>: the file server that answers
  handshakes and file queries over UDP and uploads a byte range of a file from a thread of its
  own.  The file system is a parameter: the contents \<open>fopen\<close> finds, the result of
  \<open>access\<close> and the size \<open>stat\<close> reports.
\<close>

section \<open>The protocol\<close>

definition UDP_BUFFER_SIZE :: nat where "UDP_BUFFER_SIZE = 1024"
definition UDP_DOWNLOAD :: string where "UDP_DOWNLOAD = ''DWN''"
definition UDP_CHECKFILE :: string where "UDP_CHECKFILE = ''CHK''"
definition UDP_HANDSHAKE :: string where "UDP_HANDSHAKE = ''HSK''"

lemmas udp_cmds = UDP_DOWNLOAD_def UDP_CHECKFILE_def UDP_HANDSHAKE_def

text \<open>A response as its receiver reads it: the two character fields are the strings they hold.\<close>

record server_response_t =
  resp_length :: int
  sequence_num :: int
  have_file_flag :: int
  content_is_end :: int
  resp_cmd :: string
  file_content :: string

definition blank_response :: server_response_t where
  "blank_response = \<lparr>resp_length = 0, sequence_num = 0, have_file_flag = 0, content_is_end = 0,
    resp_cmd = [], file_content = []\<rparr>"

section \<open>Uploading a range\<close>

definition content_response :: "int \<Rightarrow> string \<Rightarrow> server_response_t" where
  "content_response fin text =
    blank_response\<lparr>content_is_end := fin, resp_cmd := UDP_DOWNLOAD, file_content := text\<rparr>"

text \<open>
  The loop of \<open>upload\<close>; \<open>rest\<close> is the file from the reading position on.  A piece of
  \<open>UDP_BUFFER_SIZE\<close> bytes fills \<open>data\<close>, and without a zero byte among them \<open>strcpy\<close>
  runs past it.
\<close>

function upload_loop :: "char list \<Rightarrow> int \<Rightarrow> int \<Rightarrow> server_response_t list res" where
  "upload_loop rest start end_pos =
    (if start < end_pos
     then if \<not> fits_int64 (start + int UDP_BUFFER_SIZE) then ub Overflow
          else let (end_temp, fin) =
                 (if start + int UDP_BUFFER_SIZE - 1 < end_pos
                  then (start + int UDP_BUFFER_SIZE - 1, 0) else (end_pos, 1));
               n = nat (end_temp - start + 1)
          in res_bind (cstr (zbuf UDP_BUFFER_SIZE (take n rest))) (\<lambda>text.
             if \<not> fits_int64 (end_temp + 1) then ub Overflow
             else res_bind (upload_loop (drop n rest) (end_temp + 1) end_pos) (\<lambda>ps.
               Ok (content_response fin text # ps)))
     else Ok [])"
  by pat_completeness auto
termination
  by (relation "measure (\<lambda>(rest, start, end_pos). nat (end_pos - start))")
    (auto simp: UDP_BUFFER_SIZE_def split: if_splits)

declare upload_loop.simps [simp del]

text \<open>
  The upload thread.  \<open>sock\<close> and \<open>bind\<close> are the results of the two calls; a negative
  \<open>start\<close> makes \<open>fseek\<close> fail, and reading begins at the front.
\<close>

definition upload ::
    "int \<Rightarrow> int \<Rightarrow> (string \<Rightarrow> char list option) \<Rightarrow> string \<Rightarrow> int \<Rightarrow> int \<Rightarrow> server_response_t list res" where
  "upload sock bind fopen target_file start end_pos =
    (if sock < 0 then failHandler ''create socket error!''
     else case fopen target_file of
            None \<Rightarrow> failHandler ''open file error!''
          | Some content \<Rightarrow>
              if bind < 0 then failHandler ''bind socket error!''
              else upload_loop (if 0 \<le> start then drop (nat start) content else content) start end_pos)"

section \<open>The dispatch loop\<close>

datatype udp_action =
    Respond server_response_t
  | Start_upload string int int

definition on_check_file ::
    "(string \<Rightarrow> int) \<Rightarrow> (string \<Rightarrow> int option) \<Rightarrow> string \<Rightarrow> udp_action list res" where
  "on_check_file access stat_size saved =
    res_bind (deref (fst (strtok '' '' saved))) (\<lambda>target_file.
    res_bind (cstore UDP_BUFFER_SIZE target_file) (\<lambda>content.
      let r = blank_response\<lparr>resp_cmd := UDP_CHECKFILE, file_content := content\<rparr>
      in if hasFile access target_file \<noteq> 0
         then res_bind (file_length stat_size target_file) (\<lambda>n.
              Ok [Respond (r\<lparr>have_file_flag := 1, resp_length := n\<rparr>)])
         else Ok [Respond (r\<lparr>have_file_flag := - 1\<rparr>)]))"

definition on_download :: "string \<Rightarrow> udp_action list res" where
  "on_download saved =
    (let (target_file, r1) = strtok '' '' saved;
         (start_str, r2) = strtok '' '' r1;
         (end_str, _) = strtok '' '' r2
     in res_bind (deref start_str) (\<lambda>s.
        res_bind (deref end_str) (\<lambda>e.
        res_bind (deref target_file) (\<lambda>name.
        res_bind (cstore UDP_BUFFER_SIZE name) (\<lambda>target.
          Ok [Start_upload target (atol s) (atol e)])))))"

text \<open>One pass of the loop of \<open>main\<close>; \<open>None\<close> is a failed \<open>recvfrom\<close>.\<close>

definition on_datagram ::
    "(string \<Rightarrow> int) \<Rightarrow> (string \<Rightarrow> int option) \<Rightarrow> char list option \<Rightarrow> udp_action list res" where
  "on_datagram access stat_size dgram =
    (case dgram of
       None \<Rightarrow> Ok []
     | Some bytes \<Rightarrow>
         res_bind (cstr (zbuf UDP_BUFFER_SIZE bytes)) (\<lambda>read_buf.
           case strtok '' '' read_buf of (tok, saved) \<Rightarrow>
             res_bind (deref tok) (\<lambda>cmd.
               if cmd = UDP_CHECKFILE then on_check_file access stat_size saved
               else if cmd = UDP_HANDSHAKE then
                 Ok [Respond (blank_response\<lparr>resp_cmd := UDP_HANDSHAKE\<rparr>)]
               else if cmd = UDP_DOWNLOAD then on_download saved
               else Ok [])))"

definition server_checkParam :: "string list \<Rightarrow> unit res" where
  "server_checkParam argv =
    (if length argv \<noteq> 2
     then failHandler ''Please use server by correct input! usage: ./server <portnumber>''
     else if isValidPort (argv ! 1) = 0 then failHandler ''Please use legal port number!''
     else Ok ())"

section \<open>What an upload sends\<close>

lemma no_nul_take_drop: "no_nul s \<Longrightarrow> no_nul (take k (drop j s))"
  by (auto simp: no_nul_def dest: in_set_takeD in_set_dropD)

text \<open>A single piece shorter than the buffer.\<close>

lemma upload_loop_one:
  assumes "start < e" "e - start < int UDP_BUFFER_SIZE - 1" "no_nul rest"
    and "- (2 ^ 63) \<le> start" "start + int UDP_BUFFER_SIZE < 2 ^ 63"
  shows "upload_loop rest start e = Ok [content_response 1 (take (nat (e - start + 1)) rest)]"
proof -
  let ?n = "nat (e - start + 1)"
  have "no_nul (take ?n rest)" using no_nul_take_drop [of rest ?n 0] assms(3) by simp
  moreover have "?n < UDP_BUFFER_SIZE" using assms(1,2) by linarith
  then have "length (take ?n rest) < UDP_BUFFER_SIZE" by (simp add: min_less_iff_disj)
  ultimately have t: "cstr (zbuf UDP_BUFFER_SIZE (take ?n rest)) = Ok (take ?n rest)"
    by (rule cstr_zbuf_string)
  have f: "fits_int64 (start + int UDP_BUFFER_SIZE)" "fits_int64 (e + 1)"
    "\<not> start + int UDP_BUFFER_SIZE - 1 < e"
    using assms by (simp_all add: fits_int64_def)
  have "upload_loop (drop ?n rest) (e + 1) e = Ok []" by (simp add: upload_loop.simps)
  with assms(1) f t show ?thesis by (simp add: upload_loop.simps [of rest start e])
qed

text \<open>A piece that fills the buffer.\<close>

lemma upload_loop_full:
  assumes "int UDP_BUFFER_SIZE - 1 \<le> e - start" "no_nul rest" "UDP_BUFFER_SIZE \<le> length rest"
    and "- (2 ^ 63) \<le> start" "start + int UDP_BUFFER_SIZE < 2 ^ 63"
  shows "upload_loop rest start e = ub Unterminated"
proof -
  have "no_nul (take UDP_BUFFER_SIZE rest)" using no_nul_take_drop [of rest UDP_BUFFER_SIZE 0] assms(2) by simp
  then have "cstr (zbuf UDP_BUFFER_SIZE (take UDP_BUFFER_SIZE rest)) = ub Unterminated"
    using assms(3) by (simp add: cstr_zbuf no_nul_def)
  moreover have "start < e" "fits_int64 (start + int UDP_BUFFER_SIZE)"
    "e \<noteq> start + int UDP_BUFFER_SIZE - 1 \<Longrightarrow> start + int UDP_BUFFER_SIZE - 1 < e"
    using assms by (simp_all add: fits_int64_def UDP_BUFFER_SIZE_def)
  ultimately show ?thesis
    by (cases "e = start + int UDP_BUFFER_SIZE - 1") (auto simp: upload_loop.simps [of rest start])
qed

lemma upload_loop_empty: "e \<le> start \<Longrightarrow> upload_loop rest start e = Ok []"
  by (simp add: upload_loop.simps)

text \<open>The bytes from \<open>start\<close> to \<open>e\<close>, both included.\<close>

definition byte_range :: "char list \<Rightarrow> int \<Rightarrow> int \<Rightarrow> char list" where
  "byte_range content start e = take (nat (e - start + 1)) (drop (nat start) content)"

lemma upload_result:
  assumes "fopen f = Some content" "no_nul content" "0 \<le> sock" "0 \<le> bnd"
    and "0 \<le> start" "e < int (length content)" "length content < 2 ^ 62"
  shows "upload sock bnd fopen f start e =
    (if e \<le> start then Ok []
     else if e - start < int UDP_BUFFER_SIZE - 1 then Ok [content_response 1 (byte_range content start e)]
     else ub Unterminated)"
proof -
  have u: "upload sock bnd fopen f start e = upload_loop (drop (nat start) content) start e"
    using assms by (simp add: upload_def)
  have n: "no_nul (drop (nat start) content)" using assms(2) by (auto simp: no_nul_def dest: in_set_dropD)
  show ?thesis
  proof (cases "e \<le> start")
    case True
    then show ?thesis by (simp add: u upload_loop_empty)
  next
    case False
    then have b: "- (2 ^ 63) \<le> start" "start + int UDP_BUFFER_SIZE < 2 ^ 63"
      using assms(5,6,7) by (simp_all add: UDP_BUFFER_SIZE_def)
    show ?thesis
    proof (cases "e - start < int UDP_BUFFER_SIZE - 1")
      case True
      with False upload_loop_one [OF _ _ n b, of e] show ?thesis by (simp add: u byte_range_def)
    next
      case big: False
      then have "UDP_BUFFER_SIZE \<le> length (drop (nat start) content)" using assms(5,6) by simp
      with big False upload_loop_full [OF _ n _ b, of e] show ?thesis by (simp add: u)
    qed
  qed
qed

text \<open>\<open>main\<close> up to its receiving loop: the address it listens on.\<close>

definition udp_server_start :: "string list \<Rightarrow> int \<Rightarrow> int \<Rightarrow> sockaddr_in res" where
  "udp_server_start argv server_fd bound =
    res_bind (server_checkParam argv) (\<lambda>_.
      if server_fd < 0 then failHandler ''create socket error!''
      else if bound < 0 then failHandler ''bind socket error!''
      else Ok (init_address INADDR_ANY (atoi (argv ! 1))))"

end
