(* ===== verification/Hw4_Client.thy ===== *)
theory Hw4_Client
  imports Hw4_Array Hw4_Server
begin

text \<open>
  The sequential parts of \<^verbatim>\<open>HW4/client.c\<close>: reading the list of servers, dropping the
  dead ones, asking for the file, cutting it into jobs, downloading one job and putting the parts
  together.  What \<open>recvfrom\<close> returns is a list of responses, \<open>None\<close> for a timeout.
\<close>

section \<open>Reading the list of servers\<close>

text \<open>\<open>fscanf(fp, "%s\<dots>")\<close>: white space skipped, the word, the text behind it.\<close>

definition scan_word :: "string \<Rightarrow> string \<times> string" where
  "scan_word text =
    (let s = dropWhile is_space text in (takeWhile (\<lambda>c. \<not> is_space c) s, dropWhile (\<lambda>c. \<not> is_space c) s))"

text \<open>
  \<open>fscanf(fp, "%s%s", ip, port)\<close>: the two variables afterwards, the text left, and whether the
  end of the file was met.  A conversion that finds no word leaves its variable alone.
\<close>

definition scan_pair :: "string \<Rightarrow> string \<Rightarrow> string \<Rightarrow> string \<times> string \<times> string \<times> bool" where
  "scan_pair text addr port_s =
    (let (w1, r1) = scan_word text
     in if w1 = [] then (addr, port_s, [], True)
        else let (w2, r2) = scan_word r1
             in if w2 = [] then (w1, port_s, [], True) else (w1, w2, r2, r2 = []))"

lemma scan_word_shorter: "length (snd (scan_word t)) + length (fst (scan_word t)) \<le> length t"
proof -
  have "length (dropWhile is_space t) \<le> length t" by (simp add: length_dropWhile_le)
  moreover have "length (takeWhile P s) + length (dropWhile P s) = length s" for P and s :: string
    using length_append [of "takeWhile P s" "dropWhile P s"] by simp
  ultimately show ?thesis
    by (simp add: scan_word_def Let_def add.commute)
qed

lemma scan_pair_shorter:
  assumes "scan_pair t a p = (a', p', r, False)"
  shows "length r < length t"
proof -
  obtain w1 r1 where w1: "scan_word t = (w1, r1)" by force
  obtain w2 r2 where w2: "scan_word r1 = (w2, r2)" by force
  from assms have "w1 \<noteq> []" "r = r2"
    by (auto simp: scan_pair_def w1 w2 split: if_splits)
  moreover have "length r1 + length w1 \<le> length t" "length r2 + length w2 \<le> length r1"
    using scan_word_shorter [of t] scan_word_shorter [of r1] by (simp_all add: w1 w2)
  ultimately show ?thesis by (cases w1) auto
qed

definition server_address :: "32 word \<Rightarrow> string \<Rightarrow> sockaddr_in" where
  "server_address a port_s = \<lparr>sin_addr = a, sin_port = word_of_int (atoi port_s)\<rparr>"

text \<open>
  The loop of \<open>process_server_info\<close>.  \<open>addr\<close>, \<open>port_s\<close>, \<open>pre_addr\<close> and
  \<open>pre_port\<close> are its four arrays; the code does not initialise them, so their first contents
  are arguments.
\<close>

function read_servers ::
    "(string \<Rightarrow> 32 word option) \<Rightarrow> string \<Rightarrow> bool \<Rightarrow> string \<Rightarrow> string \<Rightarrow> string \<Rightarrow> string \<Rightarrow>
      server_list_t \<Rightarrow> server_list_t res" where
  "read_servers inet_aton text eof addr port_s pre_addr pre_port a =
    (if eof then Ok a
     else case scan_pair text addr port_s of (addr', port', rest, eof') \<Rightarrow>
       res_bind (cstore 100 addr') (\<lambda>_. res_bind (cstore 100 port') (\<lambda>_.
         if pre_port = port' \<and> pre_addr = addr'
         then read_servers inet_aton rest eof' addr' port' pre_addr pre_port a
         else case inet_aton addr' of
                None \<Rightarrow> failHandler ''init server port error!''
              | Some w \<Rightarrow> res_bind (addServerItem a (server_address w port')) (\<lambda>a'.
                  read_servers inet_aton rest eof' addr' port' addr' port' a'))))"
  by pat_completeness auto
termination
  by (relation "measure (\<lambda>(inet, text, eof, addr, rest). if eof then 0 else length text + 1)")
    (auto dest!: sym [of _ "scan_pair _ _ _"] scan_pair_shorter)

declare read_servers.simps [simp del]

definition process_server_info ::
    "(string \<Rightarrow> 32 word option) \<Rightarrow> (string \<Rightarrow> char list option) \<Rightarrow> string \<Rightarrow> string \<Rightarrow> string \<Rightarrow> string \<Rightarrow>
      string \<Rightarrow> server_list_t res" where
  "process_server_info inet_aton fopen info_list_file addr0 port0 pre_addr0 pre_port0 =
    (case fopen info_list_file of
       None \<Rightarrow> failHandler ''Read file fail!''
     | Some text \<Rightarrow> read_servers inet_aton text False addr0 port0 pre_addr0 pre_port0 initServerListArray)"

definition client_checkParam :: "(string \<Rightarrow> int) \<Rightarrow> string list \<Rightarrow> unit res" where
  "client_checkParam access argv =
    (if length argv \<noteq> 4 then
       failHandler ''Please use client by correct input! usage: ./client <server-info.txt> <num-connections> <filename>''
     else if hasFile access (argv ! 1) = 0 then failHandler ''Please input correct server-info.txt!''
     else if isNumber (argv ! 2) = 0 then failHandler ''Please input correct num-connections!''
     else Ok ())"

section \<open>Dropping dead servers\<close>

text \<open>
  \<open>verify_address_available\<close> over the results of its \<open>recvfrom\<close> calls: the list, the
  position, the servers asked in the passes these results end, and whether the loop has ended.
\<close>

fun verify_address_available ::
    "server_response_t option list \<Rightarrow> server_list_t \<Rightarrow> int \<Rightarrow> (server_list_t \<times> int \<times> sockaddr_in list \<times> bool) res" where
  "verify_address_available [] a t = Ok (a, t, [], \<not> t < sl_occupied a)"
| "verify_address_available (r # rs) a t =
    (if t < sl_occupied a
     then res_bind (getServerItem a t) (\<lambda>p. res_bind (deref p) (\<lambda>addr.
          res_bind
            (case r of
               None \<Rightarrow> res_bind (removeServerItem a t) (\<lambda>a'. Ok (a', t))
             | Some read_buf \<Rightarrow> Ok (a, if resp_cmd read_buf = UDP_HANDSHAKE then t + 1 else t))
            (\<lambda>(a', t'). res_bind (verify_address_available rs a' t') (\<lambda>(a'', t'', asked, ended).
               Ok (a'', t'', addr # asked, ended)))))
     else Ok (a, t, [], True))"

text \<open>
  \<open>query_file_exist\<close>: the list, and the value returned with the response that ended the loop,
  or \<open>None\<close> while it still waits.  It always asks the first server of the list.
\<close>

fun query_file_exist ::
    "string \<Rightarrow> server_response_t option list \<Rightarrow> server_list_t \<Rightarrow>
      (server_list_t \<times> (int \<times> server_response_t) option) res" where
  "query_file_exist target_file [] a =
    Ok (a, if 0 < sl_occupied a then None else Some (1, blank_response))"
| "query_file_exist target_file (r # rs) a =
    (if 0 < sl_occupied a
     then case r of
            None \<Rightarrow> res_bind (removeServerItem a 0) (query_file_exist target_file rs)
          | Some read_buf \<Rightarrow>
              if resp_cmd read_buf = UDP_CHECKFILE \<and> target_file = file_content read_buf
              then Ok (a, Some (0, read_buf)) else query_file_exist target_file rs a
     else Ok (a, Some (1, blank_response)))"

text \<open>The request: the name must fit the buffer behind the command.\<close>

definition query_request :: "string \<Rightarrow> char list res" where
  "query_request target_file =
    res_bind (cstore UDP_BUFFER_SIZE (UDP_CHECKFILE @ '' '' @ target_file)) (\<lambda>s. Ok (zbuf UDP_BUFFER_SIZE s))"

section \<open>Cutting the file into jobs\<close>

text \<open>\<open>total_size / job_num\<close> of C, which rounds towards zero.\<close>

definition c_div :: "int \<Rightarrow> int \<Rightarrow> int" where
  "c_div a b = sgn a * sgn b * (\<bar>a\<bar> div \<bar>b\<bar>)"

function create_jobs_from :: "int \<Rightarrow> int \<Rightarrow> string \<Rightarrow> int \<Rightarrow> int \<Rightarrow> job_list_t \<Rightarrow> job_list_t res" where
  "create_jobs_from i job_num name total_size single_length js =
    (if i < job_num
     then let item = \<lparr>job_id = i, file_name = name, file_start = i * single_length,
                      file_end = (if i = job_num - 1 then total_size - 1 else (i + 1) * single_length - 1)\<rparr>
          in res_bind (addJobItem js item) (\<lambda>js'.
               create_jobs_from (i + 1) job_num name total_size single_length js')
     else Ok js)"
  by pat_completeness auto
termination
  by (relation "measure (\<lambda>(i, job_num, _). nat (job_num - i))") auto

declare create_jobs_from.simps [simp del]

definition createJobsList :: "int \<Rightarrow> string \<Rightarrow> int \<Rightarrow> job_list_t res" where
  "createJobsList job_num name total_size =
    res_bind (initJobArray job_num) (\<lambda>js.
      if job_num = 0 then ub Division_By_Zero
      else create_jobs_from 0 job_num name total_size (c_div total_size job_num) js)"

text \<open>
  What \<open>main\<close> does with the answer to the query: the jobs to download, or none.  The flag is
  tested as a truth value, and the server's "no such file" is \<open>-1\<close>.
\<close>

definition plan_download :: "int \<Rightarrow> string \<Rightarrow> server_response_t \<Rightarrow> (job_list_t \<times> job_list_t) option res" where
  "plan_download chunk_num target_file read_buf =
    (if resp_cmd read_buf = UDP_CHECKFILE \<and> have_file_flag read_buf \<noteq> 0
     then res_bind (createJobsList chunk_num target_file (resp_length read_buf)) (\<lambda>chunk_jobs.
          res_bind (initJobArray chunk_num) (\<lambda>done_jobs. Ok (Some (chunk_jobs, done_jobs))))
     else Ok None)"

section \<open>Downloading a job\<close>

definition download_request :: "job_item_t \<Rightarrow> char list res" where
  "download_request job =
    res_bind (cstore UDP_BUFFER_SIZE
      (UDP_DOWNLOAD @ '' '' @ file_name job @ '' '' @ show_int (file_start job) @ '' '' @ show_int (file_end job)))
      (\<lambda>s. Ok (zbuf UDP_BUFFER_SIZE s))"

text \<open>
  The receiving loop: the value returned and the part file's contents, or \<open>None\<close> while it
  still waits.
\<close>

fun download_loop :: "server_response_t option list \<Rightarrow> string \<Rightarrow> (int \<times> string) option" where
  "download_loop [] written = None"
| "download_loop (None # rs) written = Some (1, written)"
| "download_loop (Some read_buf # rs) written =
    (if resp_cmd read_buf = UDP_DOWNLOAD
     then if content_is_end read_buf = 1 then Some (0, written @ file_content read_buf)
          else download_loop rs (written @ file_content read_buf)
     else download_loop rs written)"

definition part_name :: "int \<Rightarrow> string res" where
  "part_name i = cstore 15 (''temp.'' @ show_int i)"

text \<open>The part's name, the request sent, and the outcome of the loop.\<close>

definition udp_download_file ::
    "bool \<Rightarrow> server_response_t option list \<Rightarrow> job_item_t \<Rightarrow> (string \<times> char list \<times> (int \<times> string) option) res" where
  "udp_download_file can_open rs job =
    res_bind (part_name (job_id job)) (\<lambda>name.
      if \<not> can_open then failHandler ''Fail open file!''
      else res_bind (download_request job) (\<lambda>request. Ok (name, request, download_loop rs [])))"

section \<open>Putting the parts together\<close>

text \<open>
  The copying loop has a one-byte buffer, and \<open>buf[ret]\<close> with \<open>ret\<close> one is the byte behind it.
\<close>

fun copy_bytes :: "char list \<Rightarrow> char list res" where
  "copy_bytes [] = Ok []"
| "copy_bytes (c # cs) =
    res_bind (poke [c] 1 NUL) (\<lambda>buf. res_bind (peek buf 0) (\<lambda>b. res_bind (copy_bytes cs) (\<lambda>out. Ok (b # out))))"

function combine_from :: "(string \<Rightarrow> char list option) \<Rightarrow> int \<Rightarrow> int \<Rightarrow> char list res" where
  "combine_from fopen i chunk_num =
    (if i < chunk_num
     then res_bind (part_name i) (\<lambda>fn.
          case fopen fn of
            None \<Rightarrow> failHandler ''Fail open file!''
          | Some content \<Rightarrow> res_bind (copy_bytes content) (\<lambda>out.
              res_bind (combine_from fopen (i + 1) chunk_num) (\<lambda>out'. Ok (out @ out'))))
     else Ok [])"
  by pat_completeness auto
termination
  by (relation "measure (\<lambda>(fopen, i, chunk_num). nat (chunk_num - i))") auto

declare combine_from.simps [simp del]

definition combinefile :: "bool \<Rightarrow> (string \<Rightarrow> char list option) \<Rightarrow> int \<Rightarrow> char list res" where
  "combinefile can_open fopen chunk_num =
    (if \<not> can_open then failHandler ''Fail open file!'' else combine_from fopen 0 chunk_num)"

end
