(* ===== verification/Hw4_Spec.thy ===== *)
theory Hw4_Spec
  imports Hw4_Client
begin

text \<open>
  What the download client and its servers achieve together: the jobs tile the file, a request
  arrives as it was meant, which ranges an upload can send, and what becomes of a query for a file
  that is not there.
\<close>

section \<open>The jobs tile the file\<close>

definition job_at :: "int \<Rightarrow> string \<Rightarrow> int \<Rightarrow> nat \<Rightarrow> job_item_t" where
  "job_at n name tot k =
    \<lparr>job_id = int k, file_name = name, file_start = int k * c_div tot n,
     file_end = (if int k = n - 1 then tot - 1 else (int k + 1) * c_div tot n - 1)\<rparr>"

lemma create_jobs_from_result:
  "jlist_wf js \<Longrightarrow> jl_size js = n \<Longrightarrow> jobs js = map (job_at n f tot) [0..<nat i] \<Longrightarrow> 0 \<le> i \<Longrightarrow> i \<le> n \<Longrightarrow>
    \<exists>js'. create_jobs_from i n f tot (c_div tot n) js = Ok js' \<and> jlist_wf js' \<and> jl_size js' = n
      \<and> jobs js' = map (job_at n f tot) [0..<nat n]"
proof (induction "nat (n - i)" arbitrary: i js)
  case 0
  then have "i = n" by simp
  with 0 show ?case by (simp add: create_jobs_from.simps)
next
  case (Suc d)
  then have i: "i < n" by linarith
  let ?job = "\<lparr>job_id = i, file_name = f, file_start = i * c_div tot n,
    file_end = (if i = n - 1 then tot - 1 else (i + 1) * c_div tot n - 1)\<rparr>"
  have job: "?job = job_at n f tot (nat i)" using Suc.prems(4) by (simp add: job_at_def)
  have "job_room js ?job" using Suc.prems i by (simp add: job_room_def)
  then obtain js1 where js1: "addJobItem js ?job = Ok js1" "jlist_wf js1" "jobs js1 = jobs js @ [?job]"
    by (rule jobs_array.add_cases [OF Suc.prems(1)])
  have u: "[0..<nat (i + 1)] = [0..<nat i] @ [nat i]" using Suc.prems(4) by (simp add: nat_add_distrib)
  have "\<exists>js'. create_jobs_from (i + 1) n f tot (c_div tot n) js1 = Ok js' \<and> jlist_wf js' \<and> jl_size js' = n
      \<and> jobs js' = map (job_at n f tot) [0..<nat n]"
  proof (rule Suc.hyps(1))
    show "d = nat (n - (i + 1))" using Suc.hyps(2) by linarith
    show "jl_size js1 = n" using addJobItem_size [OF js1(1)] Suc.prems(2) by simp
    show "jobs js1 = map (job_at n f tot) [0..<nat (i + 1)]"
      using js1(3) Suc.prems(3) job u by simp
  qed (use js1 Suc.prems i in simp_all)
  moreover have "create_jobs_from i n f tot (c_div tot n) js =
      create_jobs_from (i + 1) n f tot (c_div tot n) js1"
    using i js1(1) by (simp add: create_jobs_from.simps [of i])
  ultimately show ?case by simp
qed

lemma createJobsList_result:
  assumes "0 < n"
  shows "\<exists>js. createJobsList n f tot = Ok js \<and> jlist_wf js \<and> jl_size js = n
    \<and> jobs js = map (job_at n f tot) [0..<nat n]"
proof -
  obtain js where js: "initJobArray n = Ok js" "jlist_wf js" "jobs js = []" "jl_size js = n"
    using initJobArray_wf [of n] assms by auto
  from create_jobs_from_result [OF js(2,4), of f tot 0] assms js(1,3) show ?thesis
    by (simp add: createJobsList_def)
qed

lemma concat_pieces: "concat (map (\<lambda>k. take s (drop (k * s) xs)) [0..<m]) = take (m * s) xs"
proof (induction m)
  case 0
  then show ?case by simp
next
  case (Suc m)
  moreover have "take (Suc m * s) xs = take (m * s) xs @ take s (drop (m * s) xs)"
    using take_add [of "m * s" s xs] by (simp add: add.commute)
  ultimately show ?case by (simp del: mult_Suc)
qed

lemma c_div_nonneg: "0 \<le> a \<Longrightarrow> 0 < b \<Longrightarrow> c_div a b = a div b"
  by (cases "a = 0") (simp_all add: c_div_def sgn_if)

lemma job_slice:
  assumes "0 < n" "tot = int (length content)" "k < nat n"
  shows "byte_range content (file_start (job_at n f tot k)) (file_end (job_at n f tot k)) =
    (if k = nat n - 1 then drop (k * nat (tot div n)) content
     else take (nat (tot div n)) (drop (k * nat (tot div n)) content))"
proof -
  let ?s = "tot div n"
  have s: "0 \<le> ?s" using assms by (simp add: pos_imp_zdiv_nonneg_iff)
  have c: "c_div tot n = ?s" using assms by (simp add: c_div_nonneg)
  have start: "nat (int k * ?s) = k * nat ?s" using s by (simp add: nat_mult_distrib)
  show ?thesis
  proof (cases "int k = n - 1")
    case True
    moreover have "k = nat n - 1" using True by linarith
    moreover have "length (drop (k * nat ?s) content) \<le> nat (tot - 1 - int k * ?s + 1)"
    proof -
      have "length content = nat tot" using assms(2) by simp
      then show ?thesis using s by (simp add: nat_diff_distrib' flip: start)
    qed
    ultimately show ?thesis
      using start by (simp add: byte_range_def job_at_def c)
  next
    case False
    moreover have "k \<noteq> nat n - 1" using False assms by linarith
    moreover have "(int k + 1) * ?s - 1 - int k * ?s + 1 = ?s" by (simp add: algebra_simps)
    ultimately show ?thesis
      using start by (simp add: byte_range_def job_at_def c)
  qed
qed

lemma slices_cover:
  assumes "0 < n" "tot = int (length content)"
  shows "concat (map (\<lambda>job. byte_range content (file_start job) (file_end job))
    (map (job_at n f tot) [0..<nat n])) = content"
proof -
  let ?s = "nat (tot div n)" and ?g = "\<lambda>job. byte_range content (file_start job) (file_end job)"
  obtain m where m: "nat n = Suc m" using assms(1) by (cases "nat n") auto
  have "?g (job_at n f tot k) = take ?s (drop (k * ?s) content)" if "k < m" for k
    using job_slice [OF assms, of k f] m that by simp
  moreover have "?g (job_at n f tot m) = drop (m * ?s) content"
    using job_slice [OF assms, of m f] m by simp
  ultimately have "map ?g (map (job_at n f tot) [0..<nat n])
      = map (\<lambda>k. take ?s (drop (k * ?s) content)) [0..<m] @ [drop (m * ?s) content]"
    by (simp add: m)
  then show ?thesis by (simp only: concat_append concat_pieces concat.simps append_Nil2 append_take_drop_id)
qed

section \<open>Requests arrive\<close>

text \<open>A file name a request can carry: one word that leaves room for the numbers.\<close>

definition name_clean :: "string \<Rightarrow> bool" where
  "name_clean f \<longleftrightarrow> f \<noteq> [] \<and> CHR '' '' \<notin> set f \<and> no_nul f \<and> length f \<le> 900"

lemma show_int_one_word: "show_int n \<noteq> []" "CHR '' '' \<notin> set (show_int n)" "no_nul (show_int n)"
  using show_int_clean [of n] show_int_chars [of "CHR '' ''" n] by (auto simp: is_digit_def)

lemma length_show_int64:
  assumes "fits_int64 n"
  shows "length (show_int n) \<le> 20"
proof -
  from assms have "nat n < 10 ^ 19" "nat (- n) < 10 ^ 19"
    by (auto simp: fits_int64_def nat_less_iff)
  then have "length (show_nat (nat n)) \<le> 19" "length (show_nat (nat (- n))) \<le> 19"
    by (auto intro: length_show_nat)
  then show ?thesis by (simp add: show_int_def)
qed

lemma word_token:
  "w \<noteq> [] \<Longrightarrow> CHR '' '' \<notin> set w \<Longrightarrow> strtok '' '' (w @ CHR '' '' # r) = (Some w, r)"
  by (rule strtok_token) auto

lemma word_last: "w \<noteq> [] \<Longrightarrow> CHR '' '' \<notin> set w \<Longrightarrow> strtok '' '' w = (Some w, [])"
  by (rule strtok_last) auto

definition request_text :: "job_item_t \<Rightarrow> string" where
  "request_text job = UDP_DOWNLOAD @ '' '' @ file_name job @ '' '' @ show_int (file_start job)
    @ '' '' @ show_int (file_end job)"

lemma download_request_arrives:
  assumes "name_clean (file_name job)" "fits_int64 (file_start job)" "fits_int64 (file_end job)"
  shows "\<exists>req. download_request job = Ok req
    \<and> on_datagram access stat_size (Some req)
      = Ok [Start_upload (file_name job) (file_start job) (file_end job)]"
proof -
  let ?t = "request_text job"
  have len: "length ?t < UDP_BUFFER_SIZE" "length (file_name job) < UDP_BUFFER_SIZE"
    using assms(1) length_show_int64 [OF assms(2)] length_show_int64 [OF assms(3)]
    by (simp_all add: request_text_def name_clean_def udp_cmds UDP_BUFFER_SIZE_def)
  have "no_nul ?t"
    using assms(1) by (simp add: request_text_def name_clean_def udp_cmds show_int_one_word)
  with len have c: "cstr (zbuf UDP_BUFFER_SIZE (zbuf UDP_BUFFER_SIZE ?t)) = Ok ?t"
    by (simp add: cstr_zbuf_string)
  have d: "strtok '' '' ?t = (Some UDP_DOWNLOAD,
      file_name job @ CHR '' '' # show_int (file_start job) @ CHR '' '' # show_int (file_end job))"
    using word_token [of UDP_DOWNLOAD] by (simp add: request_text_def udp_cmds)
  have "on_download (file_name job @ CHR '' '' # show_int (file_start job) @ CHR '' '' # show_int (file_end job))
      = Ok [Start_upload (file_name job) (file_start job) (file_end job)]"
    using assms len
    by (simp add: on_download_def name_clean_def word_token word_last show_int_one_word atol_show_int cstore_def)
  with c d have "on_datagram access stat_size (Some (zbuf UDP_BUFFER_SIZE ?t))
      = Ok [Start_upload (file_name job) (file_start job) (file_end job)]"
    by (simp add: on_datagram_def udp_cmds)
  moreover have "download_request job = Ok (zbuf UDP_BUFFER_SIZE ?t)"
    unfolding download_request_def request_text_def [symmetric] using len by (simp add: cstore_def)
  ultimately show ?thesis by blast
qed

lemma query_arrives:
  assumes "name_clean f"
  shows "\<exists>req. query_request f = Ok req \<and> on_datagram access stat_size (Some req) =
    (if hasFile access f \<noteq> 0
     then res_bind (file_length stat_size f) (\<lambda>n. Ok [Respond (blank_response
            \<lparr>resp_cmd := UDP_CHECKFILE, file_content := f, have_file_flag := 1, resp_length := n\<rparr>)])
     else Ok [Respond (blank_response
            \<lparr>resp_cmd := UDP_CHECKFILE, file_content := f, have_file_flag := - 1\<rparr>)])"
proof -
  let ?t = "UDP_CHECKFILE @ '' '' @ f"
  have len: "length ?t < UDP_BUFFER_SIZE" "length f < UDP_BUFFER_SIZE"
    using assms by (simp_all add: name_clean_def udp_cmds UDP_BUFFER_SIZE_def)
  have "no_nul ?t" using assms by (simp add: name_clean_def udp_cmds)
  with len have c: "cstr (zbuf UDP_BUFFER_SIZE (zbuf UDP_BUFFER_SIZE ?t)) = Ok ?t"
    by (simp add: cstr_zbuf_string)
  have "strtok '' '' ?t = (Some UDP_CHECKFILE, f)" "strtok '' '' f = (Some f, [])"
    using word_token [of UDP_CHECKFILE f] word_last [of f] assms by (simp_all add: udp_cmds name_clean_def)
  with c len have "on_datagram access stat_size (Some (zbuf UDP_BUFFER_SIZE ?t)) =
    (if hasFile access f \<noteq> 0
     then res_bind (file_length stat_size f) (\<lambda>n. Ok [Respond (blank_response
            \<lparr>resp_cmd := UDP_CHECKFILE, file_content := f, have_file_flag := 1, resp_length := n\<rparr>)])
     else Ok [Respond (blank_response
            \<lparr>resp_cmd := UDP_CHECKFILE, file_content := f, have_file_flag := - 1\<rparr>)])"
    by (simp add: on_datagram_def on_check_file_def cstore_def Let_def blank_response_def)
  moreover have "query_request f = Ok (zbuf UDP_BUFFER_SIZE ?t)"
    using len by (simp add: query_request_def cstore_def)
  ultimately show ?thesis by blast
qed

section \<open>The ranges of the jobs\<close>

lemma job_range:
  assumes "0 < n" "0 \<le> tot" "k < nat n"
  shows "0 \<le> file_start (job_at n f tot k)" "file_start (job_at n f tot k) \<le> tot"
    "file_end (job_at n f tot k) < tot" "- 1 \<le> file_end (job_at n f tot k)"
    "file_end (job_at n f tot k) - file_start (job_at n f tot k) + 1 =
      (if k = nat n - 1 then tot div n + tot mod n else tot div n)"
proof -
  define s where "s = tot div n"
  define r where "r = tot mod n"
  have eq: "n * s + r = tot" "0 \<le> r" using assms by (simp_all add: s_def r_def)
  have s: "0 \<le> s" using assms by (simp add: s_def pos_imp_zdiv_nonneg_iff)
  have "c_div tot n = s" using assms by (simp add: c_div_nonneg s_def)
  then have job: "file_start (job_at n f tot k) = int k * s"
    "file_end (job_at n f tot k) = (if int k = n - 1 then tot - 1 else (int k + 1) * s - 1)"
    by (simp_all add: job_at_def)
  have k: "int k + 1 \<le> n" "int k = n - 1 \<longleftrightarrow> k = nat n - 1" using assms by linarith+
  have "(int k + 1) * s \<le> n * s" using k(1) s by (rule mult_right_mono)
  moreover define p where "p = int k * s"
  moreover have "(int k + 1) * s = p + s" by (simp add: p_def algebra_simps)
  moreover have "0 \<le> p" using s by (simp add: p_def)
  moreover have "(int k + 1) * s = n * s" if "int k = n - 1" using that by simp
  ultimately show "0 \<le> file_start (job_at n f tot k)" "file_start (job_at n f tot k) \<le> tot"
    "file_end (job_at n f tot k) < tot" "- 1 \<le> file_end (job_at n f tot k)"
    "file_end (job_at n f tot k) - file_start (job_at n f tot k) + 1 =
      (if k = nat n - 1 then tot div n + tot mod n else tot div n)"
    unfolding job s_def [symmetric] r_def [symmetric] k(2) [symmetric] p_def [symmetric]
    using eq s assms(2) by (auto split: if_splits)
qed

section \<open>Dropping dead servers\<close>

definition alive :: "(sockaddr_in \<times> server_response_t option) list \<Rightarrow> sockaddr_in list" where
  "alive xs = map fst (filter (\<lambda>(s, r). r \<noteq> None) xs)"

lemma verify_result:
  "slist_wf a \<Longrightarrow> servers a = kept @ pending \<Longrightarrow> length rs = length pending \<Longrightarrow>
    (\<forall>r. Some r \<in> set rs \<longrightarrow> resp_cmd r = UDP_HANDSHAKE) \<Longrightarrow>
    \<exists>a'. verify_address_available rs a (int (length kept)) =
        Ok (a', int (length (kept @ alive (zip pending rs))), pending, True)
      \<and> slist_wf a' \<and> servers a' = kept @ alive (zip pending rs)"
proof (induction rs arbitrary: a kept pending)
  case Nil
  then show ?case using slist_count [of a] by (simp add: alive_def)
next
  case (Cons r rs)
  then obtain x xs where p: "pending = x # xs" by (cases pending) auto
  have t: "int (length kept) < sl_occupied a" using slist_count [OF Cons.prems(1)] Cons.prems(2) p by simp
  have g: "getServerItem a (int (length kept)) = Ok (Some x)"
    using servers_store.get [OF Cons.prems(1), of "int (length kept)"] Cons.prems(2) p by simp
  show ?case
  proof (cases r)
    case None
    obtain a1 where a1: "removeServerItem a (int (length kept)) = Ok a1" "slist_wf a1" "servers a1 = kept @ xs"
      using servers_store.remove_nth [OF Cons.prems(1), of kept x xs] Cons.prems(2) p by auto
    from Cons.IH [OF a1(2,3)] Cons.prems(3,4) p obtain a' where
      "verify_address_available rs a1 (int (length kept)) = Ok (a', int (length (kept @ alive (zip xs rs))), xs, True)"
      "slist_wf a'" "servers a' = kept @ alive (zip xs rs)" by auto
    with t g a1 None p show ?thesis by (simp add: alive_def)
  next
    case (Some b)
    have "servers a = (kept @ [x]) @ xs" using Cons.prems(2) p by simp
    moreover have "length rs = length xs" "\<forall>r. Some r \<in> set rs \<longrightarrow> resp_cmd r = UDP_HANDSHAKE"
      using Cons.prems(3,4) p by auto
    ultimately obtain a' where a': "verify_address_available rs a (int (length (kept @ [x])))
        = Ok (a', int (length ((kept @ [x]) @ alive (zip xs rs))), xs, True)"
      "slist_wf a'" "servers a' = (kept @ [x]) @ alive (zip xs rs)"
      using Cons.IH [OF Cons.prems(1)] by blast
    have e: "int (length kept) + 1 = int (length (kept @ [x]))" by simp
    have hs: "resp_cmd b = UDP_HANDSHAKE" using Cons.prems(4) [rule_format, of b] Some by simp
    have "verify_address_available (Some b # rs) a (int (length kept)) =
        res_bind (verify_address_available rs a (int (length kept) + 1)) (\<lambda>(a'', t'', asked, ended).
          Ok (a'', t'', x # asked, ended))"
      by (simp only: verify_address_available.simps t g res_bind_simps deref_simps option.case if_True
          hs prod.case simp_thms)
    also have "\<dots> = Ok (a', int (length ((kept @ [x]) @ alive (zip xs rs))), x # xs, True)"
      unfolding e a'(1) by (simp only: res_bind_simps prod.case)
    finally have "verify_address_available (Some b # rs) a (int (length kept)) =
        Ok (a', int (length ((kept @ [x]) @ alive (zip xs rs))), x # xs, True)" .
    moreover have "(kept @ [x]) @ alive (zip xs rs) = kept @ alive (zip pending (Some b # rs))"
      by (simp add: alive_def p)
    ultimately show ?thesis unfolding Some using a'(2,3) p by (simp only:) simp
  qed
qed

section \<open>Putting the parts together\<close>

lemma copy_bytes_result: "copy_bytes xs = (if xs = [] then Ok [] else ub Out_Of_Bounds)"
  by (cases xs) (simp_all add: poke_def)

lemma combine_from_result:
  assumes "\<And>k. 0 \<le> k \<Longrightarrow> k < n \<Longrightarrow> \<exists>fn. part_name k = Ok fn \<and> fopen fn = Some (part k)"
  shows "0 \<le> i \<Longrightarrow> combine_from fopen i n =
    (if \<forall>k. i \<le> k \<and> k < n \<longrightarrow> part k = [] then Ok [] else ub Out_Of_Bounds)"
proof (induction "nat (n - i)" arbitrary: i)
  case 0
  then show ?case by (auto simp: combine_from.simps [of fopen i])
next
  case (Suc d)
  then have i: "i < n" by linarith
  obtain fn where fn: "part_name i = Ok fn" "fopen fn = Some (part i)" using assms [OF Suc.prems i] by blast
  have IH: "combine_from fopen (i + 1) n =
      (if \<forall>k. i + 1 \<le> k \<and> k < n \<longrightarrow> part k = [] then Ok [] else ub Out_Of_Bounds)"
    by (rule Suc.hyps(1)) (use Suc.hyps(2) Suc.prems in linarith)+
  have split: "(\<forall>k. i \<le> k \<and> k < n \<longrightarrow> part k = []) \<longleftrightarrow>
      part i = [] \<and> (\<forall>k. i + 1 \<le> k \<and> k < n \<longrightarrow> part k = [])"
  proof -
    have "i \<le> k \<longleftrightarrow> k = i \<or> i + 1 \<le> k" for k by linarith
    with i show ?thesis by auto
  qed
  show ?case
    unfolding combine_from.simps [of fopen i] split IH
    using i fn by (auto simp: copy_bytes_result)
qed

section \<open>Reading the list of servers\<close>

definition word_ok :: "string \<Rightarrow> bool" where
  "word_ok w \<longleftrightarrow> w \<noteq> [] \<and> (\<forall>c \<in> set w. \<not> is_space c) \<and> length w < 100"

fun info_text :: "(string \<times> string) list \<Rightarrow> string" where
  "info_text [] = []"
| "info_text ((a, p) # ls) = a @ '' '' @ p @ [CHR 0x0A] @ info_text ls"

lemma scan_word_one:
  assumes "word_ok w" "is_space c"
  shows "scan_word (w @ c # r) = (w, c # r)"
proof -
  have "dropWhile is_space (w @ c # r) = w @ c # r" using assms(1) by (cases w) (auto simp: word_ok_def)
  moreover have "takeWhile (\<lambda>c. \<not> is_space c) (w @ c # r) = w" "dropWhile (\<lambda>c. \<not> is_space c) (w @ c # r) = c # r"
    using assms by (auto simp: word_ok_def takeWhile_append dropWhile_append)
  ultimately show ?thesis by (simp add: scan_word_def)
qed

lemma scan_word_skip: "is_space c \<Longrightarrow> scan_word (c # r) = scan_word r"
  by (simp add: scan_word_def)

lemma scan_pair_line:
  assumes "word_ok a" "word_ok p"
  shows "scan_pair (a @ '' '' @ p @ [CHR 0x0A] @ r) x y = (a, p, CHR 0x0A # r, False)"
    "scan_pair (CHR 0x0A # a @ '' '' @ p @ [CHR 0x0A] @ r) x y = (a, p, CHR 0x0A # r, False)"
  using scan_word_one [OF assms(1), of "CHR '' ''" "p @ CHR 0x0A # r"]
    scan_word_one [OF assms(2), of "CHR 0x0A" r] assms
  by (simp_all add: scan_pair_def scan_word_skip is_space_def word_ok_def)

lemma scan_pair_end: "scan_pair [] x y = (x, y, [], True)" "scan_pair [CHR 0x0A] x y = (x, y, [], True)"
  by (simp_all add: scan_pair_def scan_word_def is_space_def)

text \<open>The addresses of a list of lines.\<close>

definition addresses :: "(string \<Rightarrow> 32 word) \<Rightarrow> (string \<times> string) list \<Rightarrow> sockaddr_in list" where
  "addresses w ls = map (\<lambda>(a, p). server_address (w a) p) ls"

lemma read_servers_rest:
  "slist_wf l \<Longrightarrow> word_ok x \<Longrightarrow> word_ok y \<Longrightarrow>
    \<forall>(a, p) \<in> set ls. word_ok a \<and> word_ok p \<and> inet_aton a = Some (w a) \<Longrightarrow>
    \<exists>l'. read_servers inet_aton (CHR 0x0A # info_text ls) False x y x y l = Ok l' \<and> slist_wf l'
      \<and> servers l' = servers l @ addresses w (tl (remdups_adj ((x, y) # ls)))"
proof (induction ls arbitrary: l x y)
  case Nil
  then show ?case
    by (simp add: read_servers.simps scan_pair_end cstore_def word_ok_def addresses_def)
next
  case (Cons ap ls)
  obtain a p where ap: "ap = (a, p)" by force
  with Cons.prems have ok: "word_ok a" "word_ok p" "inet_aton a = Some (w a)" by auto
  have len: "length a < 100" "length p < 100" using ok by (simp_all add: word_ok_def)
  note sp = scan_pair_line(2) [OF ok(1,2)]
  show ?case
  proof (cases "y = p \<and> x = a")
    case True
    have "read_servers inet_aton (CHR 0x0A # info_text (ap # ls)) False x y x y l
        = read_servers inet_aton (CHR 0x0A # info_text ls) False x y x y l"
      using True sp len by (simp add: read_servers.simps [of inet_aton _ False] ap cstore_def)
    with Cons.IH [OF Cons.prems(1-3)] Cons.prems(4) True ap show ?thesis by simp
  next
    case False
    obtain l1 where l1: "addServerItem l (server_address (w a) p) = Ok l1" "slist_wf l1"
      "servers l1 = servers l @ [server_address (w a) p]"
      using servers_array.grow_cases [OF Cons.prems(1)] by blast
    have "read_servers inet_aton (CHR 0x0A # info_text (ap # ls)) False x y x y l
        = read_servers inet_aton (CHR 0x0A # info_text ls) False a p a p l1"
      using False sp len ok l1(1)
      by (subst read_servers.simps) (auto simp: ap cstore_def)
    moreover have r: "tl (remdups_adj ((x, y) # ap # ls)) = remdups_adj ((a, p) # ls)"
      using False by (auto simp: ap)
    moreover have "addresses w (remdups_adj ((a, p) # ls))
        = server_address (w a) p # addresses w (tl (remdups_adj ((a, p) # ls)))"
      using arg_cong [OF remdups_adj_Cons_alt [of "(a, p)" ls], of "addresses w"]
      by (simp add: addresses_def del: remdups_adj_Cons_alt)
    moreover obtain l' where "read_servers inet_aton (CHR 0x0A # info_text ls) False a p a p l1 = Ok l'"
      "slist_wf l'" "servers l' = servers l1 @ addresses w (tl (remdups_adj ((a, p) # ls)))"
      using Cons.IH [OF l1(2) ok(1,2)] Cons.prems(4) by auto
    ultimately show ?thesis using l1(3) by (simp only: r) simp
  qed
qed

text \<open>One job of such a file: its request arrives, and the upload it starts ends the client's loop.\<close>

lemma job_downloads:
  assumes "fopen f = Some content" "no_nul content" "name_clean f" "length content < 2 ^ 62"
    and "0 < n" "tot = int (length content)" "2 \<le> tot div n" "tot div n + tot mod n < int UDP_BUFFER_SIZE"
    and "k < nat n" "job = job_at n f tot k"
  shows "\<exists>req ps. download_request job = Ok req
    \<and> on_datagram access stat_size (Some req) = Ok [Start_upload f (file_start job) (file_end job)]
    \<and> upload 3 0 fopen f (file_start job) (file_end job) = Ok ps
    \<and> download_loop (map Some ps) [] = Some (0, byte_range content (file_start job) (file_end job))"
proof -
  note k = assms(9,10)
  have t: "0 \<le> tot" using assms(6) by simp
  note r = job_range [OF assms(5) t k(1), of f, folded k(2)]
  have m: "0 \<le> tot mod n" using assms(5) by simp
  have len: "1 \<le> file_end job - file_start job" "file_end job - file_start job < int UDP_BUFFER_SIZE - 1"
    using r(5) assms(7,8) m by (auto split: if_splits)
  have fit: "fits_int64 (file_start job)" "fits_int64 (file_end job)" "file_name job = f"
    using r(1-4) assms(4,6) by (simp_all add: fits_int64_def) (simp add: k(2) job_at_def)
  have "upload 3 0 fopen f (file_start job) (file_end job)
      = Ok [content_response 1 (byte_range content (file_start job) (file_end job))]"
    using upload_result [where fopen = fopen and f = f and sock = 3 and bnd = 0 and start = "file_start job"
        and e = "file_end job", OF assms(1,2) _ _ r(1) _ assms(4)] r(3) len assms(6) by simp
  then show ?thesis
    using download_request_arrives [of job] fit assms(3)
    by (auto simp: content_response_def blank_response_def udp_cmds)
qed

section \<open>Properties\<close>

text \<open>
  Property C20.  What an upload sends, for every range of a file without zero bytes: a range of
  two to 1023 bytes goes out whole in one response marked as the last, a range of one byte or none
  sends nothing at all, and any longer range overruns the server's buffer at its first piece.
\<close>

theorem upload_exact:
  assumes "fopen f = Some content" "no_nul content" "0 \<le> sock" "0 \<le> bnd"
    and "0 \<le> start" "e < int (length content)" "length content < 2 ^ 62"
  shows "upload sock bnd fopen f start e =
    (if e \<le> start then Ok []
     else if e - start < int UDP_BUFFER_SIZE - 1 then Ok [content_response 1 (byte_range content start e)]
     else ub Unterminated)"
  using assms by (rule upload_result)

text \<open>
  The jobs tile the file: cutting a file into any positive number of jobs yields
  that many, numbered in order within the capacity of the list, and the byte ranges they name
  give, one after the other, exactly the file.
\<close>

lemma jobs_tile_file:
  assumes "0 < n"
  shows "\<exists>js. createJobsList n f (int (length content)) = Ok js \<and> jlist_wf js
    \<and> map job_id (jobs js) = map int [0..<nat n] \<and> jl_size js = n
    \<and> concat (map (\<lambda>job. byte_range content (file_start job) (file_end job)) (jobs js)) = content"
  using createJobsList_result [OF assms, of f "int (length content)"] slices_cover [OF assms refl, of content f]
  by (auto simp: job_at_def)

text \<open>
  Property C21.  A download gives back the file: when every job has from two to 1023 bytes and the
  file has no zero byte, each job's request reaches the server as it was meant, the responses of
  the upload it starts end the client's loop with success and the job's bytes in the part file,
  and the parts in order are the file.
\<close>

theorem download_reassembles_file:
  assumes "fopen f = Some content" "no_nul content" "name_clean f" "length content < 2 ^ 62"
    and "0 < n" "tot = int (length content)" "2 \<le> tot div n" "tot div n + tot mod n < int UDP_BUFFER_SIZE"
  shows "\<exists>js. createJobsList n f tot = Ok js
    \<and> (\<forall>job \<in> set (jobs js). \<exists>req ps. download_request job = Ok req
        \<and> on_datagram access stat_size (Some req) = Ok [Start_upload f (file_start job) (file_end job)]
        \<and> upload 3 0 fopen f (file_start job) (file_end job) = Ok ps
        \<and> download_loop (map Some ps) [] = Some (0, byte_range content (file_start job) (file_end job)))
    \<and> concat (map (\<lambda>job. byte_range content (file_start job) (file_end job)) (jobs js)) = content"
proof -
  obtain js where js: "createJobsList n f tot = Ok js" "jobs js = map (job_at n f tot) [0..<nat n]"
    using createJobsList_result [OF assms(5)] by blast
  have "\<exists>req ps. download_request job = Ok req
        \<and> on_datagram access stat_size (Some req) = Ok [Start_upload f (file_start job) (file_end job)]
        \<and> upload 3 0 fopen f (file_start job) (file_end job) = Ok ps
        \<and> download_loop (map Some ps) [] = Some (0, byte_range content (file_start job) (file_end job))"
    if "job \<in> set (jobs js)" for job
    using job_downloads [where fopen = fopen and n = n, OF assms] that js(2) by auto
  with js(1) slices_cover [OF assms(5,6), of f] show ?thesis by (auto simp: js(2))
qed

text \<open>
  Asking for a file that is not there ends the servers: the client takes the
  negative answer to its query for a hit, plans its jobs all the same, and each of their requests
  makes the server that receives it end with an error.
\<close>

lemma missing_file_ends_server:
  assumes "access f = - 1" "fopen f = None" "name_clean f" "0 < n" "slist_wf a" "servers a \<noteq> []" "0 \<le> sock"
  shows "\<exists>req resp js ds. query_request f = Ok req
    \<and> on_datagram access stat_size (Some req) = Ok [Respond resp]
    \<and> query_file_exist f [Some resp] a = Ok (a, Some (0, resp))
    \<and> plan_download n f resp = Ok (Some (js, ds)) \<and> jobs js \<noteq> []
    \<and> (\<forall>job \<in> set (jobs js). \<exists>dreq. download_request job = Ok dreq
        \<and> on_datagram access stat_size (Some dreq) = Ok [Start_upload f (file_start job) (file_end job)]
        \<and> upload sock bnd fopen f (file_start job) (file_end job) = Inl (Exit ''open file error!''))"
proof -
  let ?resp = "blank_response\<lparr>resp_cmd := UDP_CHECKFILE, file_content := f, have_file_flag := - 1\<rparr>"
  obtain req where req: "query_request f = Ok req" "on_datagram access stat_size (Some req) = Ok [Respond ?resp]"
    using query_arrives [OF assms(3), of access stat_size] assms(1) by (auto simp: hasFile_def)
  have q: "query_file_exist f [Some ?resp] a = Ok (a, Some (0, ?resp))"
    using slist_count [OF assms(5)] assms(6) by simp
  obtain js where js: "createJobsList n f 0 = Ok js" "jobs js = map (job_at n f 0) [0..<nat n]"
    using createJobsList_result [OF assms(4)] by blast
  obtain ds where ds: "initJobArray n = Ok ds" using initJobArray_wf [of n] assms(4) by auto
  have p: "plan_download n f ?resp = Ok (Some (js, ds))"
    using js ds by (simp add: plan_download_def blank_response_def)
  have "\<exists>dreq. download_request job = Ok dreq
        \<and> on_datagram access stat_size (Some dreq) = Ok [Start_upload f (file_start job) (file_end job)]
        \<and> upload sock bnd fopen f (file_start job) (file_end job) = Inl (Exit ''open file error!'')"
    if job: "job \<in> set (jobs js)" for job
  proof -
    from job js(2) obtain k where k: "k < nat n" "job = job_at n f 0 k" by auto
    note r = job_range [OF assms(4) order_refl k(1), of f, folded k(2)]
    have "fits_int64 (file_start job)" "fits_int64 (file_end job)" "file_name job = f"
      using r(1-4) by (simp_all add: fits_int64_def) (simp add: k(2) job_at_def)
    with download_request_arrives [of job access stat_size] assms(2,3,7) show ?thesis
      by (auto simp: upload_def failHandler_def)
  qed
  moreover have "jobs js \<noteq> []" using js(2) assms(4) by simp
  ultimately show ?thesis using req q p by blast
qed

text \<open>
  The handshake keeps exactly the servers that answer: with one result for each
  server, a timeout or a handshake response, the loop ends having asked every server once and in
  order, and the list holds the ones that answered, in order.
\<close>

lemma verify_keeps_responders:
  assumes "slist_wf a" "length rs = length (servers a)" "\<forall>r. Some r \<in> set rs \<longrightarrow> resp_cmd r = UDP_HANDSHAKE"
  shows "\<exists>a'. verify_address_available rs a 0 = Ok (a', int (length (alive (zip (servers a) rs))), servers a, True)
    \<and> slist_wf a' \<and> servers a' = alive (zip (servers a) rs)"
  using verify_result [OF assms(1) _ assms(2,3), of "[]"] by simp

text \<open>
  Putting the parts together overruns the copying buffer: with every part file
  there, \<open>combinefile\<close> writes past its one-byte buffer unless all the parts are empty.
\<close>

lemma combinefile_overruns:
  assumes "\<And>k. 0 \<le> k \<Longrightarrow> k < n \<Longrightarrow> \<exists>fn. part_name k = Ok fn \<and> fopen fn = Some (part k)"
  shows "combinefile True fopen n =
    (if \<forall>k. 0 \<le> k \<and> k < n \<longrightarrow> part k = [] then Ok [] else ub Out_Of_Bounds)"
  using combine_from_result [where i = 0, OF assms] by (simp add: combinefile_def)

lemma server_info_lines:
  assumes "fopen f = Some (info_text ls)" "ls \<noteq> []" "(pre_a, pre_p) \<noteq> hd ls"
    and "\<forall>(a, p) \<in> set ls. word_ok a \<and> word_ok p \<and> inet_aton a = Some (w a)"
  shows "\<exists>l. process_server_info inet_aton fopen f addr_i port_i pre_a pre_p = Ok l \<and> slist_wf l
    \<and> servers l = addresses w (remdups_adj ls)"
proof -
  obtain a p rest where ls: "ls = (a, p) # rest" using assms(2) by (cases ls) auto
  with assms(4) have ok: "word_ok a" "word_ok p" "inet_aton a = Some (w a)" by auto
  have len: "length a < 100" "length p < 100" using ok by (simp_all add: word_ok_def)
  obtain l1 where l1: "addServerItem initServerListArray (server_address (w a) p) = Ok l1" "slist_wf l1"
    "servers l1 = [server_address (w a) p]"
    using servers_array.grow_cases [OF initServerListArray_wf(1)] initServerListArray_wf(2) by auto
  have "process_server_info inet_aton fopen f addr_i port_i pre_a pre_p
      = read_servers inet_aton (CHR 0x0A # info_text rest) False a p a p l1"
    using assms(1,3) scan_pair_line(1) [OF ok(1,2), of "info_text rest"] len ok l1(1) ls
    by (auto simp: process_server_info_def read_servers.simps [of inet_aton _ False addr_i] cstore_def)
  moreover obtain l where "read_servers inet_aton (CHR 0x0A # info_text rest) False a p a p l1 = Ok l"
    "slist_wf l" "servers l = servers l1 @ addresses w (tl (remdups_adj ((a, p) # rest)))"
    using read_servers_rest [OF l1(2) ok(1,2), of rest inet_aton w] assms(4) ls by auto
  moreover have "addresses w (remdups_adj ((a, p) # rest))
      = server_address (w a) p # addresses w (tl (remdups_adj ((a, p) # rest)))"
    using arg_cong [OF remdups_adj_Cons_alt [of "(a, p)" rest], of "addresses w"]
    by (simp add: addresses_def del: remdups_adj_Cons_alt)
  ultimately show ?thesis using l1(3) ls by auto
qed

text \<open>
  A well-formed list of servers is read as it is written: one address for each line,
  in order, except that a line equal to the one before it is dropped, provided the uninitialised
  arrays do not happen to hold the first line.
\<close>

lemma server_info_read:
  assumes "fopen f = Some (info_text ls)" "ls \<noteq> []" "(pre_a, pre_p) \<noteq> hd ls"
    and "\<forall>(a, p) \<in> set ls. word_ok a \<and> word_ok p \<and> inet_aton a = Some (w a)"
  shows "\<exists>l. process_server_info inet_aton fopen f addr_i port_i pre_a pre_p = Ok l \<and> slist_wf l
    \<and> servers l = addresses w (remdups_adj ls)"
  by (rule server_info_lines [where fopen = fopen and f = f, OF assms])

section \<open>Concrete instances\<close>

lemma name_f: "name_clean ''f''"
  by (simp add: name_clean_def)

theorem upload_exact_witness:
  "upload 3 0 (\<lambda>_. Some ''hello'') ''f'' 1 3 = Ok [content_response 1 ''ell'']
    \<and> upload 3 0 (\<lambda>_. Some ''hello'') ''f'' 4 4 = Ok []"
  using upload_exact [where fopen = "\<lambda>_. Some ''hello''" and f = "''f''" and content = "''hello''" and sock = 3
      and bnd = 0 and start = 1 and e = 3]
    upload_exact [where fopen = "\<lambda>_. Some ''hello''" and f = "''f''" and content = "''hello''" and sock = 3
      and bnd = 0 and start = 4 and e = 4]
  by (simp add: UDP_BUFFER_SIZE_def byte_range_def numeral_3_eq_3)

lemma jobs_tile_file_instance:
  "\<exists>js. createJobsList 2 ''f'' 5 = Ok js \<and> map job_id (jobs js) = [0, 1]
    \<and> concat (map (\<lambda>job. byte_range ''hello'' (file_start job) (file_end job)) (jobs js)) = ''hello''"
  using jobs_tile_file [of 2 "''f''" "''hello''"] by (auto simp: numeral_2_eq_2)

theorem download_reassembles_file_witness:
  "\<exists>js. createJobsList 2 ''f'' 5 = Ok js \<and> (\<forall>job \<in> set (jobs js). \<exists>ps.
      upload 3 0 (\<lambda>_. Some ''hello'') ''f'' (file_start job) (file_end job) = Ok ps
      \<and> download_loop (map Some ps) [] = Some (0, byte_range ''hello'' (file_start job) (file_end job)))"
  using download_reassembles_file [where fopen = "\<lambda>_. Some ''hello''" and f = "''f''" and content = "''hello''"
      and n = 2 and tot = 5 and access = "\<lambda>_. 0" and stat_size = "\<lambda>_. Some 5"] name_f
  by (fastforce simp: UDP_BUFFER_SIZE_def)

lemma missing_file_ends_server_instance:
  "\<exists>js. createJobsList 1 ''f'' 0 = Ok js \<and> (\<forall>job \<in> set (jobs js).
      upload 3 0 (\<lambda>_. None) ''f'' (file_start job) (file_end job) = Inl (Exit ''open file error!''))"
proof -
  let ?s = "\<lparr>sin_addr = 1, sin_port = 80\<rparr>"
  obtain a where a: "slist_wf a" "servers a = [?s]"
    using servers_array.grow_cases [OF initServerListArray_wf(1), of ?s] initServerListArray_wf(2) by auto
  then have "servers a \<noteq> []" by simp
  note m = missing_file_ends_server [where access = "\<lambda>_. - 1" and fopen = "\<lambda>_. None" and stat_size = "\<lambda>_. None"
      and f = "''f''" and n = 1 and sock = 3 and bnd = 0, OF refl refl name_f _ a(1) this]
  have "0 < (1::int)" "0 \<le> (3::int)" by simp_all
  from m [OF this] obtain req resp js ds where r: "query_request ''f'' = Ok req"
    "on_datagram (\<lambda>_. - 1) (\<lambda>_. None) (Some req) = Ok [Respond resp]"
    "plan_download 1 ''f'' resp = Ok (Some (js, ds))"
    "\<forall>job \<in> set (jobs js). upload 3 0 (\<lambda>_. None) ''f'' (file_start job) (file_end job) = Inl (Exit ''open file error!'')"
    by blast
  from r(1,2) query_arrives [OF name_f, of "\<lambda>_. - 1" "\<lambda>_. None"] have "resp_length resp = 0"
    by (auto simp: hasFile_def blank_response_def)
  with r(3,4) show ?thesis by (auto simp: plan_download_def res_simps split: if_splits)
qed

lemma verify_keeps_responders_instance:
  "\<exists>a a'. servers a = [\<lparr>sin_addr = 1, sin_port = 80\<rparr>] \<and>
    verify_address_available [None] a 0 = Ok (a', 0, servers a, True) \<and> servers a' = []"
proof -
  let ?s = "\<lparr>sin_addr = 1, sin_port = 80\<rparr>"
  obtain a where a: "slist_wf a" "servers a = [?s]"
    using servers_array.grow_cases [OF initServerListArray_wf(1), of ?s] initServerListArray_wf(2) by auto
  with verify_keeps_responders [OF a(1), of "[None]"] show ?thesis by (auto simp: alive_def)
qed

lemma combinefile_overruns_instance:
  "combinefile True (\<lambda>_. Some ''x'') 1 = ub Out_Of_Bounds"
proof -
  have "\<exists>fn. part_name k = Ok fn \<and> (\<lambda>_. Some ''x'') fn = Some ''x''" if k: "0 \<le> k" "k < 1" for k
  proof -
    have "show_int 0 = ''0''" by code_simp
    moreover from k have "k = 0" by simp
    ultimately show ?thesis by (simp add: part_name_def cstore_def)
  qed
  from combinefile_overruns [of 1 "\<lambda>_. Some ''x''" "\<lambda>_. ''x''", OF this] show ?thesis by auto
qed

lemma server_info_read_instance:
  "\<exists>l. process_server_info (\<lambda>_. Some 1) (\<lambda>_. Some (info_text [(''1.2.3.4'', ''80''), (''1.2.3.4'', ''80'')]))
      ''info'' [] [] [] [] = Ok l
    \<and> servers l = [\<lparr>sin_addr = 1, sin_port = 80\<rparr>]"
proof -
  have w: "word_ok ''1.2.3.4''" "word_ok ''80''" by (simp_all add: word_ok_def is_space_def)
  have "word_of_int (atoi ''80'') = (80 :: 16 word)" by code_simp
  with server_info_read [where fopen = "\<lambda>_. Some (info_text [(''1.2.3.4'', ''80''), (''1.2.3.4'', ''80'')])"
      and f = "''info''" and ls = "[(''1.2.3.4'', ''80''), (''1.2.3.4'', ''80'')]" and inet_aton = "\<lambda>_. Some 1"
      and w = "\<lambda>_. 1" and pre_a = "[]" and pre_p = "[]" and addr_i = "[]" and port_i = "[]", OF refl] w
  show ?thesis by (force simp: addresses_def server_address_def simp del: info_text.simps)
qed

end
