(* ===== verification/Hw4_Workers.thy ===== *)
theory Hw4_Workers
  imports Hw4_Spec "HOL-Library.Multiset"
begin

text \<open>
  The download threads of \<^verbatim>\<open>HW4/client.c\<close> side by side (\<open>thread_download\<close>).  They
  share the list of servers, the stack of jobs to do and the list of jobs done.  A step is one
  mutex region, one unguarded test of the loop, or one whole download, whose result the schedule
  chooses.
\<close>

section \<open>Workers\<close>

text \<open>
  Where a worker is, with the server it holds and, in the loop, the value of \<open>ret\<close>
  (\<open>None\<close> before the first download: the variable is not initialised).
\<close>

datatype worker =
    Wait_server
  | Loop_test sockaddr_in "int option"
  | Take_job sockaddr_in "int option"
  | Give_back sockaddr_in                  \<comment> \<open>no job left: before returning the server\<close>
  | Download sockaddr_in job_item_t
  | Record_done sockaddr_in job_item_t
  | Put_back sockaddr_in job_item_t
  | Release sockaddr_in "int option"       \<comment> \<open>behind the loop\<close>
  | Exited

record pool =
  server_info_list :: server_list_t
  chunk_jobs :: job_list_t
  done_jobs :: job_list_t
  workers :: "worker list"

definition move_to :: "nat \<Rightarrow> worker \<Rightarrow> pool \<Rightarrow> pool" where
  "move_to i w g = g\<lparr>workers := (workers g)[i := w]\<rparr>"

definition return_server :: "nat \<Rightarrow> sockaddr_in \<Rightarrow> pool \<Rightarrow> pool res" where
  "return_server i addr g =
    res_bind (addServerItem (server_info_list g) addr) (\<lambda>sl.
      Ok (move_to i Exited (g\<lparr>server_info_list := sl\<rparr>)))"

text \<open>
  \<open>worker_step i outcome g\<close>: the next step of worker \<open>i\<close>; \<open>outcome\<close> is what
  \<open>udp_download_file\<close> returns if the step is a download.  A worker that finds no server waits.
\<close>

definition worker_step :: "nat \<Rightarrow> int \<Rightarrow> pool \<Rightarrow> pool res" where
  "worker_step i outcome g =
    (case workers g ! i of
       Wait_server \<Rightarrow>
         let sl = server_info_list g
         in if sl_occupied sl = 0 then Ok g
            else res_bind (getServerItem sl (sl_occupied sl - 1)) (\<lambda>p.
                 res_bind (deref p) (\<lambda>addr.
                 res_bind (removeServerItem sl (sl_occupied sl - 1)) (\<lambda>sl'.
                   Ok (move_to i (Loop_test addr None) (g\<lparr>server_info_list := sl'\<rparr>)))))
     | Loop_test addr ret \<Rightarrow>
         if jl_occupied (done_jobs g) \<noteq> jl_size (done_jobs g) then Ok (move_to i (Take_job addr ret) g)
         else Ok (move_to i (Release addr ret) g)
     | Take_job addr ret \<Rightarrow>
         if jl_occupied (chunk_jobs g) = 0 then Ok (move_to i (Give_back addr) g)
         else res_bind (popJobItem (chunk_jobs g)) (\<lambda>(p, js).
              res_bind (deref p) (\<lambda>job. Ok (move_to i (Download addr job) (g\<lparr>chunk_jobs := js\<rparr>))))
     | Give_back addr \<Rightarrow> return_server i addr g
     | Download addr job \<Rightarrow>
         Ok (move_to i (if outcome = 0 then Record_done addr job else Put_back addr job) g)
     | Record_done addr job \<Rightarrow>
         res_bind (addJobItem (done_jobs g) job) (\<lambda>ds.
           Ok (move_to i (Loop_test addr (Some 0)) (g\<lparr>done_jobs := ds\<rparr>)))
     | Put_back addr job \<Rightarrow>
         res_bind (addJobItem (chunk_jobs g) job) (\<lambda>js.
           Ok (move_to i (Release addr (Some 1)) (g\<lparr>chunk_jobs := js\<rparr>)))
     | Release addr ret \<Rightarrow>
         (case ret of
            None \<Rightarrow> ub Uninitialised
          | Some r \<Rightarrow> if r = 1 then Ok (move_to i Exited g) else return_server i addr g)
     | Exited \<Rightarrow> Ok g)"

fun run_workers :: "(nat \<times> int) list \<Rightarrow> pool \<Rightarrow> pool res" where
  "run_workers [] g = Ok g"
| "run_workers ((i, outcome) # sch) g = res_bind (worker_step i outcome g) (run_workers sch)"

text \<open>\<open>createWorkerList\<close>: every worker at its start.\<close>

definition createWorkerList :: "nat \<Rightarrow> worker list" where
  "createWorkerList worker_size = replicate worker_size Wait_server"

definition MAX_WORKER :: nat where "MAX_WORKER = 100"

text \<open>What \<open>main\<close> sets up for \<open>chunk_num\<close> jobs of a file.\<close>

definition start_pool :: "server_list_t \<Rightarrow> job_list_t \<Rightarrow> job_list_t \<Rightarrow> int \<Rightarrow> pool" where
  "start_pool sl js ds chunk_num =
    \<lparr>server_info_list = sl, chunk_jobs = js, done_jobs = ds,
     workers = createWorkerList (if int MAX_WORKER < chunk_num then MAX_WORKER else nat chunk_num)\<rparr>"

inductive pool_step :: "pool \<Rightarrow> pool \<Rightarrow> bool" where
  move: "i < length (workers g) \<Longrightarrow> worker_step i outcome g = Ok g' \<Longrightarrow> pool_step g g'"

inductive pool_reach :: "pool \<Rightarrow> pool \<Rightarrow> bool" for g0 where
  start: "pool_reach g0 g0"
| step: "pool_reach g0 g \<Longrightarrow> pool_step g g' \<Longrightarrow> pool_reach g0 g'"

inductive_cases pool_stepE: "pool_step g g'"

lemma worker_step_length: "worker_step i k g = Ok g' \<Longrightarrow> length (workers g') = length (workers g)"
  by (auto simp: worker_step_def return_server_def move_to_def res_simps Let_def
      split: worker.splits if_splits option.splits prod.splits)

lemma run_workers_reach:
  "pool_reach g0 g \<Longrightarrow> run_workers sch g = Ok g' \<Longrightarrow> \<forall>(i, k) \<in> set sch. i < length (workers g) \<Longrightarrow>
    pool_reach g0 g'"
proof (induction sch g rule: run_workers.induct)
  case (1 g)
  then show ?case by simp
next
  case (2 i outcome sch g)
  then obtain g1 where g1: "worker_step i outcome g = Ok g1" "run_workers sch g1 = Ok g'"
    by (auto simp: res_simps)
  then have "pool_reach g0 g1" using 2(2,4) by (auto intro!: pool_reach.step [OF 2(2)] pool_step.move)
  then show ?case using 2(1) [OF g1(1) _ g1(2)] 2(4) worker_step_length [OF g1(1)] by auto
qed

section \<open>The invariant\<close>

fun job_held :: "worker \<Rightarrow> job_item_t list" where
  "job_held (Download a j) = [j]"
| "job_held (Record_done a j) = [j]"
| "job_held (Put_back a j) = [j]"
| "job_held _ = []"

fun server_held :: "worker \<Rightarrow> sockaddr_in list" where
  "server_held Wait_server = []"
| "server_held (Loop_test a r) = [a]"
| "server_held (Take_job a r) = [a]"
| "server_held (Give_back a) = [a]"
| "server_held (Download a j) = [a]"
| "server_held (Record_done a j) = [a]"
| "server_held (Put_back a j) = [a]"
| "server_held (Release a r) = (if r = Some 1 then [] else [a])"
| "server_held Exited = []"

definition jobs_held :: "pool \<Rightarrow> job_item_t list" where
  "jobs_held g = concat (map job_held (workers g))"

definition servers_held :: "pool \<Rightarrow> sockaddr_in list" where
  "servers_held g = concat (map server_held (workers g))"

text \<open>
  \<open>J\<close> are the jobs and \<open>S\<close> the servers at the start: every job is in exactly one of the three
  places, and no server is in two.
\<close>

definition pool_ok :: "job_item_t multiset \<Rightarrow> sockaddr_in multiset \<Rightarrow> pool \<Rightarrow> bool" where
  "pool_ok J S g \<longleftrightarrow> slist_wf (server_info_list g) \<and> jlist_wf (chunk_jobs g) \<and> jlist_wf (done_jobs g)
    \<and> jl_size (chunk_jobs g) = int (size J) \<and> jl_size (done_jobs g) = int (size J)
    \<and> mset (jobs (chunk_jobs g)) + mset (jobs (done_jobs g)) + mset (jobs_held g) = J
    \<and> mset (servers (server_info_list g)) + mset (servers_held g) \<subseteq># S"

lemma mset_concat_update:
  "i < length ws \<Longrightarrow> mset (concat (map f (ws[i := w]))) + mset (f (ws ! i)) = mset (concat (map f ws)) + mset (f w)"
proof (induction ws arbitrary: i)
  case Nil
  then show ?case by simp
next
  case (Cons v ws)
  then show ?case by (cases i) (auto simp: ac_simps)
qed

lemma move_held:
  assumes "i < length (workers g)"
  shows "mset (jobs_held (move_to i w g)) + mset (job_held (workers g ! i)) = mset (jobs_held g) + mset (job_held w)"
    "mset (servers_held (move_to i w g)) + mset (server_held (workers g ! i))
      = mset (servers_held g) + mset (server_held w)"
  using mset_concat_update [OF assms] by (simp_all add: jobs_held_def servers_held_def move_to_def)

lemma move_frame [simp]:
  "server_info_list (move_to i w g) = server_info_list g"
  "chunk_jobs (move_to i w g) = chunk_jobs g"
  "done_jobs (move_to i w g) = done_jobs g"
  "length (workers (move_to i w g)) = length (workers g)"
  by (simp_all add: move_to_def)

lemma held_frame [simp]:
  "jobs_held (g\<lparr>server_info_list := sl\<rparr>) = jobs_held g" "servers_held (g\<lparr>server_info_list := sl\<rparr>) = servers_held g"
  "jobs_held (g\<lparr>chunk_jobs := js\<rparr>) = jobs_held g" "servers_held (g\<lparr>chunk_jobs := js\<rparr>) = servers_held g"
  "jobs_held (g\<lparr>done_jobs := js\<rparr>) = jobs_held g" "servers_held (g\<lparr>done_jobs := js\<rparr>) = servers_held g"
  by (simp_all add: jobs_held_def servers_held_def)

text \<open>A worker that moves without touching the lists: it keeps its job and at most drops its server.\<close>

lemma pool_ok_move:
  assumes "pool_ok J S g" "i < length (workers g)" "job_held w = job_held (workers g ! i)"
    and "mset (server_held w) \<subseteq># mset (server_held (workers g ! i))"
  shows "pool_ok J S (move_to i w g)"
proof -
  have "mset (jobs_held (move_to i w g)) = mset (jobs_held g)"
    using move_held(1) [OF assms(2), of w] assms(3) by simp
  moreover have "mset (servers_held (move_to i w g)) \<subseteq># mset (servers_held g)"
  proof -
    have "mset (servers_held (move_to i w g)) + mset (server_held (workers g ! i))
        \<subseteq># mset (servers_held g) + mset (server_held (workers g ! i))"
      unfolding move_held(2) [OF assms(2)] by (rule subset_mset.add_left_mono [OF assms(4)])
    then show ?thesis by simp
  qed
  then have "mset (servers (server_info_list g)) + mset (servers_held (move_to i w g)) \<subseteq># S"
    using subset_mset.order_trans [OF subset_mset.add_left_mono] assms(1) by (auto simp: pool_ok_def)
  ultimately show ?thesis using assms(1) by (simp add: pool_ok_def)
qed

lemma pool_okD:
  assumes "pool_ok J S g"
  shows "slist_wf (server_info_list g)" "jlist_wf (chunk_jobs g)" "jlist_wf (done_jobs g)"
    "mset (jobs (chunk_jobs g)) + mset (jobs (done_jobs g)) + mset (jobs_held g) = J"
    "mset (servers (server_info_list g)) + mset (servers_held g) \<subseteq># S"
  using assms by (simp_all add: pool_ok_def)

text \<open>While a worker holds a job, both job lists have room.\<close>

lemma held_job_room:
  assumes "pool_ok J S g" "i < length (workers g)" "job_held (workers g ! i) \<noteq> []"
  shows "job_room (chunk_jobs g) j" "job_room (done_jobs g) j"
proof -
  have "jobs_held g \<noteq> []" using assms(2,3) by (auto simp: jobs_held_def)
  then have "0 < length (jobs_held g)" by simp
  moreover have "size J = length (jobs (chunk_jobs g)) + length (jobs (done_jobs g)) + length (jobs_held g)"
    unfolding pool_okD(4) [OF assms(1), symmetric] by simp
  moreover have "jl_size (chunk_jobs g) = int (size J)" "jl_size (done_jobs g) = int (size J)"
    using assms(1) by (simp_all add: pool_ok_def)
  ultimately show "job_room (chunk_jobs g) j" "job_room (done_jobs g) j"
    unfolding job_room_def by linarith+
qed

text \<open>The steps that touch a list, with the state they lead to.\<close>

lemma take_server_step:
  assumes "slist_wf (server_info_list g)" "workers g ! i = Wait_server" "sl_occupied (server_info_list g) \<noteq> 0"
  obtains a sl where "worker_step i k g = Ok (move_to i (Loop_test a None) (g\<lparr>server_info_list := sl\<rparr>))"
    "slist_wf sl" "servers (server_info_list g) = servers sl @ [a]"
proof -
  have "servers (server_info_list g) \<noteq> []" using slist_count [OF assms(1)] assms(3) by simp
  then obtain xs x where xs: "servers (server_info_list g) = xs @ [x]" by (metis rev_exhaust)
  from last_server [OF assms(1) xs] obtain sl where
    "getServerItem (server_info_list g) (sl_occupied (server_info_list g) - 1) = Ok (Some x)"
    "removeServerItem (server_info_list g) (sl_occupied (server_info_list g) - 1) = Ok sl"
    "slist_wf sl" "servers sl = xs" by blast
  with assms xs that show ?thesis by (simp add: worker_step_def Let_def)
qed

lemma return_server_step:
  assumes "slist_wf (server_info_list g)"
  obtains sl where "return_server i a g = Ok (move_to i Exited (g\<lparr>server_info_list := sl\<rparr>))"
    "slist_wf sl" "servers sl = servers (server_info_list g) @ [a]"
proof -
  obtain sl where "addServerItem (server_info_list g) a = Ok sl" "slist_wf sl"
    "servers sl = servers (server_info_list g) @ [a]"
    by (rule servers_array.grow_cases [OF assms])
  with that [of sl] show ?thesis by (simp add: return_server_def)
qed

lemma take_job_step:
  assumes "jlist_wf (chunk_jobs g)" "workers g ! i = Take_job a r" "jl_occupied (chunk_jobs g) \<noteq> 0"
  obtains j js where "worker_step i k g = Ok (move_to i (Download a j) (g\<lparr>chunk_jobs := js\<rparr>))"
    "jlist_wf js" "jobs (chunk_jobs g) = jobs js @ [j]" "jl_size js = jl_size (chunk_jobs g)"
proof -
  have "jobs (chunk_jobs g) \<noteq> []" using jlist_count [OF assms(1)] assms(3) by simp
  then obtain xs x where xs: "jobs (chunk_jobs g) = xs @ [x]" by (metis rev_exhaust)
  from popJobItem_snoc [OF assms(1) xs] obtain js where "popJobItem (chunk_jobs g) = Ok (Some x, js)"
    "jlist_wf js" "jobs js = xs" "jl_size js = jl_size (chunk_jobs g)" by blast
  with assms xs that show ?thesis by (simp add: worker_step_def)
qed

lemma record_done_step:
  assumes "jlist_wf (done_jobs g)" "job_room (done_jobs g) j" "workers g ! i = Record_done a j"
  obtains ds where "worker_step i k g = Ok (move_to i (Loop_test a (Some 0)) (g\<lparr>done_jobs := ds\<rparr>))"
    "jlist_wf ds" "jobs ds = jobs (done_jobs g) @ [j]" "jl_size ds = jl_size (done_jobs g)"
proof -
  obtain ds where "addJobItem (done_jobs g) j = Ok ds" "jlist_wf ds" "jobs ds = jobs (done_jobs g) @ [j]"
    by (rule jobs_array.add_cases [OF assms(1,2)])
  with assms(3) that addJobItem_size show ?thesis by (simp add: worker_step_def)
qed

lemma put_back_step:
  assumes "jlist_wf (chunk_jobs g)" "job_room (chunk_jobs g) j" "workers g ! i = Put_back a j"
  obtains js where "worker_step i k g = Ok (move_to i (Release a (Some 1)) (g\<lparr>chunk_jobs := js\<rparr>))"
    "jlist_wf js" "jobs js = jobs (chunk_jobs g) @ [j]" "jl_size js = jl_size (chunk_jobs g)"
proof -
  obtain js where "addJobItem (chunk_jobs g) j = Ok js" "jlist_wf js" "jobs js = jobs (chunk_jobs g) @ [j]"
    by (rule jobs_array.add_cases [OF assms(1,2)])
  with assms(3) that addJobItem_size show ?thesis by (simp add: worker_step_def)
qed

lemma take_server_ok:
  assumes "pool_ok J S g" "i < length (workers g)" "workers g ! i = Wait_server" "sl_occupied (server_info_list g) \<noteq> 0"
  shows "\<exists>g'. worker_step i k g = Ok g' \<and> pool_ok J S g' \<and> length (workers g') = length (workers g)"
proof -
  obtain a sl where sl: "worker_step i k g = Ok (move_to i (Loop_test a None) (g\<lparr>server_info_list := sl\<rparr>))"
    "slist_wf sl" "servers (server_info_list g) = servers sl @ [a]"
    by (rule take_server_step [OF pool_okD(1) [OF assms(1)] assms(3,4)])
  let ?g = "move_to i (Loop_test a None) (g\<lparr>server_info_list := sl\<rparr>)"
  have "mset (jobs_held ?g) = mset (jobs_held g)" "mset (servers_held ?g) = mset (servers_held g) + {#a#}"
    using move_held [of i "g\<lparr>server_info_list := sl\<rparr>" "Loop_test a None"] assms(2,3) by simp_all
  then have "pool_ok J S ?g" using assms(1) sl by (simp add: pool_ok_def)
  then show ?thesis using sl(1) by simp
qed

lemma return_server_ok:
  assumes "pool_ok J S g" "i < length (workers g)" "server_held (workers g ! i) = [a]" "job_held (workers g ! i) = []"
  shows "\<exists>g'. return_server i a g = Ok g' \<and> pool_ok J S g' \<and> length (workers g') = length (workers g)"
proof -
  obtain sl where sl: "return_server i a g = Ok (move_to i Exited (g\<lparr>server_info_list := sl\<rparr>))"
    "slist_wf sl" "servers sl = servers (server_info_list g) @ [a]"
    by (rule return_server_step [OF pool_okD(1) [OF assms(1)]])
  let ?g = "move_to i Exited (g\<lparr>server_info_list := sl\<rparr>)"
  have "mset (jobs_held ?g) = mset (jobs_held g)" "mset (servers_held g) = add_mset a (mset (servers_held ?g))"
    using move_held [of i "g\<lparr>server_info_list := sl\<rparr>" Exited] assms(2-4) by simp_all
  then have "pool_ok J S ?g" using assms(1) sl by (simp add: pool_ok_def)
  then show ?thesis using sl(1) by simp
qed

lemma take_job_ok:
  assumes "pool_ok J S g" "i < length (workers g)" "workers g ! i = Take_job a r" "jl_occupied (chunk_jobs g) \<noteq> 0"
  shows "\<exists>g'. worker_step i k g = Ok g' \<and> pool_ok J S g' \<and> length (workers g') = length (workers g)"
proof -
  obtain j js where js: "worker_step i k g = Ok (move_to i (Download a j) (g\<lparr>chunk_jobs := js\<rparr>))"
    "jlist_wf js" "jobs (chunk_jobs g) = jobs js @ [j]" "jl_size js = jl_size (chunk_jobs g)"
    by (rule take_job_step [OF pool_okD(2) [OF assms(1)] assms(3,4)])
  let ?g = "move_to i (Download a j) (g\<lparr>chunk_jobs := js\<rparr>)"
  have "mset (jobs_held ?g) = mset (jobs_held g) + {#j#}" "mset (servers_held ?g) = mset (servers_held g)"
    using move_held [of i "g\<lparr>chunk_jobs := js\<rparr>" "Download a j"] assms(2,3) by simp_all
  then have "pool_ok J S ?g" using assms(1) js by (auto simp: pool_ok_def)
  then show ?thesis using js(1) by simp
qed

lemma record_done_ok:
  assumes "pool_ok J S g" "i < length (workers g)" "workers g ! i = Record_done a j"
  shows "\<exists>g'. worker_step i k g = Ok g' \<and> pool_ok J S g' \<and> length (workers g') = length (workers g)"
proof -
  have "job_room (done_jobs g) j" using held_job_room [OF assms(1,2)] assms(3) by simp
  then obtain ds where ds: "worker_step i k g = Ok (move_to i (Loop_test a (Some 0)) (g\<lparr>done_jobs := ds\<rparr>))"
    "jlist_wf ds" "jobs ds = jobs (done_jobs g) @ [j]" "jl_size ds = jl_size (done_jobs g)"
    by (rule record_done_step [OF pool_okD(3) [OF assms(1)] _ assms(3)])
  let ?g = "move_to i (Loop_test a (Some 0)) (g\<lparr>done_jobs := ds\<rparr>)"
  have "mset (jobs_held g) = add_mset j (mset (jobs_held ?g))" "mset (servers_held ?g) = mset (servers_held g)"
    using move_held [of i "g\<lparr>done_jobs := ds\<rparr>" "Loop_test a (Some 0)"] assms(2,3) by simp_all
  then have "pool_ok J S ?g" using assms(1) ds by (auto simp: pool_ok_def)
  then show ?thesis using ds(1) by simp
qed

lemma put_back_ok:
  assumes "pool_ok J S g" "i < length (workers g)" "workers g ! i = Put_back a j"
  shows "\<exists>g'. worker_step i k g = Ok g' \<and> pool_ok J S g' \<and> length (workers g') = length (workers g)"
proof -
  note ok = pool_okD [OF assms(1)]
  have "job_room (chunk_jobs g) j" using held_job_room [OF assms(1,2)] assms(3) by simp
  then obtain js where js: "worker_step i k g = Ok (move_to i (Release a (Some 1)) (g\<lparr>chunk_jobs := js\<rparr>))"
    "jlist_wf js" "jobs js = jobs (chunk_jobs g) @ [j]" "jl_size js = jl_size (chunk_jobs g)"
    by (rule put_back_step [OF ok(2) _ assms(3)])
  let ?g = "move_to i (Release a (Some 1)) (g\<lparr>chunk_jobs := js\<rparr>)"
  have held: "mset (jobs_held g) = add_mset j (mset (jobs_held ?g))"
    "mset (servers_held g) = add_mset a (mset (servers_held ?g))"
    using move_held [of i "g\<lparr>chunk_jobs := js\<rparr>" "Release a (Some 1)"] assms(2,3) by simp_all
  have "mset (servers_held ?g) \<subseteq># mset (servers_held g)" unfolding held(2) by simp
  then have "mset (servers (server_info_list g)) + mset (servers_held ?g) \<subseteq># S"
    using subset_mset.order_trans [OF subset_mset.add_left_mono] ok(5) by blast
  moreover have "mset (jobs (chunk_jobs g)) + mset (jobs (done_jobs g)) + add_mset j (mset (jobs_held ?g)) = J"
    using ok(4) held(1) by simp
  ultimately have "pool_ok J S ?g" using assms(1) js by (auto simp: pool_ok_def)
  then show ?thesis using js(1) by simp
qed

lemma worker_step_cases:
  assumes "pool_ok J S g" "i < length (workers g)" "\<nexists>a. workers g ! i = Release a None"
  shows "\<exists>g'. worker_step i k g = Ok g' \<and> pool_ok J S g' \<and> length (workers g') = length (workers g)"
proof (cases "workers g ! i")
  case Wait_server
  with assms take_server_ok show ?thesis
    by (cases "sl_occupied (server_info_list g) = 0") (auto simp: worker_step_def)
next
  case (Loop_test a r)
  then have "pool_ok J S (move_to i (Take_job a r) g)" "pool_ok J S (move_to i (Release a r) g)"
    using assms(1,2) by (auto intro!: pool_ok_move)
  with Loop_test show ?thesis by (simp add: worker_step_def)
next
  case (Take_job a r)
  show ?thesis
  proof (cases "jl_occupied (chunk_jobs g) = 0")
    case True
    have "pool_ok J S (move_to i (Give_back a) g)" using assms(1,2) Take_job by (auto intro!: pool_ok_move)
    with Take_job True show ?thesis by (simp add: worker_step_def)
  next
    case False
    with take_job_ok [OF assms(1,2) Take_job] show ?thesis by blast
  qed
next
  case (Give_back a)
  with return_server_ok [OF assms(1,2), of a] show ?thesis by (simp add: worker_step_def)
next
  case (Download a j)
  then have "pool_ok J S (move_to i (Record_done a j) g)" "pool_ok J S (move_to i (Put_back a j) g)"
    using assms(1,2) by (auto intro!: pool_ok_move)
  with Download show ?thesis by (simp add: worker_step_def)
next
  case (Record_done a j)
  with record_done_ok assms(1,2) show ?thesis by blast
next
  case (Put_back a j)
  with put_back_ok assms(1,2) show ?thesis by blast
next
  case (Release a r)
  then obtain v where v: "r = Some v" using assms(3) by (cases r) auto
  show ?thesis
  proof (cases "v = 1")
    case True
    have "pool_ok J S (move_to i Exited g)" using assms(1,2) Release by (auto intro!: pool_ok_move)
    with Release v True show ?thesis by (simp add: worker_step_def)
  next
    case False
    with return_server_ok [OF assms(1,2), of a] Release v show ?thesis by (simp add: worker_step_def)
  qed
next
  case Exited
  with assms(1) show ?thesis by (simp add: worker_step_def)
qed

lemma worker_step_ok:
  assumes "pool_ok J S g" "i < length (workers g)" "worker_step i k g = Ok g'"
  shows "pool_ok J S g'" "length (workers g') = length (workers g)"
proof -
  have "\<nexists>a. workers g ! i = Release a None" using assms(3) by (auto simp: worker_step_def)
  from worker_step_cases [OF assms(1,2) this, of k] assms(3)
  show "pool_ok J S g'" "length (workers g') = length (workers g)" by auto
qed

lemma pool_reach_ok: "pool_reach g0 g \<Longrightarrow> pool_ok J S g0 \<Longrightarrow> pool_ok J S g"
  by (induction rule: pool_reach.induct) (auto elim!: pool_stepE dest: worker_step_ok)

text \<open>The pool \<open>main\<close> starts with.\<close>

lemma start_pool_ok:
  assumes "slist_wf sl" "0 < n" "createJobsList n f tot = Ok js" "initJobArray n = Ok ds"
  shows "pool_ok (mset (jobs js)) (mset (servers sl)) (start_pool sl js ds n)"
proof -
  have "jlist_wf ds" "jobs ds = []" "jl_size ds = n" using initJobArray_wf [of n] assms(2,4) by auto
  moreover have "jlist_wf js" "jl_size js = n" "jobs js = map (job_at n f tot) [0..<nat n]"
    using createJobsList_result [OF assms(2), of f tot] assms(3) by auto
  moreover have "jobs_held (start_pool sl js ds n) = []" "servers_held (start_pool sl js ds n) = []"
    by (simp_all add: jobs_held_def servers_held_def start_pool_def createWorkerList_def)
  ultimately show ?thesis using assms(1,2) by (simp add: pool_ok_def start_pool_def)
qed

section \<open>Properties\<close>

text \<open>
  Property C22.  No job is lost or done twice: in every reachable state each job of the plan is in
  exactly one of the stack of jobs to do, the list of jobs done and the hands of one worker.  And no
  server is used by two workers at once, although \<^verbatim>\<open>HW4/lab04_thread.pdf\<close> asks for more: with more
  chunks than servers it wants the next chunk started on a server that is busy, where the code has
  the worker wait for a free one.
\<close>

theorem workers_conserve_jobs:
  assumes "slist_wf sl" "0 < n" "createJobsList n f tot = Ok js" "initJobArray n = Ok ds"
    and "pool_reach (start_pool sl js ds n) g"
  shows "mset (jobs (chunk_jobs g)) + mset (jobs (done_jobs g)) + mset (jobs_held g) = mset (jobs js)
    \<and> mset (servers (server_info_list g)) + mset (servers_held g) \<subseteq># mset (servers sl)"
  using pool_reach_ok [OF assms(5) start_pool_ok [OF assms(1-4)]] pool_okD(4,5) by blast

text \<open>
  The unchecked \<open>addJobItem\<close> never overruns its list, and nothing else stops a
  worker, in any reachable state, except the one use of an uninitialised variable: a worker that
  leaves the loop without having downloaded anything.
\<close>

lemma worker_stops_exactly:
  assumes "slist_wf sl" "0 < n" "createJobsList n f tot = Ok js" "initJobArray n = Ok ds"
    and "pool_reach (start_pool sl js ds n) g" "i < length (workers g)"
  shows "(\<exists>e. worker_step i k g = Inl e) \<longleftrightarrow> (\<exists>a. workers g ! i = Release a None)"
proof
  assume "\<exists>e. worker_step i k g = Inl e"
  with worker_step_cases [OF pool_reach_ok [OF assms(5) start_pool_ok [OF assms(1-4)]] assms(6), of k]
  show "\<exists>a. workers g ! i = Release a None" by fastforce
qed (auto simp: worker_step_def)

text \<open>
  A worker that gets its server late reads an uninitialised variable: once all jobs
  are done, a worker that still waits for a server takes the next one returned, finds nothing to
  do, and tests \<open>ret\<close> before anything was assigned to it.
\<close>

lemma late_worker_uninitialised:
  assumes "slist_wf (server_info_list g)" "servers (server_info_list g) \<noteq> []"
    and "i < length (workers g)" "workers g ! i = Wait_server"
    and "jl_occupied (done_jobs g) = jl_size (done_jobs g)"
  shows "\<exists>g'. run_workers [(i, k), (i, k)] g = Ok g' \<and> worker_step i k g' = ub Uninitialised"
proof -
  obtain xs x where xs: "servers (server_info_list g) = xs @ [x]" using assms(2) by (metis rev_exhaust)
  have occ: "sl_occupied (server_info_list g) \<noteq> 0" using slist_count [OF assms(1)] assms(2) by simp
  from last_server [OF assms(1) xs] obtain sl where sl:
    "getServerItem (server_info_list g) (sl_occupied (server_info_list g) - 1) = Ok (Some x)"
    "removeServerItem (server_info_list g) (sl_occupied (server_info_list g) - 1) = Ok sl" by blast
  let ?g1 = "move_to i (Loop_test x None) (g\<lparr>server_info_list := sl\<rparr>)"
  have "worker_step i k g = Ok ?g1" using assms(4) occ sl by (simp add: worker_step_def Let_def)
  moreover have "worker_step i k ?g1 = Ok (move_to i (Release x None) ?g1)"
    using assms(3,5) by (simp add: worker_step_def move_to_def)
  moreover have "worker_step i k (move_to i (Release x None) ?g1) = ub Uninitialised"
    using assms(3) by (simp add: worker_step_def move_to_def)
  ultimately show ?thesis by simp
qed

text \<open>
  The workers can all be gone with a job left: when one worker downloads the last
  job and the other has found the stack empty, the first one's failure puts the job back for
  nobody, and \<open>main\<close> goes on to put the parts together.
\<close>

lemma workers_leave_job:
  assumes "slist_wf (server_info_list g)" "jlist_wf (chunk_jobs g)" "jobs (chunk_jobs g) = []"
    and "0 < jl_size (chunk_jobs g)" "i < length (workers g)" "j < length (workers g)" "i \<noteq> j"
    and "workers g ! i = Download a job" "workers g ! j = Take_job b r"
    and "\<forall>k < length (workers g). k \<noteq> i \<and> k \<noteq> j \<longrightarrow> workers g ! k = Exited"
  shows "\<exists>g'. run_workers [(j, 0), (j, 0), (i, 1), (i, 1), (i, 1)] g = Ok g'
    \<and> set (workers g') \<subseteq> {Exited} \<and> jobs (chunk_jobs g') = [job]"
proof -
  have occ: "jl_occupied (chunk_jobs g) = 0" using jlist_count [OF assms(2)] assms(3) by simp
  obtain sl where sl: "addServerItem (server_info_list g) b = Ok sl"
    using servers_array.grow_cases [OF assms(1)] by blast
  have "job_room (chunk_jobs g) job" using assms(3,4) by (simp add: job_room_def)
  then obtain js where js: "addJobItem (chunk_jobs g) job = Ok js" "jobs js = [job]"
    using jobs_array.add_cases [OF assms(2)] assms(3) by (metis append_Nil)
  let ?ws = "(workers g)[j := Exited, i := Exited]"
  have "set ?ws \<subseteq> {Exited}"
    using assms(5,6,10) by (auto simp: in_set_conv_nth nth_list_update split: if_splits)
  moreover have "run_workers [(j, 0), (j, 0), (i, 1), (i, 1), (i, 1)] g
      = Ok (g\<lparr>server_info_list := sl, chunk_jobs := js, workers := ?ws\<rparr>)"
    using assms(5-9) occ sl js(1) by (simp add: worker_step_def return_server_def move_to_def)
  ultimately show ?thesis using js(2) by simp
qed

section \<open>Concrete instances\<close>

definition server_1 :: sockaddr_in where "server_1 = \<lparr>sin_addr = 1, sin_port = 80\<rparr>"
definition server_2 :: sockaddr_in where "server_2 = \<lparr>sin_addr = 2, sin_port = 80\<rparr>"

definition one_server :: server_list_t where
  "one_server = \<lparr>sl_array = [Some server_1, None, None, None, None], sl_size = 5, sl_occupied = 1\<rparr>"

definition two_servers :: server_list_t where
  "two_servers = \<lparr>sl_array = [Some server_1, Some server_2, None, None, None], sl_size = 5, sl_occupied = 2\<rparr>"

definition two_jobs :: job_list_t where
  "two_jobs = \<lparr>jl_array = [Some \<lparr>job_id = 0, file_name = ''f'', file_start = 0, file_end = 4\<rparr>,
      Some \<lparr>job_id = 1, file_name = ''f'', file_start = 5, file_end = 9\<rparr>], jl_size = 2, jl_occupied = 2\<rparr>"

definition no_jobs_done :: job_list_t where
  "no_jobs_done = \<lparr>jl_array = [None, None], jl_size = 2, jl_occupied = 0\<rparr>"

lemma two_jobs_created: "createJobsList 2 ''f'' 10 = Ok two_jobs" "initJobArray 2 = Ok no_jobs_done"
  by code_simp+

lemma servers_wf: "slist_wf one_server" "slist_wf two_servers"
  by code_simp+

text \<open>With one server, the first worker does both jobs and returns it.\<close>

definition late_schedule :: "(nat \<times> int) list" where
  "late_schedule = replicate 11 (0, 0)"

lemma late_run:
  "(case run_workers late_schedule (start_pool one_server two_jobs no_jobs_done 2) of
      Inl e \<Rightarrow> False
    | Inr g \<Rightarrow> slist_wf (server_info_list g) \<and> servers (server_info_list g) \<noteq> [] \<and> workers g = [Exited, Wait_server]
        \<and> jl_occupied (done_jobs g) = jl_size (done_jobs g))"
  by code_simp

text \<open>With two servers, the second worker does its job while the first one's download goes on.\<close>

definition leave_schedule :: "(nat \<times> int) list" where
  "leave_schedule = replicate 3 (0, 0) @ replicate 6 (1, 0)"

definition last_job :: job_item_t where
  "last_job = \<lparr>job_id = 1, file_name = ''f'', file_start = 5, file_end = 9\<rparr>"

lemma leave_run:
  "(case run_workers leave_schedule (start_pool two_servers two_jobs no_jobs_done 2) of
      Inl e \<Rightarrow> False
    | Inr g \<Rightarrow> slist_wf (server_info_list g) \<and> jlist_wf (chunk_jobs g) \<and> jobs (chunk_jobs g) = []
        \<and> jl_size (chunk_jobs g) = 2 \<and> workers g = [Download server_2 last_job, Take_job server_1 (Some 0)])"
  by code_simp

lemma start_workers: "workers (start_pool sl js ds 2) = [Wait_server, Wait_server]"
  by (simp add: start_pool_def createWorkerList_def MAX_WORKER_def numeral_2_eq_2)

lemma leave_reached:
  obtains g where "pool_reach (start_pool two_servers two_jobs no_jobs_done 2) g"
    "slist_wf (server_info_list g)" "jlist_wf (chunk_jobs g)" "jobs (chunk_jobs g) = []"
    "jl_size (chunk_jobs g) = 2" "workers g = [Download server_2 last_job, Take_job server_1 (Some 0)]"
proof -
  obtain g where g: "run_workers leave_schedule (start_pool two_servers two_jobs no_jobs_done 2) = Ok g"
    "slist_wf (server_info_list g)" "jlist_wf (chunk_jobs g)" "jobs (chunk_jobs g) = []"
    "jl_size (chunk_jobs g) = 2" "workers g = [Download server_2 last_job, Take_job server_1 (Some 0)]"
    using leave_run by (auto split: sum.splits)
  have "\<forall>(i, k) \<in> set leave_schedule. i < length (workers (start_pool two_servers two_jobs no_jobs_done 2))"
    by (auto simp: leave_schedule_def start_workers)
  from run_workers_reach [OF pool_reach.start g(1) this] g that show ?thesis by blast
qed

theorem workers_conserve_jobs_witness:
  "\<exists>g. jobs_held g = [last_job] \<and> servers_held g = [server_2, server_1] \<and> jobs (chunk_jobs g) = []
    \<and> mset (jobs (done_jobs g)) + {#last_job#} = mset (jobs two_jobs)"
proof -
  obtain g where g: "pool_reach (start_pool two_servers two_jobs no_jobs_done 2) g" "jobs (chunk_jobs g) = []"
    "workers g = [Download server_2 last_job, Take_job server_1 (Some 0)]"
    using leave_reached by blast
  have "jobs_held g = [last_job]" "servers_held g = [server_2, server_1]"
    using g(3) by (simp_all add: jobs_held_def servers_held_def)
  with workers_conserve_jobs [OF servers_wf(2) _ two_jobs_created g(1)] g(2) show ?thesis by auto
qed

lemma worker_stops_exactly_instance:
  "\<exists>g. workers g ! 0 = Download server_2 last_job \<and> (\<exists>g'. worker_step 0 1 g = Ok g')"
proof -
  obtain g where g: "pool_reach (start_pool two_servers two_jobs no_jobs_done 2) g"
    "workers g = [Download server_2 last_job, Take_job server_1 (Some 0)]"
    using leave_reached by blast
  then have "0 < length (workers g)" by simp
  from worker_stops_exactly [OF servers_wf(2) _ two_jobs_created g(1) this, of 1]
  have "\<not> (\<exists>e. worker_step 0 1 g = Inl e)" using g(2) by simp
  then have "\<exists>g'. worker_step 0 1 g = Ok g'" by (cases "worker_step 0 1 g") auto
  moreover have "workers g ! 0 = Download server_2 last_job" using g(2) by simp
  ultimately show ?thesis by blast
qed

lemma late_worker_reached:
  "\<exists>g g'. run_workers late_schedule (start_pool one_server two_jobs no_jobs_done 2) = Ok g
    \<and> run_workers [(1, 0), (1, 0)] g = Ok g' \<and> worker_step 1 0 g' = ub Uninitialised"
proof -
  obtain g where g: "run_workers late_schedule (start_pool one_server two_jobs no_jobs_done 2) = Ok g"
    "slist_wf (server_info_list g)" "servers (server_info_list g) \<noteq> []" "workers g = [Exited, Wait_server]"
    "jl_occupied (done_jobs g) = jl_size (done_jobs g)"
    using late_run by (auto split: sum.splits)
  have "1 < length (workers g)" "workers g ! 1 = Wait_server" using g(4) by simp_all
  from late_worker_uninitialised [OF g(2,3) this g(5), of 0] g(1) show ?thesis by blast
qed

lemma workers_leave_job_instance:
  "\<exists>g g'. pool_reach (start_pool two_servers two_jobs no_jobs_done 2) g
    \<and> run_workers [(1, 0), (1, 0), (0, 1), (0, 1), (0, 1)] g = Ok g'
    \<and> set (workers g') \<subseteq> {Exited} \<and> jobs (chunk_jobs g') = [last_job]"
proof -
  obtain g where g: "pool_reach (start_pool two_servers two_jobs no_jobs_done 2) g"
    "slist_wf (server_info_list g)" "jlist_wf (chunk_jobs g)" "jobs (chunk_jobs g) = []"
    "jl_size (chunk_jobs g) = 2" "workers g = [Download server_2 last_job, Take_job server_1 (Some 0)]"
    using leave_reached by blast
  have s: "0 < jl_size (chunk_jobs g)" using g(5) by simp
  have w: "0 < length (workers g)" "1 < length (workers g)" "0 \<noteq> (1::nat)"
    "workers g ! 0 = Download server_2 last_job" "workers g ! 1 = Take_job server_1 (Some 0)"
    "\<forall>k < length (workers g). k \<noteq> 0 \<and> k \<noteq> 1 \<longrightarrow> workers g ! k = Exited"
    using g(6) by (simp_all add: less_Suc_eq)
  from workers_leave_job [OF g(2-4) s w] g(1) show ?thesis by blast
qed

end
