(* ===== verification/Hw4_Progress.thy ===== *)
theory Hw4_Progress
  imports Hw4_Workers
begin

text \<open>
  That the download threads of \<^verbatim>\<open>HW4/client.c\<close> come to an end, and what they have done by
  then: a measure that every effective step lowers, the states in which nothing moves any more, and
  what holds there when no answer was lost.
\<close>

section \<open>Every run is finite\<close>

text \<open>What a worker still has to do, counting four for each job on the stack.\<close>

fun weight :: "worker \<Rightarrow> nat" where
  "weight Wait_server = 6"
| "weight (Loop_test a r) = 5"
| "weight (Take_job a r) = 4"
| "weight (Give_back a) = 1"
| "weight (Download a j) = 7"
| "weight (Record_done a j) = 6"
| "weight (Put_back a j) = 6"
| "weight (Release a r) = 1"
| "weight Exited = 0"

definition work_left :: "pool \<Rightarrow> nat" where
  "work_left g = 4 * length (jobs (chunk_jobs g)) + sum_list (map weight (workers g))"

lemma sum_list_update_nat:
  "i < length ws \<Longrightarrow> sum_list (map f (ws[i := w])) + f (ws ! i) = sum_list (map f ws) + (f w :: nat)"
proof (induction ws arbitrary: i)
  case Nil
  then show ?case by simp
next
  case (Cons v ws)
  then show ?case by (cases i) (auto simp: ac_simps)
qed

lemma work_left_move:
  "i < length (workers g) \<Longrightarrow> work_left (move_to i w g) + weight (workers g ! i) = work_left g + weight w"
  using sum_list_update_nat [of i "workers g" weight w] by (simp add: work_left_def move_to_def)

lemma work_left_frame [simp]:
  "work_left (g\<lparr>server_info_list := sl\<rparr>) = work_left g" "work_left (g\<lparr>done_jobs := ds\<rparr>) = work_left g"
  by (simp_all add: work_left_def)

lemma work_left_jobs:
  "work_left (g\<lparr>chunk_jobs := js\<rparr>) + 4 * length (jobs (chunk_jobs g)) = work_left g + 4 * length (jobs js)"
  by (simp add: work_left_def)

text \<open>A step that changes anything lowers what is left to do.\<close>

lemma worker_step_lowers:
  assumes "pool_ok J S g" "i < length (workers g)" "worker_step i k g = Ok g'"
  shows "g' = g \<or> work_left g' < work_left g"
proof -
  note ok = pool_okD [OF assms(1)]
  have plain: "work_left (move_to i w g) < work_left g" if "weight w < weight (workers g ! i)" for w
    using work_left_move [OF assms(2), of w] that by linarith
  have server: "work_left (move_to i w (g\<lparr>server_info_list := sl\<rparr>)) < work_left g" if "weight w < weight (workers g ! i)" for w sl
    using work_left_move [of i "g\<lparr>server_info_list := sl\<rparr>" w] assms(2) that by simp
  show ?thesis
  proof (cases "workers g ! i")
    case Wait_server
    show ?thesis
    proof (cases "sl_occupied (server_info_list g) = 0")
      case True
      with assms(3) Wait_server show ?thesis by (simp add: worker_step_def)
    next
      case False
      then obtain a sl where "worker_step i k g = Ok (move_to i (Loop_test a None) (g\<lparr>server_info_list := sl\<rparr>))"
        by (rule take_server_step [OF ok(1) Wait_server])
      with assms(3) Wait_server server [of "Loop_test a None" sl] show ?thesis by simp
    qed
  next
    case (Loop_test a r)
    with assms(3) plain show ?thesis by (auto simp: worker_step_def split: if_splits)
  next
    case (Take_job a r)
    show ?thesis
    proof (cases "jl_occupied (chunk_jobs g) = 0")
      case True
      with assms(3) Take_job plain [of "Give_back a"] show ?thesis by (simp add: worker_step_def)
    next
      case False
      then obtain j js where js: "worker_step i k g = Ok (move_to i (Download a j) (g\<lparr>chunk_jobs := js\<rparr>))"
        "jobs (chunk_jobs g) = jobs js @ [j]" by (rule take_job_step [OF ok(2) Take_job])
      with work_left_move [of i "g\<lparr>chunk_jobs := js\<rparr>" "Download a j"] work_left_jobs [of js g] assms(2,3) Take_job
      show ?thesis by simp
    qed
  next
    case (Give_back a)
    obtain sl where "return_server i a g = Ok (move_to i Exited (g\<lparr>server_info_list := sl\<rparr>))"
      by (rule return_server_step [OF ok(1)])
    with assms(3) Give_back server [of Exited sl] show ?thesis by (simp add: worker_step_def)
  next
    case (Download a j)
    with assms(3) plain show ?thesis by (auto simp: worker_step_def)
  next
    case (Record_done a j)
    have "job_room (done_jobs g) j" using held_job_room(2) [OF assms(1,2)] Record_done by simp
    then obtain ds where "worker_step i k g = Ok (move_to i (Loop_test a (Some 0)) (g\<lparr>done_jobs := ds\<rparr>))"
      by (rule record_done_step [OF ok(3) _ Record_done])
    with work_left_move [of i "g\<lparr>done_jobs := ds\<rparr>" "Loop_test a (Some 0)"] assms(2,3) Record_done
    show ?thesis by simp
  next
    case (Put_back a j)
    have "job_room (chunk_jobs g) j" using held_job_room(1) [OF assms(1,2)] Put_back by simp
    then obtain js where "worker_step i k g = Ok (move_to i (Release a (Some 1)) (g\<lparr>chunk_jobs := js\<rparr>))"
      "jobs js = jobs (chunk_jobs g) @ [j]" by (rule put_back_step [OF ok(2) _ Put_back])
    with work_left_move [of i "g\<lparr>chunk_jobs := js\<rparr>" "Release a (Some 1)"] work_left_jobs [of js g] assms(2,3) Put_back
    show ?thesis by simp
  next
    case (Release a r)
    then obtain v where v: "r = Some v" using assms(3) by (cases r) (auto simp: worker_step_def)
    obtain sl where "return_server i a g = Ok (move_to i Exited (g\<lparr>server_info_list := sl\<rparr>))"
      by (rule return_server_step [OF ok(1)])
    with assms(3) Release v server [of Exited sl] plain [of Exited] show ?thesis by (auto simp: worker_step_def split: if_splits)
  next
    case Exited
    with assms(3) show ?thesis by (simp add: worker_step_def)
  qed
qed

text \<open>The steps of a schedule that change the state, up to a step that stops.\<close>

fun effective_steps :: "(nat \<times> int) list \<Rightarrow> pool \<Rightarrow> nat" where
  "effective_steps [] g = 0"
| "effective_steps ((i, outcome) # sch) g =
    (case worker_step i outcome g of
       Inl e \<Rightarrow> 0
     | Inr g' \<Rightarrow> (if g' = g then 0 else 1) + effective_steps sch g')"

lemma effective_steps_bound:
  "pool_ok J S g \<Longrightarrow> \<forall>(i, k) \<in> set sch. i < length (workers g) \<Longrightarrow> effective_steps sch g \<le> work_left g"
proof (induction sch g rule: effective_steps.induct)
  case (1 g)
  then show ?case by simp
next
  case (2 i outcome sch g)
  show ?case
  proof (cases "worker_step i outcome g")
    case (Inl e)
    then show ?thesis by simp
  next
    case (Inr g')
    have i: "i < length (workers g)" using 2(3) by simp
    note kept = worker_step_ok [OF 2(2) i Inr]
    have "effective_steps sch g' \<le> work_left g'"
      using 2(1) [OF Inr kept(1)] 2(3) kept(2) by auto
    with worker_step_lowers [OF 2(2) i Inr] Inr show ?thesis by auto
  qed
qed

lemma work_left_start:
  assumes "0 < n" "createJobsList n f tot = Ok js"
  shows "work_left (start_pool sl js ds n) = 4 * nat n + 6 * min (nat n) 100"
proof -
  have "jobs js = map (job_at n f tot) [0..<nat n]" using createJobsList_result [OF assms(1), of f tot] assms(2) by auto
  then have "length (jobs js) = nat n" by simp
  moreover have "(if int MAX_WORKER < n then MAX_WORKER else nat n) = min (nat n) 100"
    using assms(1) by (auto simp: MAX_WORKER_def min_def)
  ultimately show ?thesis by (simp add: work_left_def start_pool_def createWorkerList_def sum_list_replicate)
qed

text \<open>
  Property C23.  The download comes to an end: whatever the schedule, the answers and the servers
  that die, at most four steps for each job and six for each thread change anything.
\<close>

theorem workers_terminate:
  assumes "slist_wf sl" "0 < n" "createJobsList n f tot = Ok js" "initJobArray n = Ok ds"
    and "\<forall>(i, k) \<in> set sch. i < length (workers (start_pool sl js ds n))"
  shows "effective_steps sch (start_pool sl js ds n) \<le> 4 * nat n + 6 * min (nat n) 100"
  using effective_steps_bound [OF start_pool_ok [OF assms(1-4)] assms(5)] work_left_start [OF assms(2,3)] by simp

lemma run_workers_length: "run_workers sch g = Ok g' \<Longrightarrow> length (workers g') = length (workers g)"
  by (induction sch g rule: run_workers.induct) (auto simp: res_simps dest: worker_step_length)

section \<open>What is done in the end\<close>

text \<open>A state in which no worker's step changes anything.\<close>

definition quiet :: "pool \<Rightarrow> bool" where
  "quiet g \<longleftrightarrow> (\<forall>i < length (workers g). worker_step i 0 g = Ok g)"

text \<open>The places behind which a worker no longer looks for jobs.\<close>

fun finished :: "worker \<Rightarrow> bool" where
  "finished (Give_back a) = True"
| "finished (Release a r) = True"
| "finished Exited = True"
| "finished _ = False"

fun given_up :: "worker \<Rightarrow> bool" where
  "given_up (Put_back a j) = True"
| "given_up (Release a r) = (r = Some 1)"
| "given_up (Loop_test a r) = (r = Some 1)"
| "given_up (Take_job a r) = (r = Some 1)"
| "given_up _ = False"

text \<open>
  The invariant while no answer is lost: all servers are accounted for, no worker has given up, and
  once a worker has finished the stack of jobs is empty.
\<close>

definition success_ok :: "job_item_t multiset \<Rightarrow> sockaddr_in multiset \<Rightarrow> pool \<Rightarrow> bool" where
  "success_ok J S g \<longleftrightarrow> pool_ok J S g \<and> mset (servers (server_info_list g)) + mset (servers_held g) = S
    \<and> (\<forall>w \<in> set (workers g). \<not> given_up w)
    \<and> ((\<exists>w \<in> set (workers g). finished w) \<longrightarrow> jobs (chunk_jobs g) = [])"

lemma workers_move: "workers (move_to i w g) = (workers g)[i := w]"
  by (simp add: move_to_def)

lemma success_move:
  assumes "success_ok J S g" "i < length (workers g)" "pool_ok J S (move_to i w h)"
    and "workers h = workers g" "\<not> given_up w"
    and "mset (servers (server_info_list h)) + mset (server_held w) =
      mset (servers (server_info_list g)) + mset (server_held (workers g ! i))"
    and "jobs (chunk_jobs g) = [] \<Longrightarrow> jobs (chunk_jobs h) = []" "finished w \<Longrightarrow> jobs (chunk_jobs h) = []"
  shows "success_ok J S (move_to i w h)"
proof -
  have held: "mset (servers_held (move_to i w h)) + mset (server_held (workers g ! i)) =
      mset (servers_held g) + mset (server_held w)"
    using move_held(2) [of i h w] assms(2,4) by (simp add: servers_held_def)
  have "mset (servers (server_info_list h)) + mset (servers_held (move_to i w h)) + mset (server_held (workers g ! i))
      = S + mset (server_held (workers g ! i))"
  proof -
    have "mset (servers (server_info_list h)) + mset (servers_held (move_to i w h)) + mset (server_held (workers g ! i))
        = mset (servers (server_info_list h)) + mset (server_held w) + mset (servers_held g)"
      using held by (simp add: ac_simps)
    also have "\<dots> = S + mset (server_held (workers g ! i))"
      unfolding assms(6) using assms(1) by (auto simp: success_ok_def ac_simps)
    finally show ?thesis .
  qed
  then have "mset (servers (server_info_list h)) + mset (servers_held (move_to i w h)) = S" by simp
  moreover have "set (workers (move_to i w h)) \<subseteq> insert w (set (workers g))"
    by (simp add: workers_move assms(4) set_update_subset_insert)
  ultimately show ?thesis
    using assms(1,3,5,7,8) by (auto simp: success_ok_def)
qed

lemma success_step:
  assumes "success_ok J S g" "i < length (workers g)" "worker_step i 0 g = Ok g'"
  shows "success_ok J S g'"
proof -
  have ok': "pool_ok J S g" using assms(1) by (simp add: success_ok_def)
  note ok = pool_okD [OF ok'] and kept = worker_step_ok(1) [OF ok' assms(2,3)]
  note move = success_move [OF assms(1,2)]
  have good: "\<not> given_up (workers g ! i)" "finished (workers g ! i) \<Longrightarrow> jobs (chunk_jobs g) = []"
    using assms(1,2) by (auto simp: success_ok_def)
  show ?thesis
  proof (cases "workers g ! i")
    case Wait_server
    show ?thesis
    proof (cases "sl_occupied (server_info_list g) = 0")
      case True
      with assms(1,3) Wait_server show ?thesis by (simp add: worker_step_def)
    next
      case False
      then obtain a sl where sl: "worker_step i 0 g = Ok (move_to i (Loop_test a None) (g\<lparr>server_info_list := sl\<rparr>))"
        "servers (server_info_list g) = servers sl @ [a]" by (rule take_server_step [OF ok(1) Wait_server])
      then have g': "g' = move_to i (Loop_test a None) (g\<lparr>server_info_list := sl\<rparr>)" using assms(3) by simp
      show ?thesis unfolding g' by (rule move) (use kept g' sl Wait_server in auto)
    qed
  next
    case (Loop_test a r)
    show ?thesis
    proof (cases "jl_occupied (done_jobs g) = jl_size (done_jobs g)")
      case False
      then have g': "g' = move_to i (Take_job a r) g" using assms(3) Loop_test by (simp add: worker_step_def)
      show ?thesis unfolding g' by (rule move) (use kept g' Loop_test good(1) in auto)
    next
      case True
      then have g': "g' = move_to i (Release a r) g" using assms(3) Loop_test by (simp add: worker_step_def)
      have "size J = length (jobs (chunk_jobs g)) + length (jobs (done_jobs g)) + length (jobs_held g)"
        unfolding ok(4) [symmetric] by simp
      moreover have "int (length (jobs (done_jobs g))) = int (size J)"
        using True jlist_count [OF ok(3)] ok' by (simp add: pool_ok_def)
      ultimately have "length (jobs (chunk_jobs g)) = 0" by linarith
      then have empty: "jobs (chunk_jobs g) = []" by simp
      have r: "r \<noteq> Some 1" using good(1) Loop_test by simp
      show ?thesis unfolding g' by (rule move) (use kept g' Loop_test empty r in auto)
    qed
  next
    case (Take_job a r)
    show ?thesis
    proof (cases "jl_occupied (chunk_jobs g) = 0")
      case True
      then have g': "g' = move_to i (Give_back a) g" using assms(3) Take_job by (simp add: worker_step_def)
      have "jobs (chunk_jobs g) = []" using True jlist_count [OF ok(2)] by simp
      then show ?thesis unfolding g' by (intro move) (use kept g' Take_job in auto)
    next
      case False
      then obtain j js where js: "worker_step i 0 g = Ok (move_to i (Download a j) (g\<lparr>chunk_jobs := js\<rparr>))"
        "jobs (chunk_jobs g) = jobs js @ [j]" by (rule take_job_step [OF ok(2) Take_job])
      then have g': "g' = move_to i (Download a j) (g\<lparr>chunk_jobs := js\<rparr>)" using assms(3) by simp
      show ?thesis unfolding g' by (rule move) (use kept g' js Take_job in auto)
    qed
  next
    case (Give_back a)
    obtain sl where sl: "return_server i a g = Ok (move_to i Exited (g\<lparr>server_info_list := sl\<rparr>))"
      "servers sl = servers (server_info_list g) @ [a]" by (rule return_server_step [OF ok(1)])
    then have g': "g' = move_to i Exited (g\<lparr>server_info_list := sl\<rparr>)"
      using assms(3) Give_back by (simp add: worker_step_def)
    show ?thesis unfolding g' by (rule move) (use kept g' sl Give_back good in auto)
  next
    case (Download a j)
    then have g': "g' = move_to i (Record_done a j) g" using assms(3) by (simp add: worker_step_def)
    show ?thesis unfolding g' by (rule move) (use kept g' Download in auto)
  next
    case (Record_done a j)
    have "job_room (done_jobs g) j" using held_job_room(2) [OF ok' assms(2)] Record_done by simp
    then obtain ds where "worker_step i 0 g = Ok (move_to i (Loop_test a (Some 0)) (g\<lparr>done_jobs := ds\<rparr>))"
      by (rule record_done_step [OF ok(3) _ Record_done])
    then have g': "g' = move_to i (Loop_test a (Some 0)) (g\<lparr>done_jobs := ds\<rparr>)" using assms(3) by simp
    show ?thesis unfolding g' by (rule move) (use kept g' Record_done in auto)
  next
    case (Put_back a j)
    with good show ?thesis by simp
  next
    case (Release a r)
    then obtain v where v: "r = Some v" "v \<noteq> 1" using assms(3) good by (cases r) (auto simp: worker_step_def)
    obtain sl where sl: "return_server i a g = Ok (move_to i Exited (g\<lparr>server_info_list := sl\<rparr>))"
      "servers sl = servers (server_info_list g) @ [a]" by (rule return_server_step [OF ok(1)])
    then have g': "g' = move_to i Exited (g\<lparr>server_info_list := sl\<rparr>)"
      using assms(3) Release v by (simp add: worker_step_def)
    show ?thesis unfolding g' by (rule move) (use kept g' sl Release good v in auto)
  next
    case Exited
    with assms(1,3) show ?thesis by (simp add: worker_step_def)
  qed
qed


lemma success_run:
  "success_ok J S g \<Longrightarrow> \<forall>(i, k) \<in> set sch. i < length (workers g) \<and> k = 0 \<Longrightarrow> run_workers sch g = Ok g' \<Longrightarrow>
    success_ok J S g'"
proof (induction sch g rule: run_workers.induct)
  case (1 g)
  then show ?case by simp
next
  case (2 i k sch g)
  then obtain g1 where g1: "worker_step i 0 g = Ok g1" "run_workers sch g1 = Ok g'" and i: "i < length (workers g)" "k = 0"
    by (auto simp: res_simps)
  have "success_ok J S g1" using success_step [OF 2(2) i(1) g1(1)] .
  moreover have "length (workers g1) = length (workers g)" by (rule worker_step_length [OF g1(1)])
  ultimately show ?case using 2(1) [of g1] g1 i 2(3) by auto
qed

text \<open>A quiet worker has exited, or waits for a server that is not there.\<close>

lemma quiet_worker:
  assumes "pool_ok J S g" "quiet g" "i < length (workers g)"
  shows "workers g ! i = Exited \<or> workers g ! i = Wait_server \<and> servers (server_info_list g) = []"
proof -
  have q: "worker_step i 0 g = Ok g" using assms(2,3) by (simp add: quiet_def)
  have moved: "move_to i w h = g \<Longrightarrow> workers h = workers g \<Longrightarrow> w = workers g ! i" for w h
    using assms(3) by (metis nth_list_update_eq workers_move)
  note ok = pool_okD [OF assms(1)]
  show ?thesis
  proof (cases "workers g ! i")
    case Wait_server
    have "sl_occupied (server_info_list g) = 0"
    proof (rule ccontr)
      assume "sl_occupied (server_info_list g) \<noteq> 0"
      then obtain a sl where "worker_step i 0 g = Ok (move_to i (Loop_test a None) (g\<lparr>server_info_list := sl\<rparr>))"
        by (rule take_server_step [OF ok(1) Wait_server])
      with q moved Wait_server show False by fastforce
    qed
    with Wait_server slist_count [OF ok(1)] show ?thesis by simp
  next
    case (Loop_test a r)
    with q moved show ?thesis by (fastforce simp: worker_step_def split: if_splits)
  next
    case (Take_job a r)
    show ?thesis
    proof (cases "jl_occupied (chunk_jobs g) = 0")
      case True
      with q moved Take_job show ?thesis by (fastforce simp: worker_step_def)
    next
      case False
      then obtain j js where "worker_step i 0 g = Ok (move_to i (Download a j) (g\<lparr>chunk_jobs := js\<rparr>))"
        by (rule take_job_step [OF ok(2) Take_job])
      with q moved Take_job show ?thesis by fastforce
    qed
  next
    case (Give_back a)
    obtain sl where "return_server i a g = Ok (move_to i Exited (g\<lparr>server_info_list := sl\<rparr>))"
      by (rule return_server_step [OF ok(1)])
    with q moved Give_back show ?thesis by (fastforce simp: worker_step_def)
  next
    case (Download a j)
    with q moved show ?thesis by (fastforce simp: worker_step_def)
  next
    case (Record_done a j)
    have "job_room (done_jobs g) j" using held_job_room(2) [OF assms(1,3)] Record_done by simp
    then obtain ds where "worker_step i 0 g = Ok (move_to i (Loop_test a (Some 0)) (g\<lparr>done_jobs := ds\<rparr>))"
      by (rule record_done_step [OF ok(3) _ Record_done])
    with q moved Record_done show ?thesis by fastforce
  next
    case (Put_back a j)
    have "job_room (chunk_jobs g) j" using held_job_room(1) [OF assms(1,3)] Put_back by simp
    then obtain js where "worker_step i 0 g = Ok (move_to i (Release a (Some 1)) (g\<lparr>chunk_jobs := js\<rparr>))"
      by (rule put_back_step [OF ok(2) _ Put_back])
    with q moved Put_back show ?thesis by fastforce
  next
    case (Release a r)
    then obtain v where v: "r = Some v" using q by (cases r) (auto simp: worker_step_def)
    obtain sl where "return_server i a g = Ok (move_to i Exited (g\<lparr>server_info_list := sl\<rparr>))"
      by (rule return_server_step [OF ok(1)])
    with v Release have "worker_step i 0 g \<in> {Ok (move_to i Exited g), Ok (move_to i Exited (g\<lparr>server_info_list := sl\<rparr>))}"
      by (simp add: worker_step_def)
    with q moved [of Exited g] moved [of Exited "g\<lparr>server_info_list := sl\<rparr>"] show ?thesis by auto
  qed simp
qed

lemma start_success:
  assumes "slist_wf sl" "0 < n" "createJobsList n f tot = Ok js" "initJobArray n = Ok ds"
  shows "success_ok (mset (jobs js)) (mset (servers sl)) (start_pool sl js ds n)"
proof -
  have "servers_held (start_pool sl js ds n) = []"
    by (simp add: servers_held_def start_pool_def createWorkerList_def)
  then show ?thesis
    using start_pool_ok [OF assms] by (auto simp: success_ok_def start_pool_def createWorkerList_def)
qed

lemma downloads_end:
  assumes "slist_wf sl" "servers sl \<noteq> []" "0 < n" "createJobsList n f tot = Ok js" "initJobArray n = Ok ds"
    and "\<forall>(i, k) \<in> set sch. i < length (workers (start_pool sl js ds n)) \<and> k = 0"
    and "run_workers sch (start_pool sl js ds n) = Ok g" "quiet g"
  shows "mset (jobs (done_jobs g)) = mset (jobs js) \<and> set (workers g) = {Exited}
    \<and> mset (servers (server_info_list g)) = mset (servers sl)"
proof -
  have ok: "success_ok (mset (jobs js)) (mset (servers sl)) g"
    by (rule success_run [OF start_success [OF assms(1,3-5)] assms(6,7)])
  then have pool: "pool_ok (mset (jobs js)) (mset (servers sl)) g" by (simp add: success_ok_def)
  have rest: "w = Exited \<or> w = Wait_server \<and> servers (server_info_list g) = []" if "w \<in> set (workers g)" for w
    using quiet_worker [OF pool assms(8)] that by (auto simp: in_set_conv_nth)
  have held: "job_held w = [] \<and> server_held w = []" if "w \<in> set (workers g)" for w
    using rest [OF that] by auto
  then have none: "jobs_held g = []" "servers_held g = []" by (auto simp: jobs_held_def servers_held_def)
  then have sl: "mset (servers (server_info_list g)) = mset (servers sl)" using ok by (simp add: success_ok_def)
  then have "servers (server_info_list g) \<noteq> []" using assms(2) by auto
  with rest have exited: "set (workers g) \<subseteq> {Exited}" by auto
  have "length (workers g) = length (workers (start_pool sl js ds n))"
    using assms(7) by (rule run_workers_length)
  then have "workers g \<noteq> []" using assms(3) by (auto simp: start_pool_def createWorkerList_def MAX_WORKER_def split: if_splits)
  then have all: "set (workers g) = {Exited}" using exited by (metis set_empty subset_singletonD)
  then have "jobs (chunk_jobs g) = []" using ok by (auto simp: success_ok_def)
  with pool_okD(4) [OF pool] none all sl show ?thesis by simp
qed

text \<open>
  Property C24.  The download is complete when it has succeeded: with at least one server and no
  answer lost, a run that has come to rest has done every job exactly once, has ended every thread
  and has all servers back in the list.
\<close>

theorem downloads_complete:
  assumes "slist_wf sl" "servers sl \<noteq> []" "0 < n" "createJobsList n f tot = Ok js" "initJobArray n = Ok ds"
    and "\<forall>(i, k) \<in> set sch. i < length (workers (start_pool sl js ds n)) \<and> k = 0"
    and "run_workers sch (start_pool sl js ds n) = Ok g" "quiet g"
  shows "mset (jobs (done_jobs g)) = mset (jobs js) \<and> set (workers g) = {Exited}
    \<and> mset (servers (server_info_list g)) = mset (servers sl)"
  by (rule downloads_end [OF assms])

section \<open>Concrete instances\<close>

theorem workers_terminate_witness:
  "effective_steps leave_schedule (start_pool two_servers two_jobs no_jobs_done 2) \<le> 20"
proof -
  have "\<forall>(i, k) \<in> set leave_schedule. i < length (workers (start_pool two_servers two_jobs no_jobs_done 2))"
    by (auto simp: leave_schedule_def start_workers)
  from workers_terminate [OF servers_wf(2) _ two_jobs_created this] show ?thesis by simp
qed

text \<open>Both workers do one job each and exit.\<close>

definition complete_schedule :: "(nat \<times> int) list" where
  "complete_schedule = replicate 5 (0, 0) @ replicate 7 (1, 0) @ replicate 3 (0, 0)"

lemma complete_run:
  "(case run_workers complete_schedule (start_pool two_servers two_jobs no_jobs_done 2) of
      Inl e \<Rightarrow> False
    | Inr g \<Rightarrow> workers g = [Exited, Exited])"
  by code_simp

theorem downloads_complete_witness:
  "\<exists>g. run_workers complete_schedule (start_pool two_servers two_jobs no_jobs_done 2) = Ok g
    \<and> mset (jobs (done_jobs g)) = mset (jobs two_jobs)"
proof -
  obtain g where g: "run_workers complete_schedule (start_pool two_servers two_jobs no_jobs_done 2) = Ok g"
    "workers g = [Exited, Exited]"
    using complete_run by (auto split: sum.splits)
  have "quiet g" using g(2) by (auto simp: quiet_def worker_step_def less_Suc_eq)
  moreover have "servers two_servers \<noteq> []" by code_simp
  moreover have "\<forall>(i, k) \<in> set complete_schedule. i < length (workers (start_pool two_servers two_jobs no_jobs_done 2)) \<and> k = 0"
    by (auto simp: complete_schedule_def start_workers)
  ultimately show ?thesis
    using downloads_complete [OF servers_wf(2) _ _ two_jobs_created _ g(1)] g(1) by auto
qed

end
