(* ===== verification/Hw4_Main.thy ===== *)
theory Hw4_Main
  imports Hw4_Progress
begin

text \<open>
  \<open>main\<close> of \<^verbatim>\<open>HW4/client.c\<close> up to the start of its threads, and what client and servers
  achieve together from the arguments to the last job.
\<close>

section \<open>The client's main\<close>

text \<open>Where the client is when the given responses are used up.\<close>

datatype udp_client = Still_waiting | No_such_file | Downloading pool

text \<open>
  \<open>shakes\<close> and \<open>answers\<close> are the results of \<open>recvfrom\<close> in the handshake and in the query,
  \<open>None\<close> for a timeout; the four strings are the first contents of the arrays of
  \<open>process_server_info\<close>.
\<close>

definition udp_client_main ::
    "(string \<Rightarrow> int) \<Rightarrow> (string \<Rightarrow> 32 word option) \<Rightarrow> (string \<Rightarrow> char list option) \<Rightarrow> string \<times> string \<times> string \<times> string \<Rightarrow>
      string list \<Rightarrow> int \<Rightarrow> server_response_t option list \<Rightarrow> server_response_t option list \<Rightarrow> udp_client res" where
  "udp_client_main access inet_aton fopen arrays argv client_fd shakes answers =
    res_bind (client_checkParam access argv) (\<lambda>_.
      let target_file = argv ! 3; chunk_num = atoi (argv ! 2)
      in case arrays of (addr0, port0, pre_addr0, pre_port0) \<Rightarrow>
        res_bind (process_server_info inet_aton fopen (argv ! 1) addr0 port0 pre_addr0 pre_port0) (\<lambda>sl.
        if client_fd < 0 then failHandler ''create socket error!''
        else res_bind (verify_address_available shakes sl 0) (\<lambda>(sl1, _, _, ended).
          if \<not> ended then Ok Still_waiting
          else if sl_occupied sl1 = 0 then failHandler ''no available server!''
          else res_bind (query_request target_file) (\<lambda>_.
               res_bind (query_file_exist target_file answers sl1) (\<lambda>(sl2, reply).
                 case reply of
                   None \<Rightarrow> Ok Still_waiting
                 | Some (ret, read_buf) \<Rightarrow>
                     if ret = 1 then failHandler ''Can not verify file exsitance. All servers are dead.''
                     else res_bind (plan_download chunk_num target_file read_buf) (\<lambda>plan.
                       case plan of
                         None \<Rightarrow> Ok No_such_file
                       | Some (js, ds) \<Rightarrow> Ok (Downloading (start_pool sl2 js ds chunk_num))))))))"

section \<open>From the arguments to the last job\<close>

lemma main_starts_pool:
  assumes "client_checkParam access argv = Ok ()" "target = argv ! 3" "n = atoi (argv ! 2)" "0 < n"
    and "fopen (argv ! 1) = Some (info_text ls)" "ls \<noteq> []" "(pre_a, pre_p) \<noteq> hd ls"
      "\<forall>(a, p) \<in> set ls. word_ok a \<and> word_ok p \<and> inet_aton a = Some (w a)"
    and "0 \<le> fd" "length shakes = length (remdups_adj ls)" "\<forall>r. Some r \<in> set shakes \<longrightarrow> resp_cmd r = UDP_HANDSHAKE"
      "ready = alive (zip (addresses w (remdups_adj ls)) shakes)" "ready \<noteq> []"
    and "query_request target = Ok req" "resp_cmd resp = UDP_CHECKFILE" "file_content resp = target"
      "have_file_flag resp = 1" "resp_length resp = tot"
  shows "\<exists>sl js ds. udp_client_main access inet_aton fopen (addr_i, port_i, pre_a, pre_p) argv fd shakes [Some resp] =
      Ok (Downloading (start_pool sl js ds n))
    \<and> slist_wf sl \<and> servers sl = ready \<and> createJobsList n target tot = Ok js \<and> initJobArray n = Ok ds"
proof -
  obtain sl where sl: "process_server_info inet_aton fopen (argv ! 1) addr_i port_i pre_a pre_p = Ok sl" "slist_wf sl"
    "servers sl = addresses w (remdups_adj ls)"
    using server_info_lines [where fopen = fopen and f = "argv ! 1", OF assms(5-8)] by blast
  have len: "length shakes = length (servers sl)" using assms(10) sl(3) by (simp add: addresses_def)
  obtain sl1 where sl1: "verify_address_available shakes sl 0 = Ok (sl1, int (length ready), servers sl, True)"
    "slist_wf sl1" "servers sl1 = ready"
    using verify_result [OF sl(2) _ len assms(11), of "[]"] sl(3) assms(12) by auto
  have occ: "0 < sl_occupied sl1" using slist_count [OF sl1(2)] sl1(3) assms(13) by simp
  obtain js where js: "createJobsList n target tot = Ok js" using createJobsList_result [OF assms(4)] by blast
  obtain ds where ds: "initJobArray n = Ok ds" using initJobArray_wf [of n] assms(4) by auto
  have "udp_client_main access inet_aton fopen (addr_i, port_i, pre_a, pre_p) argv fd shakes [Some resp] =
      Ok (Downloading (start_pool sl1 js ds n))"
    using assms(1,9,14-18) sl(1) sl1(1) occ js ds
    by (simp add: udp_client_main_def assms(2,3) [symmetric] plan_download_def Let_def)
  with sl1 js ds show ?thesis by blast
qed

text \<open>
  A worker's call of \<open>udp_download_file\<close> when no datagram is lost: the request reaches the server, the
  upload it starts sends its responses, they arrive in order, and behind them \<open>recvfrom\<close> times out.  The
  name of the part file, and the value returned with the bytes written to it.
\<close>

definition download_from_server ::
    "(string \<Rightarrow> int) \<Rightarrow> (string \<Rightarrow> int option) \<Rightarrow> (string \<Rightarrow> char list option) \<Rightarrow> job_item_t \<Rightarrow>
      (string \<times> (int \<times> string) option) res" where
  "download_from_server access stat_size fopen job =
    res_bind (download_request job) (\<lambda>request.
    res_bind (on_datagram access stat_size (Some request)) (\<lambda>acts.
    res_bind (case acts of [Start_upload f start end_pos] \<Rightarrow> upload 3 0 fopen f start end_pos | _ \<Rightarrow> Ok []) (\<lambda>ps.
    res_bind (udp_download_file True (map Some ps @ [None]) job) (\<lambda>(name, _, outcome). Ok (name, outcome)))))"

text \<open>
  A run of the workers in which each download has the outcome \<open>dl\<close> gives its job; the schedule only says
  which worker moves.
\<close>

fun run_served :: "(job_item_t \<Rightarrow> (string \<times> (int \<times> string) option) res) \<Rightarrow> nat list \<Rightarrow> pool \<Rightarrow> pool res" where
  "run_served dl [] g = Ok g"
| "run_served dl (i # sch) g =
    res_bind
      (case workers g ! i of
         Download addr job \<Rightarrow> res_bind (dl job) (\<lambda>(name, outcome). Ok (case outcome of None \<Rightarrow> 1 | Some (ret, written) \<Rightarrow> ret))
       | _ \<Rightarrow> Ok 0)
      (\<lambda>k. res_bind (worker_step i k g) (run_served dl sch))"

lemma download_loop_behind: "download_loop rs w = Some r \<Longrightarrow> download_loop (rs @ rest) w = Some r"
  by (induction rs w rule: download_loop.induct) (auto split: if_splits)

lemma job_served:
  assumes "fopen f = Some content" "no_nul content" "name_clean f" "length content < 2 ^ 62"
    and "0 < n" "tot = int (length content)" "2 \<le> tot div n" "tot div n + tot mod n < int UDP_BUFFER_SIZE"
    and "n \<le> 10 ^ 9" "k < nat n" "job = job_at n f tot k"
  shows "\<exists>name. part_name (job_id job) = Ok name
    \<and> download_from_server access stat_size fopen job = Ok (name, Some (0, byte_range content (file_start job) (file_end job)))"
proof -
  have "length (show_nat k) \<le> 9" using assms(9,10) by (intro length_show_nat) simp_all
  then have "\<exists>name. part_name (job_id job) = Ok name"
    by (simp add: assms(11) job_at_def part_name_def cstore_def show_int_def)
  moreover obtain req ps where "download_request job = Ok req"
    "on_datagram access stat_size (Some req) = Ok [Start_upload f (file_start job) (file_end job)]"
    "upload 3 0 fopen f (file_start job) (file_end job) = Ok ps"
    "download_loop (map Some ps) [] = Some (0, byte_range content (file_start job) (file_end job))"
    using job_downloads [where fopen = fopen, OF assms(1-8,10,11)] by blast
  ultimately show ?thesis
    using download_loop_behind [of "map Some ps"] by (auto simp: download_from_server_def udp_download_file_def)
qed

text \<open>Where every job is served, such a run is one in which no answer is lost.\<close>

lemma served_run:
  "success_ok J S g \<Longrightarrow> \<forall>job. job \<in># J \<longrightarrow> (\<exists>name written. dl job = Ok (name, Some (0, written))) \<Longrightarrow>
    \<forall>i \<in> set sch. i < length (workers g) \<Longrightarrow> run_served dl sch g = run_workers (map (\<lambda>i. (i, 0)) sch) g"
proof (induction sch arbitrary: g)
  case (Cons i sch)
  let ?k = "case workers g ! i of
      Download addr job \<Rightarrow> res_bind (dl job) (\<lambda>(name, outcome). Ok (case outcome of None \<Rightarrow> 1 | Some (ret, written) \<Rightarrow> ret))
    | _ \<Rightarrow> Ok 0"
  have i: "i < length (workers g)" using Cons.prems(3) by simp
  have pool: "pool_ok J S g" using Cons.prems(1) by (simp add: success_ok_def)
  have "job \<in># J" if "workers g ! i = Download addr job" for addr job
  proof -
    have "workers g ! i \<in> set (workers g)" using i by simp
    then have "job \<in> set (jobs_held g)" using that by (force simp: jobs_held_def)
    then show ?thesis unfolding pool_okD(4) [OF pool, symmetric] by simp
  qed
  then have k: "?k = Ok 0" using Cons.prems(2) by (fastforce split: worker.splits)
  show ?case
  proof (cases "worker_step i 0 g")
    case (Inl e)
    with k show ?thesis by simp
  next
    case (Inr g')
    have "success_ok J S g'" by (rule success_step [OF Cons.prems(1) i Inr])
    moreover have "length (workers g') = length (workers g)" by (rule worker_step_length [OF Inr])
    ultimately have "run_served dl sch g' = run_workers (map (\<lambda>i. (i, 0)) sch) g'"
      using Cons.IH [of g'] Cons.prems(2,3) by simp
    with k Inr show ?thesis by simp
  qed
qed simp

text \<open>
  Property C26.  The whole download, from the arguments to the last job: with a well-formed list of servers of
  which some answer the handshake, each holding the file, a file without zero bytes whose
  parts all have from two to 1023 bytes (other sizes are never or wrongly sent, see C20), part files that
  can be written, and no datagram lost, the client asks with a request the server answers with the
  file's size; every job it makes of it, sent to a server, is answered so that \<open>udp_download_file\<close>
  returns success with the job's bytes in the part file of its number; every run of its threads over
  these downloads that comes to rest has done every job once and ended every thread; and the parts in the
  order of their numbers are the file.
\<close>

theorem udp_download_completes:
  assumes "client_checkParam access argv = Ok ()" "target = argv ! 3" "n = atoi (argv ! 2)" "0 < n" "name_clean target"
    and "fopen (argv ! 1) = Some (info_text ls)" "ls \<noteq> []" "(pre_a, pre_p) \<noteq> hd ls"
      "\<forall>(a, p) \<in> set ls. word_ok a \<and> word_ok p \<and> inet_aton a = Some (w a)"
    and "0 \<le> fd" "length shakes = length (remdups_adj ls)" "\<forall>r. Some r \<in> set shakes \<longrightarrow> resp_cmd r = UDP_HANDSHAKE"
      "alive (zip (addresses w (remdups_adj ls)) shakes) \<noteq> []"
    and "hasFile server_access target \<noteq> 0" "file_length stat_size target = Ok (int (length content))"
    and "server_fopen target = Some content" "no_nul content" "length content < 2 ^ 62" "n \<le> 10 ^ 9"
      "2 \<le> int (length content) div n" "int (length content) div n + int (length content) mod n < int UDP_BUFFER_SIZE"
  shows "\<exists>req resp g0 js. query_request target = Ok req
    \<and> on_datagram server_access stat_size (Some req) = Ok [Respond resp]
    \<and> udp_client_main access inet_aton fopen (addr_i, port_i, pre_a, pre_p) argv fd shakes [Some resp] = Ok (Downloading g0)
    \<and> map job_id js = map int [0..<nat n]
    \<and> (\<forall>job \<in> set js. \<exists>name. part_name (job_id job) = Ok name
        \<and> download_from_server server_access stat_size server_fopen job
          = Ok (name, Some (0, byte_range content (file_start job) (file_end job))))
    \<and> (\<forall>sch g. (\<forall>i \<in> set sch. i < length (workers g0)) \<longrightarrow>
        run_served (download_from_server server_access stat_size server_fopen) sch g0 = Ok g \<longrightarrow> quiet g \<longrightarrow>
        mset (jobs (done_jobs g)) = mset js \<and> set (workers g) = {Exited})
    \<and> concat (map (\<lambda>job. byte_range content (file_start job) (file_end job)) js) = content"
proof -
  let ?tot = "int (length content)" and ?dl = "download_from_server server_access stat_size server_fopen"
  let ?resp = "blank_response\<lparr>resp_cmd := UDP_CHECKFILE, file_content := target, have_file_flag := 1,
    resp_length := ?tot\<rparr>"
  obtain req where req: "query_request target = Ok req" "on_datagram server_access stat_size (Some req) = Ok [Respond ?resp]"
    using query_arrives [OF assms(5), of server_access stat_size] assms(14,15) by auto
  have r: "resp_cmd ?resp = UDP_CHECKFILE" "file_content ?resp = target" "have_file_flag ?resp = 1"
    "resp_length ?resp = ?tot" by simp_all
  obtain sl js ds where m:
    "udp_client_main access inet_aton fopen (addr_i, port_i, pre_a, pre_p) argv fd shakes [Some ?resp] =
      Ok (Downloading (start_pool sl js ds n))"
    "slist_wf sl" "servers sl \<noteq> []" "createJobsList n target ?tot = Ok js" "initJobArray n = Ok ds"
    using main_starts_pool [where fopen = fopen and inet_aton = inet_aton and w = w and access = access
        and addr_i = addr_i and port_i = port_i, OF assms(1-4,6-12) refl assms(13) req(1) r] assms(13)
    by auto
  have js: "jobs js = map (job_at n target ?tot) [0..<nat n]"
    using createJobsList_result [OF assms(4), of target ?tot] m(4) by auto
  then have cover: "map job_id (jobs js) = map int [0..<nat n]"
    "concat (map (\<lambda>job. byte_range content (file_start job) (file_end job)) (jobs js)) = content"
    using slices_cover [OF assms(4) refl, of content target] by (simp_all add: job_at_def)
  have served: "\<exists>name. part_name (job_id job) = Ok name
      \<and> ?dl job = Ok (name, Some (0, byte_range content (file_start job) (file_end job)))" if "job \<in> set (jobs js)" for job
    using that js job_served [where fopen = server_fopen, OF assms(16,17,5,18,4) refl assms(20,21,19)] by auto
  have "mset (jobs (done_jobs g)) = mset (jobs js) \<and> set (workers g) = {Exited}"
    if sch: "\<forall>i \<in> set sch. i < length (workers (start_pool sl js ds n))"
      "run_served ?dl sch (start_pool sl js ds n) = Ok g" "quiet g" for sch g
  proof -
    have "\<forall>job. job \<in># mset (jobs js) \<longrightarrow> (\<exists>name written. ?dl job = Ok (name, Some (0, written)))"
      using served by fastforce
    from served_run [OF start_success [OF m(2) assms(4) m(4,5)] this sch(1)] sch(2)
    have "run_workers (map (\<lambda>i. (i, 0)) sch) (start_pool sl js ds n) = Ok g" by simp
    from downloads_end [OF m(2,3) assms(4) m(4,5) _ this sch(3)] sch(1) show ?thesis by auto
  qed
  with served cover req m(1) show ?thesis by (intro exI [of _ req] exI [of _ ?resp] exI [of _ "start_pool sl js ds n"] exI [of _ "jobs js"]) simp
qed

section \<open>A concrete instance\<close>

definition sample_argv :: "string list" where
  "sample_argv = [''client'', ''info'', ''2'', ''f'']"

definition sample_servers :: "(string \<times> string) list" where
  "sample_servers = [(''1.2.3.4'', ''80''), (''1.2.3.4'', ''81'')]"

definition sample_shakes :: "server_response_t option list" where
  "sample_shakes = replicate 2 (Some (blank_response\<lparr>resp_cmd := UDP_HANDSHAKE\<rparr>))"

definition sample_answer :: server_response_t where
  "sample_answer = blank_response\<lparr>resp_cmd := UDP_CHECKFILE, file_content := ''f'', have_file_flag := 1, resp_length := 5\<rparr>"

definition sample_schedule :: "nat list" where
  "sample_schedule = replicate 5 0 @ replicate 7 1 @ replicate 3 0"

definition sample_result :: "udp_client res" where
  "sample_result = udp_client_main (\<lambda>_. 0) (\<lambda>_. Some 1) (\<lambda>_. Some (info_text sample_servers)) ([], [], [], []) sample_argv 3
      sample_shakes [Some sample_answer]"

lemma sample_run:
  obtains g0 g where "sample_result = Ok (Downloading g0)" "length (workers g0) = 2"
    "run_served (download_from_server (\<lambda>_. 0) (\<lambda>_. Some 5) (\<lambda>_. Some ''hello'')) sample_schedule g0 = Ok g"
    "workers g = [Exited, Exited]"
proof -
  have "case sample_result of
     Inr (Downloading g0) \<Rightarrow>
       length (workers g0) = 2 \<and>
       (case run_served (download_from_server (\<lambda>_. 0) (\<lambda>_. Some 5) (\<lambda>_. Some ''hello'')) sample_schedule g0 of
          Inl e \<Rightarrow> False
        | Inr g \<Rightarrow> workers g = [Exited, Exited])
   | _ \<Rightarrow> False"
    by code_simp
  moreover have "(\<forall>x. r \<noteq> Inl x) \<longleftrightarrow> (\<exists>y. r = Inr y)" for r :: "pool res" by (cases r) auto
  ultimately have "\<exists>g0. sample_result = Ok (Downloading g0) \<and> length (workers g0) = 2 \<and>
      (\<exists>g. run_served (download_from_server (\<lambda>_. 0) (\<lambda>_. Some 5) (\<lambda>_. Some ''hello'')) sample_schedule g0 = Ok g
        \<and> workers g = [Exited, Exited])"
    by (auto split: sum.splits udp_client.splits)
  with that show thesis by blast
qed

theorem udp_download_completes_witness:
  "\<exists>g0 g. udp_client_main (\<lambda>_. 0) (\<lambda>_. Some 1) (\<lambda>_. Some (info_text sample_servers)) ([], [], [], []) sample_argv 3
      sample_shakes [Some sample_answer] = Ok (Downloading g0)
    \<and> run_served (download_from_server (\<lambda>_. 0) (\<lambda>_. Some 5) (\<lambda>_. Some ''hello'')) sample_schedule g0 = Ok g
    \<and> (\<exists>js. mset (jobs (done_jobs g)) = mset js
        \<and> concat (map (\<lambda>job. byte_range ''hello'' (file_start job) (file_end job)) js) = ''hello'')"
proof -
  obtain g0 g where run: "udp_client_main (\<lambda>_. 0) (\<lambda>_. Some 1) (\<lambda>_. Some (info_text sample_servers)) ([], [], [], [])
      sample_argv 3 sample_shakes [Some sample_answer] = Ok (Downloading g0)" "length (workers g0) = 2"
    "run_served (download_from_server (\<lambda>_. 0) (\<lambda>_. Some 5) (\<lambda>_. Some ''hello'')) sample_schedule g0 = Ok g"
    "workers g = [Exited, Exited]"
    by (rule sample_run [unfolded sample_result_def])
  have quiet: "quiet g" using run(4) by (auto simp: quiet_def worker_step_def less_Suc_eq)
  have sch: "\<forall>i \<in> set sample_schedule. i < length (workers g0)" using run(2) by (simp add: sample_schedule_def)
  have args: "client_checkParam (\<lambda>_. 0) sample_argv = Ok ()" "''f'' = sample_argv ! 3" "2 = atoi (sample_argv ! 2)"
    by code_simp+
  have n: "name_clean ''f''" by (simp add: name_clean_def)
  have l: "sample_servers \<noteq> []" "([], []) \<noteq> hd sample_servers"
    "\<forall>(a, p) \<in> set sample_servers. word_ok a \<and> word_ok p \<and> Some 1 = Some ((\<lambda>_. 1) a :: 32 word)"
    by (simp_all add: sample_servers_def word_ok_def is_space_def)
  have h: "length sample_shakes = length (remdups_adj sample_servers)"
    "\<forall>r. Some r \<in> set sample_shakes \<longrightarrow> resp_cmd r = UDP_HANDSHAKE"
    "alive (zip (addresses (\<lambda>_. 1) (remdups_adj sample_servers)) sample_shakes) \<noteq> []"
    by (simp_all add: sample_shakes_def sample_servers_def alive_def addresses_def numeral_2_eq_2)
  have f: "hasFile (\<lambda>_. 0) ''f'' \<noteq> 0" "file_length (\<lambda>_. Some 5) ''f'' = Ok (int (length ''hello''))" by code_simp+
  have resp: "on_datagram (\<lambda>_. 0) (\<lambda>_. Some 5) (Some req) = Ok [Respond resp] \<Longrightarrow> query_request ''f'' = Ok req \<Longrightarrow>
      resp = sample_answer" for req resp
    using query_arrives [OF n, of "\<lambda>_. 0" "\<lambda>_. Some 5"] f by (auto simp: sample_answer_def)
  have size: "no_nul ''hello''" "length ''hello'' < 2 ^ 62" "(2::int) \<le> 10 ^ 9" "2 \<le> int (length ''hello'') div 2"
    "int (length ''hello'') div 2 + int (length ''hello'') mod 2 < int UDP_BUFFER_SIZE"
    by (simp_all add: UDP_BUFFER_SIZE_def)
  obtain req rsp h0 js where c: "query_request ''f'' = Ok req" "on_datagram (\<lambda>_. 0) (\<lambda>_. Some 5) (Some req) = Ok [Respond rsp]"
    "udp_client_main (\<lambda>_. 0) (\<lambda>_. Some 1) (\<lambda>_. Some (info_text sample_servers)) ([], [], [], [])
      sample_argv 3 sample_shakes [Some rsp] = Ok (Downloading h0)"
    "\<forall>sch g. (\<forall>i \<in> set sch. i < length (workers h0)) \<longrightarrow>
        run_served (download_from_server (\<lambda>_. 0) (\<lambda>_. Some 5) (\<lambda>_. Some ''hello'')) sch h0 = Ok g \<longrightarrow> quiet g \<longrightarrow>
        mset (jobs (done_jobs g)) = mset js \<and> set (workers g) = {Exited}"
    "concat (map (\<lambda>job. byte_range ''hello'' (file_start job) (file_end job)) js) = ''hello''"
    using udp_download_completes [where access = "\<lambda>_. 0" and argv = sample_argv and fopen = "\<lambda>_. Some (info_text sample_servers)"
        and inet_aton = "\<lambda>_. Some 1" and w = "\<lambda>_. 1" and fd = 3 and server_access = "\<lambda>_. 0" and stat_size = "\<lambda>_. Some 5"
        and addr_i = "[]" and port_i = "[]" and server_fopen = "\<lambda>_. Some ''hello''" and content = "''hello''",
        OF args _ n refl l _ h f refl size] by auto
  have "h0 = g0" using c(3) resp [OF c(2,1)] run(1) by simp
  with c(4) sch run(3) quiet have "mset (jobs (done_jobs g)) = mset js" by blast
  with run(1,3) c(5) show ?thesis by blast
qed

end
