(* ===== verification/Hw4_Finish.thy ===== *)
theory Hw4_Finish
  imports Hw4_Main
begin

text \<open>
  The end of \<open>main\<close> in \<^verbatim>\<open>HW4/client.c\<close>: joining the download threads, combining the parts and
  freeing what was allocated; and what that end is for every download that comes to it.
\<close>

section \<open>The code behind the threads\<close>

text \<open>
  The loop that joins \<open>threads[i]\<close> for every job; the array has an entry for each thread that was
  created.  \<open>False\<close> says that \<open>main\<close> waits for a thread that has not ended.
\<close>

function join_threads :: "worker list \<Rightarrow> int \<Rightarrow> int \<Rightarrow> bool res" where
  "join_threads threads i chunk_num =
    (if i < chunk_num
     then res_bind (peek threads i) (\<lambda>w. if w = Exited then join_threads threads (i + 1) chunk_num else Ok False)
     else Ok True)"
  by pat_completeness auto
termination
  by (relation "measure (\<lambda>(threads, i, chunk_num). nat (chunk_num - i))") auto

declare join_threads.simps [simp del]

text \<open>
  From the joining to the return, \<open>None\<close> if it waits.  The array the threads were created in is
  bound to a variable of the inner block; the pointer \<open>threads\<close> freed at the end is the outer
  variable of that name, which nothing sets.
\<close>

definition udp_client_finish ::
    "bool \<Rightarrow> (string \<Rightarrow> char list option) \<Rightarrow> int \<Rightarrow> pool \<Rightarrow> (sockaddr_in option list \<times> job_item_t option list) option res" where
  "udp_client_finish can_open fopen chunk_num g =
    res_bind (join_threads (workers g) 0 chunk_num) (\<lambda>ended.
      if \<not> ended then Ok None
      else res_bind (combinefile can_open fopen chunk_num) (\<lambda>_.
           res_bind (deallocServerList (server_info_list g)) (\<lambda>addrs.
           res_bind (deallocJobList (done_jobs g)) (\<lambda>items.
           let outer_threads = None
           in case outer_threads of None \<Rightarrow> ub Uninitialised | Some () \<Rightarrow> Ok (Some (addrs, items))))))"

section \<open>How it ends\<close>

lemma join_threads_result:
  assumes "0 \<le> n"
  shows "join_threads ws (int k) n =
    (if \<exists>w \<in> set (take (nat n - k) (drop k ws)). w \<noteq> Exited then Ok False
     else if int (length ws) < n \<and> int k < n then ub Out_Of_Bounds else Ok True)"
proof (induction "nat n - k" arbitrary: k)
  case 0
  then have "n \<le> int k" by simp
  then show ?case by (simp add: join_threads.simps [of ws])
next
  case (Suc d)
  then have k: "int k < n" "nat n - k = Suc (nat n - Suc k)" by simp_all
  have IH: "join_threads ws (int k + 1) n =
      (if \<exists>w \<in> set (take (nat n - Suc k) (drop (Suc k) ws)). w \<noteq> Exited then Ok False
       else if int (length ws) < n \<and> int k + 1 < n then ub Out_Of_Bounds else Ok True)"
    using Suc(1) [of "Suc k"] Suc(2) by (simp add: add.commute)
  show ?case
  proof (cases "k < length ws")
    case True
    then have "drop k ws = ws ! k # drop (Suc k) ws" by (simp add: Cons_nth_drop_Suc)
    with True k IH show ?thesis by (auto simp: join_threads.simps [of ws "int k"] peek_def)
  next
    case False
    with k show ?thesis by (simp add: join_threads.simps [of ws "int k"] peek_def)
  qed
qed

lemma pool_run_ok:
  assumes "pool_ok J S g0" "\<forall>(i, k) \<in> set sch. i < length (workers g0)" "run_workers sch g0 = Ok g"
  shows "pool_ok J S g"
  using pool_reach_ok [OF run_workers_reach [OF pool_reach.start assms(3,2)] assms(1)] .

lemma step_no_stale:
  "jlist_wf (done_jobs g) \<Longrightarrow> no_stale (done_jobs g) \<Longrightarrow> worker_step i k g = Ok g' \<Longrightarrow> no_stale (done_jobs g')"
  by (auto simp: worker_step_def return_server_def move_to_def res_simps Let_def add_no_stale
      split: worker.splits if_splits option.splits prod.splits)

lemma run_no_stale:
  "run_workers sch g = Ok g' \<Longrightarrow> \<forall>(i, k) \<in> set sch. i < length (workers g) \<Longrightarrow> pool_ok J S g \<Longrightarrow>
    no_stale (done_jobs g) \<Longrightarrow> no_stale (done_jobs g')"
proof (induction sch g rule: run_workers.induct)
  case (2 i k sch g)
  then obtain g1 where g1: "worker_step i k g = Ok g1" "run_workers sch g1 = Ok g'" by (auto simp: res_simps)
  have i: "i < length (workers g)" using 2(3) by auto
  have "no_stale (done_jobs g1)" using step_no_stale [OF pool_okD(3) [OF 2(4)] 2(5) g1(1)] .
  moreover have "pool_ok J S g1" "length (workers g1) = length (workers g)"
    using pool_run_ok [OF 2(4), of "[(i, k)]" g1] i g1(1) worker_step_length [OF g1(1)] by simp_all
  ultimately show ?case using 2(1) [OF g1] 2(3) by auto
qed simp

lemma finish_result:
  assumes "slist_wf sl" "0 < n" "createJobsList n f tot = Ok js" "initJobArray n = Ok ds"
    and "\<forall>(i, k) \<in> set sch. i < length (workers (start_pool sl js ds n))"
    and "run_workers sch (start_pool sl js ds n) = Ok g"
  shows "udp_client_finish can_open fopen n g =
    (if \<exists>w \<in> set (workers g). w \<noteq> Exited then Ok None
     else if 100 < n then ub Out_Of_Bounds
     else case combinefile can_open fopen n of Inl e \<Rightarrow> Inl e | Inr _ \<Rightarrow> ub Uninitialised)"
proof -
  have pool: "pool_ok (mset (jobs js)) (mset (servers sl)) g"
    by (rule pool_run_ok [OF start_pool_ok [OF assms(1-4)] assms(5,6)])
  have len: "length (workers g) = (if 100 < n then 100 else nat n)"
    using run_workers_length [OF assms(6)] by (simp add: start_pool_def createWorkerList_def MAX_WORKER_def)
  have joined: "join_threads (workers g) 0 n =
      (if \<exists>w \<in> set (workers g). w \<noteq> Exited then Ok False else if 100 < n then ub Out_Of_Bounds else Ok True)"
    using join_threads_result [of n "workers g" 0] assms(2) len by simp
  show ?thesis
    unfolding udp_client_finish_def joined
    using dealloc_servers_all [OF pool_okD(1) [OF pool]] dealloc_jobs_all [OF pool_okD(3) [OF pool]]
    by (cases "combinefile can_open fopen n") simp_all
qed

lemma finish_frees:
  assumes "slist_wf sl" "0 < n" "createJobsList n f tot = Ok js" "initJobArray n = Ok ds"
    and "\<forall>(i, k) \<in> set sch. i < length (workers (start_pool sl js ds n))"
    and "run_workers sch (start_pool sl js ds n) = Ok g"
  shows "deallocServerList (server_info_list g) = Ok (map Some (servers (server_info_list g)))
    \<and> (\<exists>k. deallocJobList (done_jobs g) = Ok (map Some (jobs (done_jobs g)) @ replicate k None))
    \<and> mset (jobs (done_jobs g)) \<subseteq># mset (jobs js) \<and> mset (servers (server_info_list g)) \<subseteq># mset (servers sl)"
proof -
  let ?g0 = "start_pool sl js ds n"
  have start: "pool_ok (mset (jobs js)) (mset (servers sl)) ?g0" by (rule start_pool_ok [OF assms(1-4)])
  have pool: "pool_ok (mset (jobs js)) (mset (servers sl)) g" by (rule pool_run_ok [OF start assms(5,6)])
  have "no_stale (done_jobs ?g0)" using init_no_stale [OF assms(4)] by (simp add: start_pool_def)
  then have "no_stale (done_jobs g)" by (rule run_no_stale [OF assms(6,5) start])
  moreover have "mset (jobs (done_jobs g)) \<subseteq># mset (jobs js)"
    unfolding pool_okD(4) [OF pool, symmetric] by (metis add.assoc add.left_commute mset_subset_eq_add_left)
  moreover have "mset (servers (server_info_list g)) \<subseteq># mset (servers sl)"
    by (rule subset_mset.order_trans [OF mset_subset_eq_add_left pool_okD(5) [OF pool]])
  ultimately show ?thesis
    using dealloc_servers_all [OF pool_okD(1) [OF pool]] dealloc_jobs_all [OF pool_okD(3) [OF pool]]
    by (auto simp: no_stale_def)
qed

section \<open>Properties\<close>

text \<open>
  Property C27.  The end of a download: whatever the downloads returned, \<open>main\<close> waits while a thread
  has not ended; when all have ended it reads behind the array of threads if there are more than 100
  jobs, and otherwise stops where the combination of the parts stops or, when that succeeds, frees a
  pointer that was never set.  It never returns.
\<close>

theorem download_never_returns:
  assumes "slist_wf sl" "0 < n" "createJobsList n f tot = Ok js" "initJobArray n = Ok ds"
    and "\<forall>(i, k) \<in> set sch. i < length (workers (start_pool sl js ds n))"
    and "run_workers sch (start_pool sl js ds n) = Ok g"
  shows "udp_client_finish can_open fopen n g =
    (if \<exists>w \<in> set (workers g). w \<noteq> Exited then Ok None
     else if 100 < n then ub Out_Of_Bounds
     else case combinefile can_open fopen n of Inl e \<Rightarrow> Inl e | Inr _ \<Rightarrow> ub Uninitialised)"
  by (rule finish_result [OF assms])

text \<open>Two jobs done, and then the combination of two empty parts.\<close>

theorem download_never_returns_witness:
  "\<exists>g. run_workers complete_schedule (start_pool two_servers two_jobs no_jobs_done 2) = Ok g
    \<and> set (workers g) = {Exited} \<and> udp_client_finish True (\<lambda>_. Some []) 2 g = ub Uninitialised"
proof -
  obtain g where g: "run_workers complete_schedule (start_pool two_servers two_jobs no_jobs_done 2) = Ok g"
    "workers g = [Exited, Exited]"
    using complete_run by (auto split: sum.splits)
  have sch: "\<forall>(i, k) \<in> set complete_schedule. i < length (workers (start_pool two_servers two_jobs no_jobs_done 2))"
    by (auto simp: complete_schedule_def start_workers)
  have c: "combinefile True (\<lambda>_. Some []) 2 = Ok []" by code_simp
  from download_never_returns [OF servers_wf(2) _ two_jobs_created sch g(1), of True "\<lambda>_. Some []"] g c
  show ?thesis by simp
qed

end
