(* ===== verification/Hw4_Stall.thy ===== *)
theory Hw4_Stall
  imports Hw4_Progress
begin

text \<open>
  When the download threads of \<^verbatim>\<open>HW4/client.c\<close> wait for ever.  A thread whose download fails
  frees its server, so every failure costs the pool a server; the theory keeps the account and reads
  off it when the threads that still wait for a server never get one.
\<close>

section \<open>The account of the servers\<close>

text \<open>A worker whose download has failed and that still holds its server.\<close>

fun failing :: "worker \<Rightarrow> nat" where
  "failing (Put_back a j) = 1"
| "failing _ = 0"

text \<open>Between two downloads \<open>ret\<close> is never 1.\<close>

fun sound_ret :: "worker \<Rightarrow> bool" where
  "sound_ret (Loop_test a r) = (r \<noteq> Some 1)"
| "sound_ret (Take_job a r) = (r \<noteq> Some 1)"
| "sound_ret _ = True"

definition servers_left :: "pool \<Rightarrow> nat" where
  "servers_left g = length (servers (server_info_list g)) + length (servers_held g)"

definition failures_pending :: "pool \<Rightarrow> nat" where
  "failures_pending g = sum_list (map failing (workers g))"

text \<open>Whether the step is a download that fails, and the number of those in a schedule.\<close>

definition fails :: "nat \<Rightarrow> int \<Rightarrow> pool \<Rightarrow> nat" where
  "fails i outcome g = (case workers g ! i of Download a j \<Rightarrow> if outcome = 0 then 0 else 1 | _ \<Rightarrow> 0)"

fun failed_downloads :: "(nat \<times> int) list \<Rightarrow> pool \<Rightarrow> nat" where
  "failed_downloads [] g = 0"
| "failed_downloads ((i, outcome) # sch) g =
    (case worker_step i outcome g of
       Inl e \<Rightarrow> 0
     | Inr g' \<Rightarrow> fails i outcome g + failed_downloads sch g')"

text \<open>\<open>n\<close> servers at the start, of which \<open>l\<close> are lost or about to be.\<close>

definition account_ok :: "nat \<Rightarrow> nat \<Rightarrow> pool \<Rightarrow> bool" where
  "account_ok n l g \<longleftrightarrow> (\<forall>w \<in> set (workers g). sound_ret w) \<and> servers_left g + l = n + failures_pending g"

lemma servers_left_move:
  assumes "i < length (workers g)" "workers h = workers g"
  shows "servers_left (move_to i w h) + length (servers (server_info_list g)) + length (server_held (workers g ! i))
    = servers_left g + length (servers (server_info_list h)) + length (server_held w)"
proof -
  have "servers_held h = servers_held g" by (simp add: servers_held_def assms(2))
  moreover have "length (servers_held (move_to i w h)) + length (server_held (workers g ! i))
      = length (servers_held h) + length (server_held w)"
    using arg_cong [OF move_held(2) [of i h w], of size] assms by simp
  ultimately show ?thesis by (simp add: servers_left_def)
qed

lemma failures_move:
  "i < length (workers g) \<Longrightarrow> workers h = workers g \<Longrightarrow>
    failures_pending (move_to i w h) + failing (workers g ! i) = failures_pending g + failing w"
  using sum_list_update_nat [of i "workers g" failing w] by (simp add: failures_pending_def workers_move)

text \<open>
  A worker moves from \<open>v\<close> to \<open>w\<close> while the list of servers changes: the balance that has to hold.
\<close>

lemma account_move:
  assumes "account_ok n l g" "i < length (workers g)" "workers h = workers g" "workers g ! i = v" "sound_ret w"
    and "length (servers (server_info_list h)) + length (server_held w) + d + failing v
      = length (servers (server_info_list g)) + length (server_held v) + failing w"
  shows "account_ok n (l + d) (move_to i w h)"
proof -
  have "set (workers (move_to i w h)) \<subseteq> insert w (set (workers g))"
    by (simp add: workers_move assms(3) set_update_subset_insert)
  with assms(1,5) have "\<forall>w \<in> set (workers (move_to i w h)). sound_ret w" by (auto simp: account_ok_def)
  moreover have "servers_left (move_to i w h) + (l + d) = n + failures_pending (move_to i w h)"
    using servers_left_move [OF assms(2,3), of w] failures_move [OF assms(2,3), of w] assms(1,4,6)
    by (simp add: account_ok_def)
  ultimately show ?thesis by (simp add: account_ok_def)
qed

text \<open>Every step keeps the account, and a failed download costs one.\<close>

lemma account_step:
  assumes "account_ok n l g" "pool_ok J S g" "i < length (workers g)" "worker_step i k g = Ok g'"
  shows "account_ok n (l + fails i k g) g'"
proof -
  note ok = pool_okD [OF assms(2)]
  note move = account_move [OF assms(1,3), where d = 0, simplified]
  have sound: "sound_ret (workers g ! i)" using assms(1,3) by (simp add: account_ok_def)
  show ?thesis
  proof (cases "workers g ! i")
    case Wait_server
    show ?thesis
    proof (cases "sl_occupied (server_info_list g) = 0")
      case True
      with assms(1,4) Wait_server show ?thesis by (simp add: worker_step_def fails_def)
    next
      case False
      then obtain a sl where sl: "worker_step i k g = Ok (move_to i (Loop_test a None) (g\<lparr>server_info_list := sl\<rparr>))"
        "servers (server_info_list g) = servers sl @ [a]" by (rule take_server_step [OF ok(1) Wait_server])
      with assms(4) Wait_server show ?thesis by (auto simp: fails_def intro!: move)
    qed
  next
    case (Loop_test a r)
    with assms(4) sound show ?thesis by (auto simp: worker_step_def fails_def split: if_splits intro!: move)
  next
    case (Take_job a r)
    show ?thesis
    proof (cases "jl_occupied (chunk_jobs g) = 0")
      case True
      with assms(4) Take_job show ?thesis by (auto simp: worker_step_def fails_def intro!: move)
    next
      case False
      then obtain j js where "worker_step i k g = Ok (move_to i (Download a j) (g\<lparr>chunk_jobs := js\<rparr>))"
        by (rule take_job_step [OF ok(2) Take_job])
      with assms(4) Take_job show ?thesis by (auto simp: fails_def intro!: move)
    qed
  next
    case (Give_back a)
    obtain sl where "return_server i a g = Ok (move_to i Exited (g\<lparr>server_info_list := sl\<rparr>))"
      "servers sl = servers (server_info_list g) @ [a]" by (rule return_server_step [OF ok(1)])
    with assms(4) Give_back show ?thesis by (auto simp: worker_step_def fails_def intro!: move)
  next
    case (Download a j)
    with assms(4) account_move [OF assms(1,3), where d = 1, simplified] show ?thesis
      by (auto simp: worker_step_def fails_def intro!: move)
  next
    case (Record_done a j)
    have "job_room (done_jobs g) j" using held_job_room(2) [OF assms(2,3)] Record_done by simp
    then obtain ds where "worker_step i k g = Ok (move_to i (Loop_test a (Some 0)) (g\<lparr>done_jobs := ds\<rparr>))"
      by (rule record_done_step [OF ok(3) _ Record_done])
    with assms(4) Record_done show ?thesis by (auto simp: fails_def intro!: move)
  next
    case (Put_back a j)
    have "job_room (chunk_jobs g) j" using held_job_room(1) [OF assms(2,3)] Put_back by simp
    then obtain js where "worker_step i k g = Ok (move_to i (Release a (Some 1)) (g\<lparr>chunk_jobs := js\<rparr>))"
      by (rule put_back_step [OF ok(2) _ Put_back])
    with assms(4) Put_back show ?thesis by (auto simp: fails_def intro!: move)
  next
    case (Release a r)
    then obtain v where v: "r = Some v" using assms(4) by (cases r) (auto simp: worker_step_def)
    obtain sl where "return_server i a g = Ok (move_to i Exited (g\<lparr>server_info_list := sl\<rparr>))"
      "servers sl = servers (server_info_list g) @ [a]" by (rule return_server_step [OF ok(1)])
    with assms(4) Release v show ?thesis by (auto simp: worker_step_def fails_def split: if_splits intro!: move)
  next
    case Exited
    with assms(1,4) show ?thesis by (simp add: worker_step_def fails_def)
  qed
qed

lemma account_run:
  "account_ok n l g \<Longrightarrow> pool_ok J S g \<Longrightarrow> \<forall>(i, k) \<in> set sch. i < length (workers g) \<Longrightarrow>
    run_workers sch g = Ok g' \<Longrightarrow> account_ok n (l + failed_downloads sch g) g' \<and> pool_ok J S g'"
proof (induction sch g arbitrary: l rule: failed_downloads.induct)
  case (1 g)
  then show ?case by simp
next
  case (2 i k sch g)
  obtain g1 where g1: "worker_step i k g = Ok g1" "run_workers sch g1 = Ok g'"
    using 2(5) by (auto simp: res_simps)
  have i: "i < length (workers g)" using 2(4) by simp
  note kept = worker_step_ok [OF 2(3) i g1(1)]
  from 2(1) [OF g1(1) account_step [OF 2(2,3) i g1(1)] kept(1) _ g1(2)] 2(4) kept(2) g1(1)
  show ?case by (auto simp: add.assoc)
qed

section \<open>Where the threads come to rest\<close>

lemma start_account: "slist_wf sl \<Longrightarrow> account_ok (length (servers sl)) 0 (start_pool sl js ds n)"
  by (simp add: account_ok_def servers_left_def failures_pending_def servers_held_def start_pool_def
      createWorkerList_def sum_list_replicate)

text \<open>
  Property C25.  How a download comes to rest, whatever the schedule and the answers: every thread has
  ended or waits for a server, as many servers are in the list as there were, less one for each failed
  download, and a thread waits for ever only when that is none, every server having been dropped.
\<close>

theorem threads_wait_only_without_servers:
  assumes "slist_wf sl" "0 < n" "createJobsList n f tot = Ok js" "initJobArray n = Ok ds"
    and "\<forall>(i, k) \<in> set sch. i < length (workers (start_pool sl js ds n))"
    and "run_workers sch (start_pool sl js ds n) = Ok g" "quiet g"
  shows "set (workers g) \<subseteq> {Exited, Wait_server}
    \<and> length (servers (server_info_list g)) + failed_downloads sch (start_pool sl js ds n) = length (servers sl)
    \<and> (Wait_server \<in> set (workers g) \<longrightarrow> failed_downloads sch (start_pool sl js ds n) = length (servers sl))"
proof -
  let ?failed = "failed_downloads sch (start_pool sl js ds n)"
  have run: "account_ok (length (servers sl)) ?failed g" "pool_ok (mset (jobs js)) (mset (servers sl)) g"
    using account_run [OF start_account [OF assms(1)] start_pool_ok [OF assms(1-4)] assms(5,6)] by simp_all
  have rest: "w = Exited \<or> w = Wait_server \<and> servers (server_info_list g) = []" if "w \<in> set (workers g)" for w
    using quiet_worker [OF run(2) assms(7)] that by (auto simp: in_set_conv_nth)
  then have "server_held w = [] \<and> failing w = 0" if "w \<in> set (workers g)" for w using that by fastforce
  then have "servers_held g = []" "failures_pending g = 0"
    by (auto simp: servers_held_def failures_pending_def)
  with run(1) have "length (servers (server_info_list g)) + ?failed = length (servers sl)"
    by (simp add: account_ok_def servers_left_def)
  moreover have "servers (server_info_list g) = []" if "Wait_server \<in> set (workers g)" using rest [OF that] by simp
  moreover have "set (workers g) \<subseteq> {Exited, Wait_server}" using rest by auto
  ultimately show ?thesis by auto
qed

section \<open>A concrete instance\<close>

text \<open>
  One server and two threads: the first thread's download fails, and the second waits for ever.
\<close>

definition stall_schedule :: "(nat \<times> int) list" where
  "stall_schedule = [(0, 0), (0, 0), (0, 0), (0, 1), (0, 0), (0, 0)]"

lemma stall_run:
  "(case run_workers stall_schedule (start_pool one_server two_jobs no_jobs_done 2) of
      Inl e \<Rightarrow> False
    | Inr g \<Rightarrow> workers g = [Exited, Wait_server] \<and> sl_occupied (server_info_list g) = 0)"
  by code_simp

theorem threads_wait_only_without_servers_witness:
  "\<exists>g. run_workers stall_schedule (start_pool one_server two_jobs no_jobs_done 2) = Ok g
    \<and> quiet g \<and> Wait_server \<in> set (workers g)
    \<and> failed_downloads stall_schedule (start_pool one_server two_jobs no_jobs_done 2) = length (servers one_server)"
proof -
  obtain g where g: "run_workers stall_schedule (start_pool one_server two_jobs no_jobs_done 2) = Ok g"
    "workers g = [Exited, Wait_server]" "sl_occupied (server_info_list g) = 0"
    using stall_run by (auto split: sum.splits)
  have q: "quiet g" using g(2,3) by (auto simp: quiet_def worker_step_def less_Suc_eq)
  have "\<forall>(i, k) \<in> set stall_schedule. i < length (workers (start_pool one_server two_jobs no_jobs_done 2))"
    by (auto simp: stall_schedule_def start_workers)
  from threads_wait_only_without_servers [OF servers_wf(1) _ two_jobs_created this g(1) q] g q show ?thesis by auto
qed

end
