(* ===== verification/Hw3_Socket.thy ===== *)
theory Hw3_Socket
  imports Hw4_Spec
begin

text \<open>
  \<^verbatim>\<open>HW3/mysocket.c\<close>, \<^verbatim>\<open>HW3/mysocket.h\<close> and \<^verbatim>\<open>HW3/server.c\<close>: the packages of the
  TCP download, the server's answers and its loop over the packages of one connection.  A package
  is written and read whole; its character fields are the strings they hold.
\<close>

section \<open>Packages\<close>

definition TCP_BUFFER_SIZE :: nat where "TCP_BUFFER_SIZE = 1024"
definition TCP_BYE :: string where "TCP_BYE = ''BYE''"
definition TCP_DOWNLOAD :: string where "TCP_DOWNLOAD = ''DWN''"
definition TCP_CHECKFILE :: string where "TCP_CHECKFILE = ''CHK''"

lemmas tcp_cmds = TCP_BYE_def TCP_DOWNLOAD_def TCP_CHECKFILE_def

record client_package =
  start_prt :: int
  end_prt :: int
  cp_cmd :: string
  cp_file_name :: string

record server_package =
  sp_file_length :: int
  sp_have_file_flag :: int
  content_length :: int
  sp_content_is_end :: int
  sp_cmd :: string
  sp_file_content :: string

definition blank_client_package :: client_package where
  "blank_client_package = \<lparr>start_prt = 0, end_prt = 0, cp_cmd = [], cp_file_name = []\<rparr>"

definition blank_server_package :: server_package where
  "blank_server_package = \<lparr>sp_file_length = 0, sp_have_file_flag = 0, content_length = 0,
    sp_content_is_end = 0, sp_cmd = [], sp_file_content = []\<rparr>"

section \<open>What the client sends\<close>

definition client_check_file :: "string \<Rightarrow> client_package res" where
  "client_check_file filename =
    res_bind (cstore TCP_BUFFER_SIZE filename) (\<lambda>f.
      Ok (blank_client_package\<lparr>cp_cmd := TCP_CHECKFILE, cp_file_name := f\<rparr>))"

definition client_request_file :: "string \<Rightarrow> int \<Rightarrow> int \<Rightarrow> client_package res" where
  "client_request_file filename start end_pos =
    res_bind (cstore TCP_BUFFER_SIZE filename) (\<lambda>f.
      Ok (blank_client_package\<lparr>cp_cmd := TCP_DOWNLOAD, cp_file_name := f, start_prt := start, end_prt := end_pos\<rparr>))"

definition socket_exit :: client_package where
  "socket_exit = blank_client_package\<lparr>cp_cmd := TCP_BYE\<rparr>"

section \<open>What the server sends\<close>

definition server_response_check_file ::
    "(string \<Rightarrow> int) \<Rightarrow> (string \<Rightarrow> int option) \<Rightarrow> string \<Rightarrow> server_package res" where
  "server_response_check_file access stat_size filename =
    (let w = blank_server_package\<lparr>sp_cmd := TCP_CHECKFILE\<rparr>
     in if hasFile access filename \<noteq> 0
        then res_bind (file_length stat_size filename) (\<lambda>n.
             Ok (w\<lparr>sp_have_file_flag := 1, sp_file_length := n\<rparr>))
        else Ok (w\<lparr>sp_have_file_flag := - 1\<rparr>))"

definition content_package :: "int \<Rightarrow> char list \<Rightarrow> server_package" where
  "content_package fin data = blank_server_package
    \<lparr>sp_cmd := TCP_DOWNLOAD, sp_content_is_end := fin, content_length := int (length data),
     sp_file_content := takeWhile (\<lambda>c. c \<noteq> NUL) data\<rparr>"

text \<open>
  The loop of \<open>server_upload_file\<close>: what is left of the file, the position \<open>cur\<close> and the packages
  sent.  Where the file ends before the range, a read returns nothing, \<open>cur\<close> stands still and the
  loop never ends; that is the value \<open>None\<close>.
\<close>

partial_function (option) tcp_upload_loop ::
    "char list \<Rightarrow> int \<Rightarrow> int \<Rightarrow> server_package list \<Rightarrow> (char list \<times> int \<times> server_package list) option" where
  "tcp_upload_loop rest cur end_pos sent =
    (if int TCP_BUFFER_SIZE - 1 < end_pos - cur
     then let data = take (TCP_BUFFER_SIZE - 1) rest
          in tcp_upload_loop (drop (TCP_BUFFER_SIZE - 1) rest) (cur + int (length data)) end_pos
               (sent @ [content_package (- 1) data])
     else Some (rest, cur, sent))"

text \<open>
  The last read asks for \<open>end - cur + 1\<close> bytes (a negative number is a huge one) and sets
  \<open>data[rt]\<close>, which is outside for \<open>rt\<close> of \<open>TCP_BUFFER_SIZE\<close> or more.
\<close>

definition tcp_last_piece :: "char list \<Rightarrow> int \<Rightarrow> int \<Rightarrow> server_package res" where
  "tcp_last_piece rest cur end_pos =
    (let data = (if end_pos - cur + 1 < 0 then rest else take (nat (end_pos - cur + 1)) rest)
     in if TCP_BUFFER_SIZE \<le> length data then ub Out_Of_Bounds else Ok (content_package 1 data))"

definition server_upload_file ::
    "(string \<Rightarrow> char list option) \<Rightarrow> string \<Rightarrow> int \<Rightarrow> int \<Rightarrow> server_package list res option" where
  "server_upload_file fopen filename start end_pos =
    (case fopen filename of
       None \<Rightarrow> Some (Inl (Exit []))
     | Some content \<Rightarrow>
         (case tcp_upload_loop (if 0 \<le> start then drop (nat start) content else content) start end_pos [] of
            None \<Rightarrow> None
          | Some (rest, cur, sent) \<Rightarrow>
              Some (res_bind (tcp_last_piece rest cur end_pos) (\<lambda>p. Ok (sent @ [p])))))"

text \<open>
  The loop of the server's \<open>main\<close> over the packages one connection sends: the packages it writes.
  It ends with the connection or a farewell; a package with another command is ignored.
\<close>

fun serve_connection ::
    "(string \<Rightarrow> int) \<Rightarrow> (string \<Rightarrow> int option) \<Rightarrow> (string \<Rightarrow> char list option) \<Rightarrow> client_package list \<Rightarrow>
      server_package list res option" where
  "serve_connection access stat_size fopen [] = Some (Ok [])"
| "serve_connection access stat_size fopen (p # ps) =
    (if cp_cmd p = TCP_BYE then Some (Ok [])
     else
       (case (if cp_cmd p = TCP_CHECKFILE
              then Some (res_bind (server_response_check_file access stat_size (cp_file_name p)) (\<lambda>w. Ok [w]))
              else if cp_cmd p = TCP_DOWNLOAD
              then server_upload_file fopen (cp_file_name p) (start_prt p) (end_prt p)
              else Some (Ok [])) of
          None \<Rightarrow> None
        | Some (Inl e) \<Rightarrow> Some (Inl e)
        | Some (Inr ws) \<Rightarrow>
            (case serve_connection access stat_size fopen ps of
               None \<Rightarrow> None
             | Some r \<Rightarrow> Some (res_bind r (\<lambda>ws'. Ok (ws @ ws'))))))"

text \<open>
  The server's \<open>main\<close>: the address it listens on and the packages written on its connections,
  one after the other, each given by the result of \<open>accept\<close> and its packages.  \<open>None\<close>: an
  upload does not end.
\<close>

definition server_build_fail_message :: string where
  "server_build_fail_message = ''Server Fail: Cannot establish socket connection. End of server.''"

definition tcp_server_checkParam :: "string list \<Rightarrow> unit res" where
  "tcp_server_checkParam argv =
    (if length argv \<noteq> 2 then failHandler ''Please use server by correct input!''
     else if isValidPort (argv ! 1) = 0 then failHandler ''Please use legal port number!''
     else Ok ())"

fun tcp_accept_loop ::
    "(string \<Rightarrow> int) \<Rightarrow> (string \<Rightarrow> int option) \<Rightarrow> (string \<Rightarrow> char list option) \<Rightarrow> (int \<times> client_package list) list \<Rightarrow>
      server_package list list res option" where
  "tcp_accept_loop access stat_size fopen [] = Some (Ok [])"
| "tcp_accept_loop access stat_size fopen ((accepted, ps) # conns) =
    (case server_socket_accept accepted server_build_fail_message of
       Inl e \<Rightarrow> Some (Inl e)
     | Inr server_sock \<Rightarrow>
         (case serve_connection access stat_size fopen ps of
            None \<Rightarrow> None
          | Some (Inl e) \<Rightarrow> Some (Inl e)
          | Some (Inr ws) \<Rightarrow>
              (case tcp_accept_loop access stat_size fopen conns of
                 None \<Rightarrow> None
               | Some r \<Rightarrow> Some (res_bind r (\<lambda>wss. Ok (ws # wss))))))"

definition tcp_server_main ::
    "(string \<Rightarrow> int) \<Rightarrow> (string \<Rightarrow> int option) \<Rightarrow> (string \<Rightarrow> char list option) \<Rightarrow> string list \<Rightarrow> int \<Rightarrow> int \<Rightarrow> int \<Rightarrow>
      (int \<times> client_package list) list \<Rightarrow> (sockaddr_in \<times> server_package list list) res option" where
  "tcp_server_main access stat_size fopen argv lis_sock bound listening conns =
    (case res_bind (tcp_server_checkParam argv) (\<lambda>_.
          res_bind (init_socket lis_sock server_build_fail_message) (\<lambda>_.
            server_socket_bind_listen bound listening server_build_fail_message)) of
       Inl e \<Rightarrow> Some (Inl e)
     | Inr _ \<Rightarrow>
         (case tcp_accept_loop access stat_size fopen conns of
            None \<Rightarrow> None
          | Some r \<Rightarrow> Some (res_bind r (\<lambda>wss. Ok (init_address INADDR_ANY (atoi (argv ! 1)), wss)))))"

section \<open>The upload loop\<close>

lemma content_package_text: "no_nul data \<Longrightarrow> sp_file_content (content_package fin data) = data"
  by (simp add: content_package_def no_nul_def takeWhile_eq_all_conv) (metis takeWhile_eq_all_conv)

lemma content_package_end [simp]: "sp_content_is_end (content_package fin data) = fin"
  "sp_cmd (content_package fin data) = TCP_DOWNLOAD"
  by (simp_all add: content_package_def)

text \<open>
  With the whole range in the file the loop ends; it has sent full pieces, and one to 1024 bytes
  are left (or the range was empty from the start).
\<close>

lemma tcp_upload_loop_result:
  assumes "end_pos + 1 - cur = int m" "m \<le> length rest"
  shows "\<exists>k. tcp_upload_loop rest cur end_pos sent =
      Some (drop (k * (TCP_BUFFER_SIZE - 1)) rest, cur + int (k * (TCP_BUFFER_SIZE - 1)),
        sent @ map (\<lambda>i. content_package (- 1) (take (TCP_BUFFER_SIZE - 1) (drop (i * (TCP_BUFFER_SIZE - 1)) rest))) [0..<k])
    \<and> k * (TCP_BUFFER_SIZE - 1) \<le> m \<and> m - k * (TCP_BUFFER_SIZE - 1) \<le> TCP_BUFFER_SIZE
    \<and> (0 < k \<longrightarrow> 1 < m - k * (TCP_BUFFER_SIZE - 1))"
  using assms
proof (induction m arbitrary: rest cur sent rule: less_induct)
  case (less m)
  let ?b = "TCP_BUFFER_SIZE - 1"
  have b: "0 < ?b" "int ?b = int TCP_BUFFER_SIZE - 1" by (simp_all add: TCP_BUFFER_SIZE_def)
  show ?case
  proof (cases "TCP_BUFFER_SIZE < m")
    case False
    then have "\<not> int TCP_BUFFER_SIZE - 1 < end_pos - cur" using less.prems(1) by linarith
    then have "tcp_upload_loop rest cur end_pos sent = Some (rest, cur, sent)"
      by (simp add: tcp_upload_loop.simps [of rest])
    with False show ?thesis by (intro exI [of _ 0]) simp
  next
    case True
    let ?d = "take ?b rest"
    have len: "length ?d = ?b" using True less.prems(2) by simp
    have "int TCP_BUFFER_SIZE - 1 < end_pos - cur" using True less.prems(1) by linarith
    then have step: "tcp_upload_loop rest cur end_pos sent =
        tcp_upload_loop (drop ?b rest) (cur + int ?b) end_pos (sent @ [content_package (- 1) ?d])"
      by (subst tcp_upload_loop.simps) (simp only: if_True Let_def len)
    have m: "m - ?b < m" "end_pos + 1 - (cur + int ?b) = int (m - ?b)" "m - ?b \<le> length (drop ?b rest)"
      using True less.prems b by simp_all
    from less.IH [OF this, of "sent @ [content_package (- 1) ?d]"] obtain k where
      k: "tcp_upload_loop (drop ?b rest) (cur + int ?b) end_pos (sent @ [content_package (- 1) ?d]) =
        Some (drop (k * ?b) (drop ?b rest), cur + int ?b + int (k * ?b), (sent @ [content_package (- 1) ?d])
          @ map (\<lambda>i. content_package (- 1) (take ?b (drop (i * ?b) (drop ?b rest)))) [0..<k])"
      "k * ?b \<le> m - ?b" "m - ?b - k * ?b \<le> TCP_BUFFER_SIZE" "0 < k \<longrightarrow> 1 < m - ?b - k * ?b"
      by blast
    have "[0..<Suc k] = 0 # map Suc [0..<k]" by (simp add: upt_conv_Cons map_Suc_upt)
    then have pieces: "map (\<lambda>i. content_package (- 1) (take ?b (drop (i * ?b) rest))) [0..<Suc k] =
        content_package (- 1) ?d # map (\<lambda>i. content_package (- 1) (take ?b (drop (i * ?b) (drop ?b rest)))) [0..<k]"
      by (simp add: comp_def add.commute)
    have "1 < m - Suc k * ?b" using k(4) True by (cases k) (auto simp: TCP_BUFFER_SIZE_def)
    with k(2,3) True show ?thesis
      unfolding step k(1)
      by (intro exI [of _ "Suc k"] conjI) (simp_all only: pieces, simp_all add: add.commute)
  qed
qed

end
