(* ===== verification/Hw3_Client.thy ===== *)
theory Hw3_Client
  imports Hw3_Socket
begin

text \<open>
  \<^verbatim>\<open>HW3/client.c\<close>: the list of servers, the cutting of a file into parts for the connected
  sockets, the receiving of a part and the combination of the parts; then what upload and
  download achieve together.
\<close>

section \<open>The list of servers\<close>

record server_info_t =
  si_IP :: string
  si_port :: int
  si_idx :: int
  si_valid_flag :: int

definition info_head :: server_info_t where
  "info_head = \<lparr>si_IP = ''invalid'', si_port = - 1, si_idx = - 1, si_valid_flag = - 1\<rparr>"

text \<open>
  The loop of \<open>read_server_info\<close>: \<open>cur\<close> is the node read last (at first the dummy head),
  \<open>done\<close> the nodes behind the head.  A node's address field has sixteen bytes.
\<close>

function read_infos ::
    "string \<Rightarrow> bool \<Rightarrow> string \<Rightarrow> string \<Rightarrow> server_info_t \<Rightarrow> server_info_t list \<Rightarrow> server_info_t list res" where
  "read_infos text eof addr port_s cur nodes =
    (if eof then Ok nodes
     else case scan_pair text addr port_s of (addr', port', rest, eof') \<Rightarrow>
       res_bind (cstore 100 addr') (\<lambda>_. res_bind (cstore 100 port') (\<lambda>_.
         if atoi port' = si_port cur \<and> si_IP cur = addr' then read_infos rest eof' addr' port' cur nodes
         else res_bind (cstore 16 addr') (\<lambda>a.
           let node = \<lparr>si_IP = a, si_port = atoi port', si_idx = int (length nodes), si_valid_flag = 0\<rparr>
           in read_infos rest eof' addr' port' node (nodes @ [node])))))"
  by pat_completeness auto
termination
  by (relation "measure (\<lambda>(text, eof, rest). if eof then 0 else length text + 1)")
    (auto dest!: sym [of _ "scan_pair _ _ _"] scan_pair_shorter)

declare read_infos.simps [simp del]

text \<open>The nodes and the number returned.\<close>

definition read_server_info ::
    "(string \<Rightarrow> char list option) \<Rightarrow> string \<Rightarrow> string \<Rightarrow> string \<Rightarrow> (server_info_t list \<times> int) res" where
  "read_server_info fopen info addr0 port0 =
    (case fopen info of
       None \<Rightarrow> failHandler ''Read file fail!''
     | Some text \<Rightarrow> res_bind (read_infos text False addr0 port0 info_head []) (\<lambda>nodes.
         Ok (nodes, int (length nodes))))"

section \<open>Cutting the file\<close>

record thread_param =
  thread_id :: int
  tp_filename :: string
  file_part :: int
  socketfd :: int
  tp_start :: int
  tp_end :: int

text \<open>The loop of \<open>download_file\<close> over the sockets.\<close>

fun assign_parts :: "int list \<Rightarrow> int \<Rightarrow> int \<Rightarrow> string \<Rightarrow> int \<Rightarrow> int \<Rightarrow> int \<Rightarrow> thread_param list" where
  "assign_parts [] i valid_part filename filesize threadsnum single = []"
| "assign_parts (fd # sockets) i valid_part filename filesize threadsnum single =
    (if fd < 0
     then \<lparr>thread_id = i, tp_filename = filename, file_part = - 1, socketfd = fd, tp_start = - 1, tp_end = - 1\<rparr>
       # assign_parts sockets (i + 1) valid_part filename filesize threadsnum single
     else \<lparr>thread_id = i, tp_filename = filename, file_part = valid_part, socketfd = fd,
            tp_start = valid_part * single,
            tp_end = (if valid_part = threadsnum - 1 then filesize - 1 else (valid_part + 1) * single - 1)\<rparr>
       # assign_parts sockets (i + 1) (valid_part + 1) filename filesize threadsnum single)"

definition download_file :: "int list \<Rightarrow> string \<Rightarrow> int \<Rightarrow> int \<Rightarrow> thread_param list res" where
  "download_file sockets filename filesize threadsnum =
    (if threadsnum = 0 then ub Division_By_Zero
     else Ok (assign_parts sockets 0 0 filename filesize threadsnum (c_div filesize threadsnum)))"

text \<open>The request a thread sends, if it sends one.\<close>

definition thread_download :: "thread_param \<Rightarrow> client_package option res" where
  "thread_download p =
    (if socketfd p \<le> 0 then Ok None
     else res_bind (client_request_file (tp_filename p) (tp_start p) (tp_end p)) (\<lambda>r. Ok (Some r)))"

section \<open>Receiving a part\<close>

text \<open>The text written, and whether the package marked as the last has come.\<close>

fun receive_loop :: "server_package list \<Rightarrow> string \<Rightarrow> string \<times> bool" where
  "receive_loop [] written = (written, False)"
| "receive_loop (p # ps) written =
    (if sp_cmd p = TCP_DOWNLOAD
     then if sp_content_is_end p = 1 then (written @ sp_file_content p, True)
          else receive_loop ps (written @ sp_file_content p)
     else receive_loop ps written)"

text \<open>
  The pointer \<open>name\<close> is never initialised; \<open>room\<close> is the size of the object it happens to
  point to, \<open>None\<close> if it points to none.
\<close>

definition download_single_part ::
    "nat option \<Rightarrow> bool \<Rightarrow> int \<Rightarrow> server_package list \<Rightarrow> (string \<times> string) res" where
  "download_single_part room can_open part ps =
    (case room of
       None \<Rightarrow> ub Uninitialised
     | Some n \<Rightarrow> res_bind (cstore n (''output.'' @ show_int part)) (\<lambda>name.
         if \<not> can_open then failHandler ''Fail open file!'' else Ok (name, fst (receive_loop ps []))))"

section \<open>Putting the parts together\<close>

function combine_parts :: "(string \<Rightarrow> char list option) \<Rightarrow> int \<Rightarrow> int \<Rightarrow> char list res" where
  "combine_parts fopen i totalsize =
    (if i < totalsize
     then res_bind (cstore 15 (''output.'' @ show_int i)) (\<lambda>fn.
          case fopen fn of
            None \<Rightarrow> failHandler ''Fail open file!''
          | Some content \<Rightarrow> res_bind (copy_bytes content) (\<lambda>out.
              res_bind (combine_parts fopen (i + 1) totalsize) (\<lambda>out'. Ok (out @ out'))))
     else Ok [])"
  by pat_completeness auto
termination
  by (relation "measure (\<lambda>(fopen, i, totalsize). nat (totalsize - i))") auto

declare combine_parts.simps [simp del]

definition combine_file :: "bool \<Rightarrow> (string \<Rightarrow> char list option) \<Rightarrow> int \<Rightarrow> char list res" where
  "combine_file can_open fopen totalsize =
    (if \<not> can_open then failHandler ''Fail open file!'' else combine_parts fopen 0 totalsize)"

section \<open>What the client does with the answer to its query\<close>

text \<open>The threads started, or the farewells sent when there is no such file.\<close>

definition after_check :: "int list \<Rightarrow> string \<Rightarrow> int \<Rightarrow> server_package \<Rightarrow> (thread_param list + client_package list) res" where
  "after_check sockets target_file valid_conn read_buf =
    (if sp_cmd read_buf = TCP_CHECKFILE
     then if sp_have_file_flag read_buf = 1
          then res_bind (download_file sockets target_file (sp_file_length read_buf) valid_conn) (\<lambda>ts. Ok (Inl ts))
          else Ok (Inr (map (\<lambda>_. socket_exit) (filter (\<lambda>fd. 0 \<le> fd) sockets)))
     else Ok (Inl []))"

section \<open>What an upload sends\<close>

text \<open>The sizes at which the last piece fills the server's buffer.\<close>

definition overfull :: "nat \<Rightarrow> bool" where
  "overfull m \<longleftrightarrow> TCP_BUFFER_SIZE \<le> m \<and> (m - 1) mod (TCP_BUFFER_SIZE - 1) = 0"

lemma overfull_last:
  assumes "k * (TCP_BUFFER_SIZE - 1) \<le> m" "m - k * (TCP_BUFFER_SIZE - 1) \<le> TCP_BUFFER_SIZE"
    "0 < k \<longrightarrow> 1 < m - k * (TCP_BUFFER_SIZE - 1)"
  shows "overfull m \<longleftrightarrow> m - k * (TCP_BUFFER_SIZE - 1) = TCP_BUFFER_SIZE"
proof -
  define b where "b = TCP_BUFFER_SIZE - 1"
  define r where "r = m - k * b"
  have b: "TCP_BUFFER_SIZE = b + 1" "0 < b" by (simp_all add: b_def TCP_BUFFER_SIZE_def)
  have m: "m = k * b + r" "r \<le> b + 1" "0 < k \<longrightarrow> 1 < r" using assms by (simp_all add: r_def b_def TCP_BUFFER_SIZE_def)
  show ?thesis
  proof (cases "r \<le> 1")
    case True
    then have "k = 0" using m(3) by auto
    with True m b show ?thesis by (auto simp: overfull_def r_def [symmetric] b_def [symmetric])
  next
    case False
    then have "m - 1 = r - 1 + k * b" using m(1) by simp
    then have "(m - 1) mod b = (r - 1) mod b" by simp
    also have "\<dots> = 0 \<longleftrightarrow> r - 1 = b"
    proof (cases "r - 1 = b")
      case neq: False
      then have "r - 1 < b" "r - 1 \<noteq> 0" using m(2) False by linarith+
      with neq show ?thesis by simp
    qed simp
    finally have "(m - 1) mod b = 0 \<longleftrightarrow> r = b + 1" using False by linarith
    moreover have "r = b + 1 \<Longrightarrow> b + 1 \<le> m" using m(1) by simp
    ultimately have "overfull m \<longleftrightarrow> r = b + 1" by (auto simp: overfull_def b(1))
    then show ?thesis unfolding b_def [symmetric] r_def [symmetric] using b(1) by simp
  qed
qed

lemma tcp_upload_result:
  assumes "fopen f = Some content" "no_nul content" "0 \<le> start" "start \<le> e + 1" "e < int (length content)"
  shows "if overfull (nat (e - start + 1)) then server_upload_file fopen f start e = Some (ub Out_Of_Bounds)
    else \<exists>ps p. server_upload_file fopen f start e = Some (Ok (ps @ [p]))
      \<and> concat (map sp_file_content (ps @ [p])) = byte_range content start e
      \<and> (\<forall>q \<in> set ps. sp_content_is_end q = - 1) \<and> sp_content_is_end p = 1
      \<and> (\<forall>q \<in> set (ps @ [p]). sp_cmd q = TCP_DOWNLOAD)"
proof -
  let ?b = "TCP_BUFFER_SIZE - 1"
  define rest where "rest = drop (nat start) content"
  define m where "m = nat (e - start + 1)"
  have m: "e + 1 - start = int m" "m \<le> length rest" using assms by (simp_all add: m_def rest_def)
  have nn: "no_nul (take i (drop j rest))" for i j
    using assms(2) by (auto simp: rest_def no_nul_def dest: in_set_takeD in_set_dropD)
  obtain k where k: "tcp_upload_loop rest start e [] = Some (drop (k * ?b) rest, start + int (k * ?b),
        map (\<lambda>i. content_package (- 1) (take ?b (drop (i * ?b) rest))) [0..<k])"
    "k * ?b \<le> m" "m - k * ?b \<le> TCP_BUFFER_SIZE" "0 < k \<longrightarrow> 1 < m - k * ?b"
    using tcp_upload_loop_result [OF m, of "[]"] by auto
  define r where "r = m - k * ?b"
  have r: "e - (start + int (k * ?b)) + 1 = int r" using m(1) k(2) by (simp add: r_def)
  let ?last = "take r (drop (k * ?b) rest)"
  have len: "length ?last = r" using m(2) k(2) by (simp add: r_def)
  have "tcp_last_piece (drop (k * ?b) rest) (start + int (k * ?b)) e =
      (if TCP_BUFFER_SIZE \<le> r then ub Out_Of_Bounds else Ok (content_package 1 ?last))"
    unfolding tcp_last_piece_def r using len by simp
  moreover have "server_upload_file fopen f start e = Some (res_bind
      (tcp_last_piece (drop (k * ?b) rest) (start + int (k * ?b)) e)
      (\<lambda>p. Ok (map (\<lambda>i. content_package (- 1) (take ?b (drop (i * ?b) rest))) [0..<k] @ [p])))"
    using assms(1,3) k(1) by (simp add: server_upload_file_def rest_def [symmetric])
  moreover have "overfull m \<longleftrightarrow> TCP_BUFFER_SIZE \<le> r"
    using overfull_last [OF k(2-4)] k(3) unfolding r_def [symmetric] by linarith
  moreover have "concat (map sp_file_content (map (\<lambda>i. content_package (- 1) (take ?b (drop (i * ?b) rest))) [0..<k]
      @ [content_package 1 ?last])) = byte_range content start e"
  proof -
    have t: "m = k * ?b + r" using k(2) by (simp add: r_def)
    have "byte_range content start e = take m rest" by (simp add: byte_range_def m_def rest_def)
    also have "\<dots> = take (k * ?b) rest @ ?last" unfolding t by (rule take_add)
    finally have "byte_range content start e = take (k * ?b) rest @ ?last" .
    then show ?thesis by (simp add: comp_def content_package_text nn concat_pieces)
  qed
  ultimately show ?thesis unfolding m_def [symmetric]
    by (cases "TCP_BUFFER_SIZE \<le> r") (auto intro!: exI)
qed

section \<open>The parts tile the file\<close>

text \<open>The threads that will ask for a part.\<close>

definition active :: "thread_param list \<Rightarrow> thread_param list" where
  "active ts = filter (\<lambda>p. 0 < socketfd p) ts"

definition part_at :: "int \<Rightarrow> int \<Rightarrow> nat \<Rightarrow> int \<times> int \<times> int" where
  "part_at n tot k = (int k, file_start (job_at n [] tot k), file_end (job_at n [] tot k))"

definition part_of :: "thread_param \<Rightarrow> int \<times> int \<times> int" where
  "part_of p = (file_part p, tp_start p, tp_end p)"

lemma assign_parts_idle:
  "\<forall>fd \<in> set xs. fd \<le> 0 \<Longrightarrow> active (assign_parts xs i vp f tot n s) = []"
  by (induction xs i vp f tot n s rule: assign_parts.induct) (auto simp: active_def)

lemma assign_parts_active:
  "\<forall>fd \<in> set xs. fd \<noteq> 0 \<Longrightarrow> \<forall>fd \<in> set zs. fd = 0 \<Longrightarrow>
    map part_of (active (assign_parts (xs @ zs) i (int v) f tot n (c_div tot n)))
      = map (part_at n tot) [v..<v + length (filter (\<lambda>fd. 0 < fd) xs)]
    \<and> (\<forall>p \<in> set (active (assign_parts (xs @ zs) i (int v) f tot n (c_div tot n))). tp_filename p = f)"
proof (induction xs arbitrary: i v)
  case Nil
  then have "\<forall>fd \<in> set zs. fd \<le> 0" by auto
  from assign_parts_idle [OF this] show ?case by simp
next
  case (Cons fd xs)
  show ?case
  proof (cases "fd < 0")
    case True
    with Cons.IH [of "i + 1" v] Cons.prems show ?thesis by (auto simp: active_def)
  next
    case False
    with Cons.prems have pos: "0 < fd" by force
    let ?c = "length (filter (\<lambda>fd. 0 < fd) xs)" and ?s = "c_div tot n"
    let ?p = "\<lparr>thread_id = i, tp_filename = f, file_part = int v, socketfd = fd, tp_start = int v * ?s,
      tp_end = (if int v = n - 1 then tot - 1 else (int v + 1) * ?s - 1)\<rparr>"
    let ?L = "assign_parts (xs @ zs) (i + 1) (int (Suc v)) f tot n ?s"
    have "assign_parts ((fd # xs) @ zs) i (int v) f tot n ?s = ?p # ?L" using False by (simp add: add.commute)
    then have act: "active (assign_parts ((fd # xs) @ zs) i (int v) f tot n ?s) = ?p # active ?L"
      using pos by (simp add: active_def)
    have p: "part_of ?p = part_at n tot v" by (simp add: part_of_def part_at_def job_at_def)
    have u: "[v..<v + length (filter (\<lambda>fd. 0 < fd) (fd # xs))] = v # [Suc v..<Suc v + ?c]"
      using upt_conv_Cons [of v "v + Suc ?c"] pos by (simp del: upt_Suc)
    show ?thesis
      unfolding act u list.map p using Cons.IH [of "i + 1" "Suc v"] Cons.prems by simp
  qed
qed

text \<open>
  The sockets of the client: the results of its connection attempts, a descriptor or -1 each,
  followed by the zeros the array starts with.
\<close>

definition socket_table :: "int list \<Rightarrow> nat \<Rightarrow> int list" where
  "socket_table attempts k = attempts @ replicate k 0"

lemma download_file_parts:
  assumes "\<forall>fd \<in> set xs. fd \<noteq> 0" "v = length (filter (\<lambda>fd. 0 < fd) xs)" "0 < v"
  shows "\<exists>ts. download_file (socket_table xs k) f tot (int v) = Ok ts
    \<and> map part_of (active ts) = map (part_at (int v) tot) [0..<v] \<and> (\<forall>p \<in> set (active ts). tp_filename p = f)"
  using assign_parts_active [OF assms(1), of "replicate k 0" 0 0 f tot "int v"] assms(2,3)
  by (simp add: download_file_def socket_table_def)

lemma parts_cover:
  assumes "0 < v" "map part_of ts = map (part_at (int v) (int (length content))) [0..<v]"
  shows "concat (map (\<lambda>p. byte_range content (tp_start p) (tp_end p)) ts) = content"
proof -
  let ?g = "\<lambda>(k :: int, s, e). byte_range content s e"
  have "map (\<lambda>p. byte_range content (tp_start p) (tp_end p)) ts = map ?g (map part_of ts)"
    by (simp add: part_of_def)
  also have "\<dots> = map (\<lambda>job. byte_range content (file_start job) (file_end job))
      (map (job_at (int v) [] (int (length content))) [0..<v])"
    unfolding assms(2) by (simp add: part_at_def)
  finally show ?thesis using slices_cover [of "int v" "int (length content)" content "[]"] assms(1) by simp
qed

lemma receive_packages:
  "\<forall>q \<in> set ps. sp_content_is_end q = - 1 \<and> sp_cmd q = TCP_DOWNLOAD \<Longrightarrow>
    sp_content_is_end p = 1 \<Longrightarrow> sp_cmd p = TCP_DOWNLOAD \<Longrightarrow>
    receive_loop (ps @ [p]) w = (w @ concat (map sp_file_content (ps @ [p])), True)"
  by (induction ps arbitrary: w) auto

section \<open>Properties\<close>

text \<open>
  Property C28.  What the TCP server sends for a range of a file without zero bytes: packages whose
  texts are the range, only the last marked as the end, unless the range has 1024 bytes or that and
  a multiple of 1023, when its last piece overruns the server's buffer.
\<close>

theorem tcp_upload_exact:
  assumes "fopen f = Some content" "no_nul content" "0 \<le> start" "start \<le> e + 1" "e < int (length content)"
  shows "if overfull (nat (e - start + 1)) then server_upload_file fopen f start e = Some (ub Out_Of_Bounds)
    else \<exists>ps p. server_upload_file fopen f start e = Some (Ok (ps @ [p]))
      \<and> concat (map sp_file_content (ps @ [p])) = byte_range content start e
      \<and> (\<forall>q \<in> set ps. sp_content_is_end q = - 1) \<and> sp_content_is_end p = 1
      \<and> (\<forall>q \<in> set (ps @ [p]). sp_cmd q = TCP_DOWNLOAD)"
  by (rule tcp_upload_result [where fopen = fopen and f = f and content = content, OF assms])

text \<open>
  The parts tile the file: whichever connection attempts failed, the threads with a
  socket get the parts numbered from zero in order, and their byte ranges give, one after the
  other, exactly the file.
\<close>

lemma parts_tile_file:
  assumes "\<forall>fd \<in> set xs. fd \<noteq> 0" "v = length (filter (\<lambda>fd. 0 < fd) xs)" "0 < v"
  shows "\<exists>ts. download_file (socket_table xs k) f (int (length content)) (int v) = Ok ts
    \<and> map file_part (active ts) = map int [0..<v]
    \<and> concat (map (\<lambda>p. byte_range content (tp_start p) (tp_end p)) (active ts)) = content"
proof -
  obtain ts where ts: "download_file (socket_table xs k) f (int (length content)) (int v) = Ok ts"
    "map part_of (active ts) = map (part_at (int v) (int (length content))) [0..<v]"
    using download_file_parts [OF assms] by blast
  have "map file_part (active ts) = map fst (map part_of (active ts))" by (simp add: part_of_def)
  also have "\<dots> = map int [0..<v]" unfolding ts(2) by (simp add: part_at_def)
  finally show ?thesis using ts(1) parts_cover [OF assms(3) ts(2)] by blast
qed

text \<open>
  For a file without zero bytes, every thread's request makes the server write packages that end the
  thread's loop with the thread's part, whenever no part has one of the sizes that overrun the
  server's buffer, and the parts in order are the file.
\<close>

lemma tcp_parts_arrive:
  assumes "fopen f = Some content" "no_nul content" "length f < TCP_BUFFER_SIZE"
    and "\<forall>fd \<in> set xs. fd \<noteq> 0" "v = length (filter (\<lambda>fd. 0 < fd) xs)" "0 < v"
    and "tot = int (length content)" "\<not> overfull (nat (tot div int v))"
    and "\<not> overfull (nat (tot div int v + tot mod int v))"
  shows "\<exists>ts. download_file (socket_table xs k) f tot (int v) = Ok ts
    \<and> (\<forall>p \<in> set (active ts). \<exists>req ps. thread_download p = Ok (Some req)
        \<and> serve_connection access stat_size fopen [req] = Some (Ok ps)
        \<and> receive_loop ps [] = (byte_range content (tp_start p) (tp_end p), True))
    \<and> map file_part (active ts) = map int [0..<v]
    \<and> concat (map (\<lambda>p. byte_range content (tp_start p) (tp_end p)) (active ts)) = content"
proof -
  obtain ts where ts: "download_file (socket_table xs k) f tot (int v) = Ok ts"
    "map part_of (active ts) = map (part_at (int v) tot) [0..<v]" "\<forall>p \<in> set (active ts). tp_filename p = f"
    using download_file_parts [OF assms(4-6)] by blast
  have "\<exists>req ps. thread_download p = Ok (Some req) \<and> serve_connection access stat_size fopen [req] = Some (Ok ps)
        \<and> receive_loop ps [] = (byte_range content (tp_start p) (tp_end p), True)"
    if p: "p \<in> set (active ts)" for p
  proof -
    from p have "part_of p \<in> set (map part_of (active ts))" by simp
    then obtain j where j: "j < v" "part_of p = part_at (int v) tot j" unfolding ts(2) by auto
    then have se: "tp_start p = file_start (job_at (int v) [] tot j)" "tp_end p = file_end (job_at (int v) [] tot j)"
      by (simp_all add: part_of_def part_at_def)
    have v: "0 < int v" "0 \<le> tot" "j < nat (int v)" using assms(6,7) j(1) by simp_all
    note r = job_range [OF v, of "[]", folded se]
    have len: "0 \<le> tp_end p - tp_start p + 1" "\<not> overfull (nat (tp_end p - tp_start p + 1))"
      using r(5) assms(8,9) v(1,2) by (auto simp: pos_imp_zdiv_nonneg_iff split: if_splits)
    have b: "tp_start p \<le> tp_end p + 1" "tp_end p < int (length content)" using len(1) r(3) assms(7) by simp_all
    obtain ps q where ps: "server_upload_file fopen f (tp_start p) (tp_end p) = Some (Ok (ps @ [q]))"
      "concat (map sp_file_content (ps @ [q])) = byte_range content (tp_start p) (tp_end p)"
      "\<forall>x \<in> set ps. sp_content_is_end x = - 1" "sp_content_is_end q = 1"
      "\<forall>x \<in> set (ps @ [q]). sp_cmd x = TCP_DOWNLOAD"
      using tcp_upload_result [where fopen = fopen and f = f and content = content, OF assms(1,2) r(1) b] len(2)
      by auto
    let ?req = "blank_client_package\<lparr>cp_cmd := TCP_DOWNLOAD, cp_file_name := f, start_prt := tp_start p,
      end_prt := tp_end p\<rparr>"
    have "thread_download p = Ok (Some ?req)"
      using p ts(3) assms(3) by (simp add: thread_download_def client_request_file_def cstore_def active_def)
    moreover have "serve_connection access stat_size fopen [?req] = Some (Ok (ps @ [q]))"
      using ps(1) by (simp add: tcp_cmds)
    moreover have "receive_loop (ps @ [q]) [] = (byte_range content (tp_start p) (tp_end p), True)"
      using receive_packages [of ps q "[]"] ps by auto
    ultimately show ?thesis by blast
  qed
  moreover have "map file_part (active ts) = map fst (map part_of (active ts))" by (simp add: part_of_def)
  then have "map file_part (active ts) = map int [0..<v]" by (simp add: ts(2) part_at_def)
  ultimately show ?thesis using ts(1) parts_cover [OF assms(6), of "active ts" content] ts(2) assms(7) by blast
qed

section \<open>Concrete instances\<close>

theorem tcp_upload_exact_witness:
  "(\<exists>ps p. server_upload_file (\<lambda>_. Some ''hello'') ''f'' 1 3 = Some (Ok (ps @ [p]))
      \<and> concat (map sp_file_content (ps @ [p])) = ''ell'')
    \<and> server_upload_file (\<lambda>_. Some (replicate 2000 CHR ''x'')) ''f'' 0 1023 = Some (ub Out_Of_Bounds)"
proof -
  have o: "\<not> overfull 3" "overfull 1024" by (simp_all add: overfull_def TCP_BUFFER_SIZE_def)
  have n: "nat (3 - 1 + 1) = 3" "nat (1023 - 0 + 1) = 1024" by simp_all
  have b: "byte_range ''hello'' 1 3 = ''ell''" by (simp add: byte_range_def numeral_3_eq_3)
  have "no_nul ''hello''" "0 \<le> (1::int)" "(1::int) \<le> 3 + 1" "3 < int (length ''hello'')" by simp_all
  from tcp_upload_exact [where fopen = "\<lambda>_. Some ''hello''" and f = "''f''", OF refl this]
  have "\<exists>ps p. server_upload_file (\<lambda>_. Some ''hello'') ''f'' 1 3 = Some (Ok (ps @ [p]))
      \<and> concat (map sp_file_content (ps @ [p])) = ''ell''"
    unfolding n b using o(1) by simp blast
  moreover define big where "big = replicate 2000 CHR ''x''"
  have "no_nul big" "0 \<le> (0::int)" "(0::int) \<le> 1023 + 1" "1023 < int (length big)"
    unfolding big_def no_nul_def by simp_all
  from tcp_upload_exact [where fopen = "\<lambda>_. Some big" and f = "''f''", OF refl this]
  have "server_upload_file (\<lambda>_. Some big) ''f'' 0 1023 = Some (ub Out_Of_Bounds)"
    unfolding n using o(2) by simp
  ultimately show ?thesis unfolding big_def by blast
qed

end
