(* ===== verification/Hw3_Main.thy ===== *)
theory Hw3_Main
  imports Hw3_Client
begin

text \<open>
  \<open>main\<close> of \<^verbatim>\<open>HW3/client.c\<close>: its arguments, the connection attempts, the socket the file
  is asked for on, and what client and server achieve together from the arguments to the parts.
  The connection attempts take the servers in the order of the list, so attempt \<open>k\<close> is for
  server \<open>k\<close>; \<open>fds k\<close> and \<open>conn k\<close> are its results of \<open>socket\<close> and \<open>connect\<close>.
\<close>

section \<open>Connecting\<close>

definition MAX_SOCK_SIZE :: nat where "MAX_SOCK_SIZE = 1024"

definition client_build_fail_message :: string where
  "client_build_fail_message = ''Client Fail: Cannot establish socket connection. End of client.''"

definition tcp_socket_connect :: "int \<Rightarrow> int" where
  "tcp_socket_connect connected = (if connected < 0 then - 1 else 1)"

text \<open>The address connected to and the value returned.\<close>

definition build_connection :: "(string \<Rightarrow> 32 word) \<Rightarrow> int \<Rightarrow> int \<Rightarrow> server_info_t \<Rightarrow> (sockaddr_in \<times> int) res" where
  "build_connection inet_addr sock connected info =
    res_bind (init_socket sock client_build_fail_message) (\<lambda>client_sock.
      let addr = init_address (inet_addr (si_IP info)) (si_port info);
          connect_result = tcp_socket_connect connected
      in Ok (addr, if connect_result < 0 then - 1 else client_sock))"

text \<open>
  The loop of \<open>main\<close> over the list: the entries set in \<open>sockets\<close> and \<open>valid_conn\<close>.  Behind
  the last node there is nothing that was ever filled in: its \<open>next\<close> is unset, or is the node that
  \<open>read_server_info\<close> allocated for a line it then dropped.  A loop that still needs a connection
  there uses these contents; one that needs none ends whatever they are: the code compares that
  \<open>next\<close> with NULL before it looks at \<open>connection_num\<close>, the model in the other order.
\<close>

fun connect_loop ::
    "(string \<Rightarrow> 32 word) \<Rightarrow> (nat \<Rightarrow> int) \<Rightarrow> (nat \<Rightarrow> int) \<Rightarrow> server_info_t list \<Rightarrow> nat \<Rightarrow> int \<Rightarrow> (int list \<times> int) res" where
  "connect_loop inet_addr fds conn [] k connection_num =
    (if k < MAX_SOCK_SIZE \<and> 0 < connection_num then ub Uninitialised else Ok ([], 0))"
| "connect_loop inet_addr fds conn (info # infos) k connection_num =
    (if k < MAX_SOCK_SIZE \<and> 0 < connection_num
     then res_bind (build_connection inet_addr (fds k) (conn k) info) (\<lambda>(addr, client_sock).
          res_bind (connect_loop inet_addr fds conn infos (k + 1)
              (if 0 \<le> client_sock then connection_num - 1 else connection_num)) (\<lambda>(sockets, valid_conn).
            Ok (client_sock # sockets, if 0 \<le> client_sock then valid_conn + 1 else valid_conn)))
     else Ok ([], 0))"

text \<open>The first entry above zero; without one the variable keeps its value.\<close>

fun pick_socket :: "int list \<Rightarrow> int \<Rightarrow> int" where
  "pick_socket [] client_sock = client_sock"
| "pick_socket (fd # sockets) client_sock = (if fd \<le> 0 then pick_socket sockets client_sock else fd)"

section \<open>The client's main\<close>

definition tcp_client_checkParam :: "(string \<Rightarrow> int) \<Rightarrow> string list \<Rightarrow> unit res" where
  "tcp_client_checkParam access argv =
    (if length argv \<noteq> 4 then
       failHandler ''Please use client by correct input! usage: ./client <server-info.txt> <num-connections> <filename>''
     else if hasFile access (argv ! 1) = 0 then failHandler ''Please input correct server-info.txt!''
     else if isNumber (argv ! 2) = 0 then failHandler ''Please input correct num-connections!''
     else Ok ())"

text \<open>
  The socket asked, the package sent on it, and what \<open>after_check\<close> does with the answer, if one
  is read.
\<close>

definition tcp_client_main ::
    "(string \<Rightarrow> int) \<Rightarrow> (string \<Rightarrow> 32 word) \<Rightarrow> (string \<Rightarrow> char list option) \<Rightarrow> string \<Rightarrow> string \<Rightarrow> string list \<Rightarrow>
      (nat \<Rightarrow> int) \<Rightarrow> (nat \<Rightarrow> int) \<Rightarrow> server_package option \<Rightarrow>
      (int \<times> client_package \<times> (thread_param list + client_package list) option) res" where
  "tcp_client_main access inet_addr fopen addr0 port0 argv fds conn answer =
    res_bind (tcp_client_checkParam access argv) (\<lambda>_.
    res_bind (read_server_info fopen (argv ! 1) addr0 port0) (\<lambda>(infos, valid_ips).
      let max_num = atoi (argv ! 2);
          connection_num = (if max_num < valid_ips then max_num else valid_ips)
      in res_bind (connect_loop inet_addr fds conn infos 0 connection_num) (\<lambda>(attempts, valid_conn).
         if valid_conn = 0 then failHandler ''No valid connection!''
         else let sockets = socket_table attempts (MAX_SOCK_SIZE - length attempts);
                  client_sock = pick_socket sockets (last attempts)
              in res_bind (client_check_file (argv ! 3)) (\<lambda>request.
                 case answer of
                   None \<Rightarrow> Ok (client_sock, request, None)
                 | Some read_buf \<Rightarrow> res_bind (after_check sockets (argv ! 3) valid_conn read_buf) (\<lambda>r.
                     Ok (client_sock, request, Some r))))))"

section \<open>The connection loop\<close>

text \<open>The servers that can be reached among those tried from attempt \<open>k\<close> on.\<close>

definition reachable_from :: "(nat \<Rightarrow> int) \<Rightarrow> nat \<Rightarrow> nat \<Rightarrow> nat" where
  "reachable_from conn k m = length (filter (\<lambda>j. 0 \<le> conn j) [k..<k + m])"

lemma reachable_from_Suc:
  "reachable_from conn k (Suc m) = (if 0 \<le> conn k then 1 else 0) + reachable_from conn (Suc k) m"
proof -
  have "[k..<k + Suc m] = k # [Suc k..<Suc k + m]" by (simp add: upt_conv_Cons)
  then show ?thesis by (simp add: reachable_from_def)
qed

lemma build_connection_result:
  "0 < sock \<Longrightarrow> build_connection inet_addr sock connected info =
    Ok (init_address (inet_addr (si_IP info)) (si_port info), if 0 \<le> connected then sock else - 1)"
  by (simp add: build_connection_def init_socket_def tcp_socket_connect_def)

lemma connect_loop_result:
  "\<forall>j. 0 < fds j \<Longrightarrow> k + length infos < MAX_SOCK_SIZE \<Longrightarrow>
    (if c \<le> reachable_from conn k (length infos)
     then \<exists>xs. connect_loop inet_addr fds conn infos k (int c) = Ok (xs, int c)
       \<and> (\<forall>fd \<in> set xs. fd \<noteq> 0) \<and> c = length (filter (\<lambda>fd. 0 < fd) xs)
     else connect_loop inet_addr fds conn infos k (int c) = ub Uninitialised)"
proof (induction infos arbitrary: k c)
  case Nil
  then show ?case by (simp add: reachable_from_def)
next
  case (Cons info infos)
  have room: "k < MAX_SOCK_SIZE" "Suc k + length infos < MAX_SOCK_SIZE" using Cons.prems(2) by simp_all
  have fd: "0 < fds k" using Cons.prems(1) by blast
  note build = build_connection_result [OF fd]
  show ?case
  proof (cases c)
    case 0
    then show ?thesis by simp
  next
    case (Suc c')
    show ?thesis
    proof (cases "0 \<le> conn k")
      case True
      with Cons.IH [OF Cons.prems(1) room(2), of c'] Suc room(1) fd show ?thesis
        by (auto simp: reachable_from_Suc build)
    next
      case False
      with Cons.IH [OF Cons.prems(1) room(2), of c] Suc room(1) show ?thesis
        by (auto simp: reachable_from_Suc build)
    qed
  qed
qed

text \<open>
  Property C29.  The connection attempts, for fewer than 1024 servers and descriptors above zero: with
  \<open>c\<close> connections wanted, the loop makes \<open>c\<close> of them exactly when that many servers of the list can
  be reached, and leaves a descriptor or -1 for every attempt; otherwise it walks past the end of the
  list.
\<close>

theorem connections_exact:
  assumes "\<forall>j. 0 < fds j" "length infos < MAX_SOCK_SIZE"
  shows "if c \<le> reachable_from conn 0 (length infos)
    then \<exists>xs. connect_loop inet_addr fds conn infos 0 (int c) = Ok (xs, int c)
      \<and> (\<forall>fd \<in> set xs. fd \<noteq> 0) \<and> c = length (filter (\<lambda>fd. 0 < fd) xs)
    else connect_loop inet_addr fds conn infos 0 (int c) = ub Uninitialised"
  using connect_loop_result [OF assms(1), of 0] assms(2) by simp

section \<open>From the arguments to the parts\<close>

lemma pick_socket_valid: "0 < length (filter (\<lambda>fd. 0 < fd) xs) \<Longrightarrow> pick_socket (xs @ ys) d \<in> set xs \<and> 0 < pick_socket (xs @ ys) d"
  by (induction xs) (auto simp: not_le)

text \<open>What \<open>download_single_part\<close> makes of the packages of one part.\<close>

lemma part_written:
  assumes "receive_loop ps [] = (bytes, True)"
  shows "download_single_part room True part ps =
    (case room of
       None \<Rightarrow> ub Uninitialised
     | Some n \<Rightarrow> if length (''output.'' @ show_int part) < n then Ok (''output.'' @ show_int part, bytes)
                else ub Out_Of_Bounds)"
  using assms by (simp add: download_single_part_def cstore_def split: option.splits)

text \<open>
  Property C30.  The whole download.  Let the list of servers be read, at least as many servers of it be
  reachable as connections are wanted, the file have no zero byte and no part of a size that overruns
  the server's buffer, and every package be read whole.  Then the client asks one of the sockets it
  connected, the server answers with the file's length, and the client starts a thread for each
  connected socket, numbered in order; each sends a request that the server answers with packages of
  which the last is marked as such, and the byte ranges of the parts, in the order of their numbers,
  are the file.  What a thread then does hangs on the pointer \<open>name\<close> that nothing sets: if it points to an
  object of \<open>n\<close> bytes that hold the name of the part file, the thread writes its byte range to
  that file and stops reading at the last package; if it does not, the behaviour is undefined.
\<close>

theorem tcp_download_completes:
  assumes "tcp_client_checkParam access argv = Ok ()" "read_server_info info_open (argv ! 1) addr0 port0 = Ok (infos, valid_ips)"
    and "f = argv ! 3" "0 < atoi (argv ! 2)" "int v = min (atoi (argv ! 2)) valid_ips" "0 < v"
    and "\<forall>j. 0 < fds j" "length infos < MAX_SOCK_SIZE" "v \<le> reachable_from conn 0 (length infos)"
    and "fopen f = Some content" "no_nul content" "length f < TCP_BUFFER_SIZE"
      "hasFile server_access f \<noteq> 0" "file_length stat_size f = Ok tot" "tot = int (length content)"
    and "\<not> overfull (nat (tot div int v))" "\<not> overfull (nat (tot div int v + tot mod int v))"
  shows "\<exists>sock req answer ts.
    tcp_client_main access inet_addr info_open addr0 port0 argv fds conn (Some answer) = Ok (sock, req, Some (Inl ts))
    \<and> 0 < sock \<and> serve_connection server_access stat_size fopen [req] = Some (Ok [answer])
    \<and> map file_part (active ts) = map int [0..<v]
    \<and> (\<forall>p \<in> set (active ts). \<exists>req ps. thread_download p = Ok (Some req)
        \<and> serve_connection server_access stat_size fopen [req] = Some (Ok ps)
        \<and> receive_loop ps [] = (byte_range content (tp_start p) (tp_end p), True)
        \<and> (\<forall>room. download_single_part room True (file_part p) ps =
            (case room of
               None \<Rightarrow> ub Uninitialised
             | Some n \<Rightarrow> if length (''output.'' @ show_int (file_part p)) < n
                        then Ok (''output.'' @ show_int (file_part p), byte_range content (tp_start p) (tp_end p))
                        else ub Out_Of_Bounds)))
    \<and> concat (map (\<lambda>p. byte_range content (tp_start p) (tp_end p)) (active ts)) = content"
proof -
  obtain xs where xs: "connect_loop inet_addr fds conn infos 0 (int v) = Ok (xs, int v)"
    "\<forall>fd \<in> set xs. fd \<noteq> 0" "v = length (filter (\<lambda>fd. 0 < fd) xs)"
    using connect_loop_result [OF assms(7), of 0 infos v conn inet_addr] assms(8,9) by auto
  let ?table = "socket_table xs (MAX_SOCK_SIZE - length xs)"
  let ?req = "blank_client_package\<lparr>cp_cmd := TCP_CHECKFILE, cp_file_name := f\<rparr>"
  let ?answer = "blank_server_package\<lparr>sp_cmd := TCP_CHECKFILE, sp_have_file_flag := 1, sp_file_length := tot\<rparr>"
  obtain ts where ts: "download_file ?table f tot (int v) = Ok ts"
    "\<forall>p \<in> set (active ts). \<exists>req ps. thread_download p = Ok (Some req)
        \<and> serve_connection server_access stat_size fopen [req] = Some (Ok ps)
        \<and> receive_loop ps [] = (byte_range content (tp_start p) (tp_end p), True)"
    "map file_part (active ts) = map int [0..<v]"
    "concat (map (\<lambda>p. byte_range content (tp_start p) (tp_end p)) (active ts)) = content"
    using tcp_parts_arrive [where fopen = fopen and f = f and access = server_access and stat_size = stat_size,
        OF assms(10-12) xs(2,3) assms(6,15-17)] by blast
  have conns: "(if atoi (argv ! 2) < valid_ips then atoi (argv ! 2) else valid_ips) = int v"
    using assms(5) by (auto simp: min_def split: if_splits)
  have main: "tcp_client_main access inet_addr info_open addr0 port0 argv fds conn (Some ?answer) =
      Ok (pick_socket ?table (last xs), ?req, Some (Inl ts))"
    using assms(1,2,6,12) xs(1) ts(1) conns
    by (simp add: tcp_client_main_def assms(3) [symmetric] client_check_file_def cstore_def after_check_def Let_def)
  have sock: "0 < pick_socket ?table (last xs)"
    using pick_socket_valid [of xs "replicate (MAX_SOCK_SIZE - length xs) 0" "last xs"] xs(3) assms(6)
    by (simp add: socket_table_def)
  have serve: "serve_connection server_access stat_size fopen [?req] = Some (Ok [?answer])"
    using assms(13,14) by (simp add: tcp_cmds server_response_check_file_def Let_def)
  show ?thesis
    by (rule exI [of _ "pick_socket ?table (last xs)"], rule exI [of _ ?req], rule exI [of _ ?answer], rule exI [of _ ts])
      (use main sock serve ts(2-4) part_written in blast)
qed

section \<open>Concrete instances\<close>

definition sample_infos :: "server_info_t list" where
  "sample_infos = [\<lparr>si_IP = ''1.2.3.4'', si_port = 80, si_idx = 0, si_valid_flag = 0\<rparr>,
    \<lparr>si_IP = ''1.2.3.5'', si_port = 80, si_idx = 1, si_valid_flag = 0\<rparr>]"

text \<open>The first server is down.\<close>

definition sample_conn :: "nat \<Rightarrow> int" where
  "sample_conn k = (if k = 0 then - 1 else 0)"

lemma sample_reach: "reachable_from sample_conn 0 (length sample_infos) = 1"
  by code_simp

theorem connections_exact_witness:
  "(\<exists>xs. connect_loop (\<lambda>_. 1) (\<lambda>k. int k + 3) sample_conn sample_infos 0 1 = Ok (xs, 1))
    \<and> connect_loop (\<lambda>_. 1) (\<lambda>k. int k + 3) sample_conn sample_infos 0 2 = ub Uninitialised"
proof -
  have f: "\<forall>j. 0 < int j + 3" "length sample_infos < MAX_SOCK_SIZE" by (simp_all add: sample_infos_def MAX_SOCK_SIZE_def)
  note c = connections_exact [where fds = "\<lambda>k. int k + 3" and conn = sample_conn and infos = sample_infos
      and inet_addr = "\<lambda>_. 1", OF f, unfolded sample_reach]
  from c [of 1] c [of 2] show ?thesis by auto
qed

definition sample_tcp_argv :: "string list" where
  "sample_tcp_argv = [''client'', ''info'', ''1'', ''f'']"

definition sample_info_text :: "char list" where
  "sample_info_text = ''1.2.3.4 80'' @ [CHR 0x0A] @ ''1.2.3.5 80'' @ [CHR 0x0A]"

theorem tcp_download_completes_witness:
  "\<exists>sock req answer ts.
    tcp_client_main (\<lambda>_. 0) (\<lambda>_. 1) (\<lambda>_. Some sample_info_text) [] [] sample_tcp_argv (\<lambda>k. int k + 3) sample_conn (Some answer)
      = Ok (sock, req, Some (Inl ts))
    \<and> (\<forall>p \<in> set (active ts). \<exists>ps. download_single_part None True (file_part p) ps = ub Uninitialised)
    \<and> concat (map (\<lambda>p. byte_range ''hello'' (tp_start p) (tp_end p)) (active ts)) = ''hello''"
proof -
  have a: "tcp_client_checkParam (\<lambda>_. 0) sample_tcp_argv = Ok ()"
    "read_server_info (\<lambda>_. Some sample_info_text) (sample_tcp_argv ! 1) [] [] = Ok (sample_infos, 2)"
    "''f'' = sample_tcp_argv ! 3" "0 < atoi (sample_tcp_argv ! 2)" "int 1 = min (atoi (sample_tcp_argv ! 2)) 2"
    by code_simp+
  have f: "\<forall>j. 0 < int j + 3" "length sample_infos < MAX_SOCK_SIZE" "1 \<le> reachable_from sample_conn 0 (length sample_infos)"
    by (simp_all add: sample_reach MAX_SOCK_SIZE_def) (simp add: sample_infos_def)
  have c: "no_nul ''hello''" "length ''f'' < TCP_BUFFER_SIZE" "hasFile (\<lambda>_. 0) ''f'' \<noteq> 0"
    "file_length (\<lambda>_. Some 5) ''f'' = Ok 5" "5 = int (length ''hello'')"
    by code_simp+
  have o: "\<not> overfull (nat (5 div int 1))" "\<not> overfull (nat (5 div int 1 + 5 mod int 1))"
    by (simp_all add: overfull_def TCP_BUFFER_SIZE_def)
  obtain sock req answer ts where t:
    "tcp_client_main (\<lambda>_. 0) (\<lambda>_. 1) (\<lambda>_. Some sample_info_text) [] [] sample_tcp_argv (\<lambda>k. int k + 3) sample_conn (Some answer)
      = Ok (sock, req, Some (Inl ts))"
    "\<forall>p \<in> set (active ts). \<exists>ps. \<forall>room. download_single_part room True (file_part p) ps =
        (case room of
           None \<Rightarrow> ub Uninitialised
         | Some n \<Rightarrow> if length (''output.'' @ show_int (file_part p)) < n
                    then Ok (''output.'' @ show_int (file_part p), byte_range ''hello'' (tp_start p) (tp_end p))
                    else ub Out_Of_Bounds)"
    "concat (map (\<lambda>p. byte_range ''hello'' (tp_start p) (tp_end p)) (active ts)) = ''hello''"
    using tcp_download_completes [where fopen = "\<lambda>_. Some ''hello''" and access = "\<lambda>_. 0" and inet_addr = "\<lambda>_. 1"
      and argv = sample_tcp_argv and info_open = "\<lambda>_. Some sample_info_text" and fds = "\<lambda>k. int k + 3"
      and conn = sample_conn and server_access = "\<lambda>_. 0" and stat_size = "\<lambda>_. Some 5",
      OF a zero_less_one f refl c o] by blast
  have "\<exists>ps. download_single_part None True (file_part p) ps = ub Uninitialised" if "p \<in> set (active ts)" for p
  proof -
    obtain ps where "\<forall>room. download_single_part room True (file_part p) ps =
        (case room of
           None \<Rightarrow> ub Uninitialised
         | Some n \<Rightarrow> if length (''output.'' @ show_int (file_part p)) < n
                    then Ok (''output.'' @ show_int (file_part p), byte_range ''hello'' (tp_start p) (tp_end p))
                    else ub Out_Of_Bounds)"
      using t(2) \<open>p \<in> set (active ts)\<close> by blast
    from spec [OF this, of None] show ?thesis by auto
  qed
  with t(1,3) show ?thesis by blast
qed

end
