(* ===== verification/Hw3_List.thy ===== *)
theory Hw3_List
  imports Hw3_Main
begin

text \<open>
  The list of servers of \<^verbatim>\<open>HW3/client.c\<close> in memory: nodes allocated one after the other and linked by
  \<open>next\<close>, as \<open>read_server_info\<close> builds them, the connection loop walks them and
  \<open>clean_server_info\<close> frees them; that the lists of \<open>Hw3_Client\<close> and \<open>Hw3_Main\<close> are what these do;
  and the end of \<open>main\<close>, which frees the list.
\<close>

section \<open>Nodes\<close>

text \<open>
  A pointer no assignment has set, or the number of a node; no pointer of the list is ever set to
  NULL.  A new node's fields are unset.
\<close>

datatype next_ptr = Unset | Node nat

record node =
  n_info :: "server_info_t option"
  n_next :: next_ptr

definition new_node :: node where
  "new_node = \<lparr>n_info = None, n_next = Unset\<rparr>"

definition node_info :: "node list \<Rightarrow> nat \<Rightarrow> server_info_t res" where
  "node_info h a = (case n_info (h ! a) of None \<Rightarrow> ub Uninitialised | Some info \<Rightarrow> Ok info)"

text \<open>The loop of \<open>read_server_info\<close>, with \<open>cur\<close> the number of the node filled last.\<close>

function read_nodes :: "string \<Rightarrow> bool \<Rightarrow> string \<Rightarrow> string \<Rightarrow> nat \<Rightarrow> int \<Rightarrow> node list \<Rightarrow> (node list \<times> int) res" where
  "read_nodes input eof addr port_s cur total_lines h =
    (if eof then Ok (h, total_lines)
     else case scan_pair input addr port_s of (addr', port', rest, eof') \<Rightarrow>
       res_bind (cstore 100 addr') (\<lambda>_. res_bind (cstore 100 port') (\<lambda>_.
         let new = length h;
             h' = h[cur := (h ! cur)\<lparr>n_next := Node new\<rparr>] @ [new_node]
         in res_bind (node_info h' cur) (\<lambda>info.
           if atoi port' = si_port info \<and> si_IP info = addr'
           then read_nodes rest eof' addr' port' cur total_lines h'
           else res_bind (cstore 16 addr') (\<lambda>a.
             read_nodes rest eof' addr' port' new (total_lines + 1)
               (h'[new := (h' ! new)\<lparr>n_info :=
                 Some \<lparr>si_IP = a, si_port = atoi port', si_idx = total_lines, si_valid_flag = 0\<rparr>\<rparr>]))))))"
  by pat_completeness auto
termination
  by (relation "measure (\<lambda>(input, eof, rest). if eof then 0 else length input + 1)")
    (auto dest!: sym [of _ "scan_pair _ _ _"] scan_pair_shorter)

declare read_nodes.simps [simp del]

definition read_server_nodes :: "(string \<Rightarrow> char list option) \<Rightarrow> string \<Rightarrow> string \<Rightarrow> string \<Rightarrow> (node list \<times> int) res" where
  "read_server_nodes fopen info addr0 port0 =
    (let h = [new_node\<lparr>n_info := Some info_head\<rparr>]
     in case fopen info of
          None \<Rightarrow> failHandler ''Read file fail!''
        | Some input \<Rightarrow> read_nodes input False addr0 port0 0 0 h)"

text \<open>
  The loop of \<open>main\<close> over the nodes behind \<open>cur\<close>: the descriptors, the count, and the nodes with
  their flags set.  The code tests \<open>cur->next\<close> first; what an unset one compares to does not matter
  when no more connection is wanted.
\<close>

function connect_nodes ::
    "(string \<Rightarrow> 32 word) \<Rightarrow> (nat \<Rightarrow> int) \<Rightarrow> (nat \<Rightarrow> int) \<Rightarrow> nat \<Rightarrow> nat \<Rightarrow> int \<Rightarrow> node list \<Rightarrow> (int list \<times> int \<times> node list) res" where
  "connect_nodes inet_addr fds conn cur k connection_num h =
    (if k < MAX_SOCK_SIZE \<and> 0 < connection_num
     then case n_next (h ! cur) of
         Unset \<Rightarrow> ub Uninitialised
       | Node b \<Rightarrow> res_bind (node_info h b) (\<lambda>info.
           res_bind (build_connection inet_addr (fds k) (conn k) info) (\<lambda>(addr, client_sock).
             let ok = 0 \<le> client_sock;
                 h' = (if ok then h[b := (h ! b)\<lparr>n_info := Some (info\<lparr>si_valid_flag := 1\<rparr>)\<rparr>] else h)
             in res_bind (connect_nodes inet_addr fds conn b (k + 1) (if ok then connection_num - 1 else connection_num) h')
                  (\<lambda>(sockets, valid_conn, h''). Ok (client_sock # sockets, if ok then valid_conn + 1 else valid_conn, h''))))
     else Ok ([], 0, h))"
  by pat_completeness auto
termination
  by (relation "measure (\<lambda>(inet_addr, fds, conn, cur, k, connection_num, h). MAX_SOCK_SIZE - k)") auto

declare connect_nodes.simps [simp del]

lemma fewer_left: "a < length h \<Longrightarrow> P (h ! a) \<Longrightarrow> \<not> P x \<Longrightarrow> length (filter P (h[a := x])) < length (filter P h)"
  by (induction h arbitrary: a) (auto simp: nth_Cons Suc_le_eq split: nat.splits)

text \<open>\<open>clean_server_info\<close>: \<open>None\<close> is a node that has been freed.\<close>

function clean_from :: "next_ptr \<Rightarrow> node option list \<Rightarrow> node option list res" where
  "clean_from p h =
    (case p of
       Unset \<Rightarrow> ub Uninitialised
     | Node a \<Rightarrow>
         if a < length h
         then (case h ! a of
                 None \<Rightarrow> ub Out_Of_Bounds
               | Some n \<Rightarrow> clean_from (n_next n) (h[a := None]))
         else ub Out_Of_Bounds)"
  by pat_completeness auto
termination
  by (relation "measure (\<lambda>(p, h). length (filter (\<lambda>x. x \<noteq> None) h))") (auto intro!: fewer_left)

declare clean_from.simps [simp del]

definition clean_server_info :: "node list \<Rightarrow> node option list res" where
  "clean_server_info h = clean_from (Node 0) (map Some h)"

section \<open>The end of main\<close>

text \<open>
  \<open>download_file\<close> behind the starting of its threads: it joins them all, of which \<open>ended\<close> says which
  end, and combines the parts.  \<open>None\<close> is a \<open>main\<close> that waits for ever.
\<close>

definition download_finish :: "bool list \<Rightarrow> bool \<Rightarrow> (string \<Rightarrow> char list option) \<Rightarrow> int \<Rightarrow> char list option res" where
  "download_finish ended can_open fopen threadsnum =
    (if list_all id ended then res_bind (combine_file can_open fopen threadsnum) (\<lambda>out. Ok (Some out)) else Ok None)"

text \<open>\<open>main\<close> behind the answer to its query; \<open>found\<close> says that the server has the file.\<close>

definition tcp_client_finish ::
    "bool \<Rightarrow> bool list \<Rightarrow> bool \<Rightarrow> (string \<Rightarrow> char list option) \<Rightarrow> int \<Rightarrow> node list \<Rightarrow> node option list option res" where
  "tcp_client_finish found ended can_open fopen valid_conn h =
    res_bind (if found then download_finish ended can_open fopen valid_conn else Ok (Some [])) (\<lambda>r.
      case r of None \<Rightarrow> Ok None | Some out \<Rightarrow> res_bind (clean_server_info h) (\<lambda>h'. Ok (Some h')))"

section \<open>The list in memory\<close>

text \<open>The nodes behind \<open>a\<close> up to \<open>b\<close> hold the entries of a list.  Later nodes have greater numbers.\<close>

fun segment :: "node list \<Rightarrow> nat \<Rightarrow> server_info_t list \<Rightarrow> nat \<Rightarrow> bool" where
  "segment h a [] b \<longleftrightarrow> b = a"
| "segment h a (i # is) b \<longleftrightarrow> (\<exists>c. n_next (h ! a) = Node c \<and> a < c \<and> c < length h \<and> n_info (h ! c) = Some i \<and> segment h c is b)"

text \<open>Nothing that was ever filled is behind the last node.\<close>

definition open_end :: "node list \<Rightarrow> nat \<Rightarrow> bool" where
  "open_end h b \<longleftrightarrow> n_next (h ! b) = Unset
    \<or> (\<exists>c. n_next (h ! b) = Node c \<and> b < c \<and> c < length h \<and> h ! c = new_node)"

definition holds_list :: "node list \<Rightarrow> server_info_t list \<Rightarrow> nat \<Rightarrow> bool" where
  "holds_list h nodes b \<longleftrightarrow> b < length h \<and> n_info (h ! 0) = Some info_head \<and> segment h 0 nodes b \<and> open_end h b"

lemma segment_le: "segment h a nodes b \<Longrightarrow> a \<le> b"
  by (induction nodes arbitrary: a) (simp, fastforce)

lemma segment_last: "segment h a nodes b \<Longrightarrow> nodes \<noteq> [] \<Longrightarrow> a < b \<and> n_info (h ! b) = Some (last nodes)"
proof (induction nodes arbitrary: a)
  case (Cons i "is")
  then obtain c where c: "a < c" "n_info (h ! c) = Some i" "segment h c is b" by auto
  show ?case
  proof (cases "is = []")
    case True
    with c show ?thesis by simp
  next
    case False
    with Cons.IH [OF c(3)] c(1) show ?thesis by simp
  qed
qed simp

text \<open>A segment depends on the entries of its nodes and on the pointers of all but the last.\<close>

lemma segment_agrees:
  "segment h a nodes b \<Longrightarrow> length h \<le> length h' \<Longrightarrow>
    \<forall>x \<le> b. n_info (h' ! x) = n_info (h ! x) \<and> (x < b \<longrightarrow> n_next (h' ! x) = n_next (h ! x)) \<Longrightarrow>
    segment h' a nodes b"
proof (induction nodes arbitrary: a)
  case (Cons i "is")
  then obtain c where c: "n_next (h ! a) = Node c" "a < c" "c < length h" "n_info (h ! c) = Some i" "segment h c is b" by auto
  with Cons segment_le [OF c(5)] show ?case by auto
qed simp

lemma segment_snoc:
  "segment h a nodes b \<Longrightarrow> n_next (h ! b) = Node c \<Longrightarrow> b < c \<Longrightarrow> c < length h \<Longrightarrow> n_info (h ! c) = Some i \<Longrightarrow>
    segment h a (nodes @ [i]) c"
  by (induction nodes arbitrary: a) auto

lemma holds_list_last: "holds_list h nodes b \<Longrightarrow> n_info (h ! b) = Some (last (info_head # nodes))"
  using segment_last [of h 0 nodes b] by (cases "nodes = []") (auto simp: holds_list_def)

text \<open>What the two branches of the reading loop do to the list.\<close>

definition linked :: "nat \<Rightarrow> node list \<Rightarrow> node list" where
  "linked cur h = h[cur := (h ! cur)\<lparr>n_next := Node (length h)\<rparr>] @ [new_node]"

definition filled_node :: "server_info_t \<Rightarrow> nat \<Rightarrow> node list \<Rightarrow> node list" where
  "filled_node i new h = h[new := (h ! new)\<lparr>n_info := Some i\<rparr>]"

lemma linked_simps:
  assumes "cur < length h"
  shows "length (linked cur h) = Suc (length h)" "linked cur h ! length h = new_node"
    "n_next (linked cur h ! cur) = Node (length h)"
    "x < length h \<Longrightarrow> n_info (linked cur h ! x) = n_info (h ! x)"
    "x < length h \<Longrightarrow> x \<noteq> cur \<Longrightarrow> linked cur h ! x = h ! x"
  using assms by (auto simp: linked_def nth_append nth_list_update)

lemma filled_node_simps:
  assumes "new < length h"
  shows "length (filled_node i new h) = length h" "x \<noteq> new \<Longrightarrow> filled_node i new h ! x = h ! x"
    "n_info (filled_node i new h ! new) = Some i" "n_next (filled_node i new h ! x) = n_next (h ! x)"
  using assms by (auto simp: filled_node_def nth_list_update)

lemma linked_holds:
  assumes "holds_list h nodes cur"
  shows "holds_list (linked cur h) nodes cur"
proof -
  have h: "cur < length h" "n_info (h ! 0) = Some info_head" "segment h 0 nodes cur"
    using assms by (simp_all add: holds_list_def)
  note l = linked_simps [OF h(1)]
  have "segment (linked cur h) 0 nodes cur"
    using h(1) l by (intro segment_agrees [OF h(3)]) auto
  moreover have "open_end (linked cur h) cur" using h(1) l(1-3) by (simp add: open_end_def)
  moreover have "h \<noteq> []" "0 < length h" using h(1) by auto
  ultimately show ?thesis using h(1,2) l(1,4) by (simp add: holds_list_def)
qed

lemma filled_holds:
  assumes "holds_list h nodes cur"
  shows "holds_list (filled_node i (length h) (linked cur h)) (nodes @ [i]) (length h)"
proof -
  let ?l = "linked cur h" and ?f = "filled_node i (length h) (linked cur h)"
  have h: "cur < length h" using assms by (simp add: holds_list_def)
  note l = linked_simps [OF h]
  have new: "length h < length ?l" by (simp add: l(1))
  note f = filled_node_simps [OF new, where i = i]
  have held: "n_info (?l ! 0) = Some info_head" "segment ?l 0 nodes cur"
    using linked_holds [OF assms] by (simp_all add: holds_list_def)
  have "segment ?f 0 nodes cur"
    using f(1,2) h by (intro segment_agrees [OF held(2)]) auto
  then have "segment ?f 0 (nodes @ [i]) (length h)"
    using segment_snoc [of ?f 0 nodes cur "length h" i] h f l by simp
  moreover have "open_end ?f (length h)" using f(4) [of "length h"] l(2) by (simp add: open_end_def new_node_def)
  moreover have "n_info (?f ! 0) = Some info_head" using f(2) [of 0] held(1) h by (cases h) auto
  ultimately show ?thesis using f(1) new by (simp add: holds_list_def)
qed

section \<open>Reading, walking and freeing the list\<close>

lemma read_nodes_list:
  "holds_list h nodes cur \<Longrightarrow>
    (case read_infos input eof addr port_s (last (info_head # nodes)) nodes of
       Inl e \<Rightarrow> read_nodes input eof addr port_s cur (int (length nodes)) h = Inl e
     | Inr nodes' \<Rightarrow> \<exists>h' b. read_nodes input eof addr port_s cur (int (length nodes)) h = Ok (h', int (length nodes'))
         \<and> holds_list h' nodes' b)"
proof (induction "if eof then 0 else length input + 1" arbitrary: input eof addr port_s cur h nodes rule: less_induct)
  case less
  let ?last = "last (info_head # nodes)"
  note simps = read_nodes.simps [of input eof addr port_s cur "int (length nodes)" h] read_infos.simps [of input eof addr port_s ?last nodes]
  obtain a p rest eof' where sp: "scan_pair input addr port_s = (a, p, rest, eof')" by (cases "scan_pair input addr port_s")
  have info: "node_info (linked cur h) cur = Ok ?last"
    using holds_list_last [OF linked_holds [OF less.prems]] by (simp add: node_info_def)
  show ?case
  proof (cases "eof \<or> \<not> length a < 100 \<or> \<not> length p < 100")
    case True
    with less.prems sp show ?thesis unfolding simps by (auto simp: cstore_def)
  next
    case False
    then have ok: "\<not> eof" "cstore 100 a = Ok a" "cstore 100 p = Ok p" by (auto simp: cstore_def)
    have smaller: "(if eof' then 0 else length rest + 1) < (if eof then 0 else length input + 1)"
      using ok(1) scan_pair_shorter [of input addr port_s a p rest] sp by auto
    let ?i = "\<lparr>si_IP = a, si_port = atoi p, si_idx = int (length nodes), si_valid_flag = 0\<rparr>"
    have nodes: "read_nodes input eof addr port_s cur (int (length nodes)) h =
      (if atoi p = si_port ?last \<and> si_IP ?last = a then read_nodes rest eof' a p cur (int (length nodes)) (linked cur h)
       else if length a < 16
       then read_nodes rest eof' a p (length h) (int (length nodes) + 1) (filled_node ?i (length h) (linked cur h))
       else ub Out_Of_Bounds)"
      unfolding simps using ok sp info by (simp add: linked_def filled_node_def Let_def cstore_def)
    have infos: "read_infos input eof addr port_s ?last nodes =
      (if atoi p = si_port ?last \<and> si_IP ?last = a then read_infos rest eof' a p ?last nodes
       else if length a < 16 then read_infos rest eof' a p ?i (nodes @ [?i]) else ub Out_Of_Bounds)"
      unfolding simps using ok sp by (simp add: Let_def cstore_def)
    have more: "last (info_head # nodes @ [?i]) = ?i" "int (length (nodes @ [?i])) = int (length nodes) + 1" by simp_all
    consider (dropped) "atoi p = si_port ?last \<and> si_IP ?last = a"
      | (long) "\<not> (atoi p = si_port ?last \<and> si_IP ?last = a)" "\<not> length a < 16"
      | (added) "\<not> (atoi p = si_port ?last \<and> si_IP ?last = a)" "length a < 16" by blast
    then show ?thesis
    proof cases
      case dropped
      from less.hyps [OF smaller linked_holds [OF less.prems], of a p] show ?thesis
        unfolding nodes infos if_P [OF dropped] .
    next
      case long
      show ?thesis unfolding nodes infos if_not_P [OF long(1)] if_not_P [OF long(2)] by simp
    next
      case added
      from less.hyps [OF smaller filled_holds [OF less.prems, of ?i], of a p] show ?thesis
        unfolding nodes infos if_not_P [OF added(1)] if_P [OF added(2)] more .
    qed
  qed
qed

text \<open>Setting a node's flag leaves the list behind it as it is.\<close>

lemma flag_keeps:
  assumes "segment h b nodes c" "open_end h c" "b < length h" "n_info (h ! b) = Some info"
  shows "segment (h[b := (h ! b)\<lparr>n_info := x\<rparr>]) b nodes c" "open_end (h[b := (h ! b)\<lparr>n_info := x\<rparr>]) c"
proof -
  have next_same: "n_next (h[b := (h ! b)\<lparr>n_info := x\<rparr>] ! y) = n_next (h ! y)" for y
    by (cases "y = b"; cases "b < length h") (simp_all add: not_less list_update_beyond)
  have same: "h[b := (h ! b)\<lparr>n_info := x\<rparr>] ! y = h ! y" if "y \<noteq> b" for y using that by simp
  have "segment h b is c \<Longrightarrow> segment (h[b := (h ! b)\<lparr>n_info := x\<rparr>]) b is c" for "is"
  proof -
    have later: "segment h a is' c \<Longrightarrow> b < a \<Longrightarrow> segment (h[b := (h ! b)\<lparr>n_info := x\<rparr>]) a is' c" for a is'
      using next_same same by (induction is' arbitrary: a) auto
    show "segment h b is c \<Longrightarrow> segment (h[b := (h ! b)\<lparr>n_info := x\<rparr>]) b is c"
      using next_same same later by (cases "is") auto
  qed
  with assms(1) show "segment (h[b := (h ! b)\<lparr>n_info := x\<rparr>]) b nodes c" by blast
  have "b \<le> c" by (rule segment_le [OF assms(1)])
  moreover have "y \<noteq> b" if "c < y" for y using that \<open>b \<le> c\<close> by simp
  ultimately show "open_end (h[b := (h ! b)\<lparr>n_info := x\<rparr>]) c"
    using assms(2) next_same same unfolding open_end_def by auto
qed

lemma connect_nodes_list:
  "segment h a infos c \<Longrightarrow> open_end h c \<Longrightarrow> a < length h \<Longrightarrow>
    (case connect_loop inet_addr fds conn infos k n of
       Inl e \<Rightarrow> connect_nodes inet_addr fds conn a k n h = Inl e
     | Inr (xs, v) \<Rightarrow> \<exists>h'. connect_nodes inet_addr fds conn a k n h = Ok (xs, v, h'))"
proof (induction infos arbitrary: a k n h)
  case Nil
  then have "n_next (h ! a) = Unset \<or> (\<exists>b. n_next (h ! a) = Node b \<and> n_info (h ! b) = None)"
    by (auto simp: open_end_def new_node_def)
  then show ?case by (auto simp: connect_nodes.simps [of inet_addr fds conn a k n h] node_info_def)
next
  case (Cons info infos)
  then obtain b where b: "n_next (h ! a) = Node b" "b < length h" "n_info (h ! b) = Some info" "segment h b infos c" by auto
  show ?case
  proof (cases "k < MAX_SOCK_SIZE \<and> 0 < n")
    case False
    then show ?thesis by (auto simp: connect_nodes.simps [of inet_addr fds conn a k n h])
  next
    case True
    show ?thesis
    proof (cases "build_connection inet_addr (fds k) (conn k) info")
      case (Inl e)
      with True b show ?thesis by (simp add: connect_nodes.simps [of inet_addr fds conn a k n h] node_info_def)
    next
      case (Inr r)
      obtain addr sock where r: "build_connection inet_addr (fds k) (conn k) info = Ok (addr, sock)" using Inr by (cases r) auto
      let ?h = "if 0 \<le> sock then h[b := (h ! b)\<lparr>n_info := Some (info\<lparr>si_valid_flag := 1\<rparr>)\<rparr>] else h"
      have "segment ?h b infos c" "open_end ?h c" "b < length ?h"
        using flag_keeps [OF b(4) Cons.prems(2) b(2,3)] b(2,4) Cons.prems(2) by simp_all
      from Cons.IH [OF this, of "k + 1" "if 0 \<le> sock then n - 1 else n"] True b r show ?thesis
        by (auto simp: connect_nodes.simps [of inet_addr fds conn a k n h] node_info_def Let_def
            split: sum.splits prod.splits)
    qed
  qed
qed

text \<open>Freeing: what is not freed yet is the list behind \<open>a\<close>.\<close>

lemma clean_from_list:
  "segment h a infos c \<Longrightarrow> open_end h c \<Longrightarrow> a < length h \<Longrightarrow> length g = length h \<Longrightarrow>
    \<forall>x < length h. a \<le> x \<longrightarrow> g ! x = Some (h ! x) \<Longrightarrow> clean_from (Node a) g = ub Uninitialised"
proof (induction infos arbitrary: a g)
  case Nil
  then have "n_next (h ! a) = Unset \<or> (\<exists>b. n_next (h ! a) = Node b \<and> a < b \<and> b < length h \<and> h ! b = new_node)"
    by (simp add: open_end_def)
  with Nil show ?case
    by (auto simp: clean_from.simps [of "Node _"] clean_from.simps [of Unset] new_node_def)
next
  case (Cons info infos)
  then obtain b where b: "n_next (h ! a) = Node b" "a < b" "b < length h" "segment h b infos c" by auto
  have "clean_from (Node b) (g[a := None]) = ub Uninitialised"
    using Cons.prems(2,4,5) b by (intro Cons.IH) auto
  with Cons.prems(3-5) b(1) show ?case by (simp add: clean_from.simps [of "Node a"])
qed

text \<open>The connection loop changes entries only, and only of nodes that have one.\<close>

definition same_shape :: "node list \<Rightarrow> node list \<Rightarrow> bool" where
  "same_shape h h' \<longleftrightarrow> length h' = length h
    \<and> (\<forall>x < length h. n_next (h' ! x) = n_next (h ! x) \<and> (n_info (h' ! x) = None \<longleftrightarrow> n_info (h ! x) = None))"

lemma same_shape_trans: "same_shape h h1 \<Longrightarrow> same_shape h1 h2 \<Longrightarrow> same_shape h h2"
  by (simp add: same_shape_def)

lemma segment_shape: "same_shape h h' \<Longrightarrow> segment h a infos c \<Longrightarrow> a < length h \<Longrightarrow> \<exists>infos'. segment h' a infos' c"
proof (induction infos arbitrary: a)
  case Nil
  then show ?case by (intro exI [of _ "[]"]) simp
next
  case (Cons i "is")
  then obtain b where b: "n_next (h ! a) = Node b" "a < b" "b < length h" "n_info (h ! b) = Some i" "segment h b is c" by auto
  obtain is' where "segment h' b is' c" using Cons.IH [OF Cons.prems(1) b(5,3)] by blast
  moreover have "n_info (h' ! b) \<noteq> None" "n_next (h' ! a) = Node b" "length h' = length h"
    using Cons.prems(1,3) b by (auto simp: same_shape_def)
  then obtain i' where "n_info (h' ! b) = Some i'" by blast
  ultimately have "segment h' a (i' # is') c" using b \<open>n_next (h' ! a) = Node b\<close> \<open>length h' = length h\<close> by simp
  then show ?case by blast
qed

lemma open_end_shape: "same_shape h h' \<Longrightarrow> open_end h c \<Longrightarrow> c < length h \<Longrightarrow> open_end h' c"
  by (auto simp: same_shape_def open_end_def new_node_def intro!: node.equality)

lemma segment_bound: "segment h a infos c \<Longrightarrow> a < length h \<Longrightarrow> c < length h"
  by (induction infos arbitrary: a) auto

lemma connect_nodes_shape:
  "connect_nodes inet_addr fds conn a k n h = Ok (xs, v, h') \<Longrightarrow> same_shape h h'"
proof (induction inet_addr fds conn a k n h arbitrary: xs v h' rule: connect_nodes.induct)
  case (1 inet_addr fds conn a k n h)
  note unfold = connect_nodes.simps [of inet_addr fds conn a k n h]
  show ?case
  proof (cases "k < MAX_SOCK_SIZE \<and> 0 < n")
    case True
    with 1(2) obtain b info addr sock xs' v' where b: "n_next (h ! a) = Node b" "n_info (h ! b) = Some info"
      "build_connection inet_addr (fds k) (conn k) info = Ok (addr, sock)"
      "connect_nodes inet_addr fds conn b (k + 1) (if 0 \<le> sock then n - 1 else n)
         (if 0 \<le> sock then h[b := (h ! b)\<lparr>n_info := Some (info\<lparr>si_valid_flag := 1\<rparr>)\<rparr>] else h) = Ok (xs', v', h')"
      unfolding unfold by (auto simp: res_simps node_info_def Let_def split: next_ptr.splits option.splits)
    let ?h = "if 0 \<le> sock then h[b := (h ! b)\<lparr>n_info := Some (info\<lparr>si_valid_flag := 1\<rparr>)\<rparr>] else h"
    have "n_next (?h ! x) = n_next (h ! x) \<and> (n_info (?h ! x) = None \<longleftrightarrow> n_info (h ! x) = None)" if "x < length h" for x
      using b(2) that by (cases "x = b") simp_all
    then have "same_shape h ?h" by (simp add: same_shape_def)
    moreover have "same_shape ?h h'"
      by (rule 1(1) [OF True b(1) _ b(3) refl refl refl b(4)]) (simp add: node_info_def b(2))
    ultimately show ?thesis by (rule same_shape_trans)
  next
    case False
    with 1(2) show ?thesis unfolding unfold by (auto simp: same_shape_def)
  qed
qed

lemma cleaning_stops:
  assumes "read_server_nodes fopen info addr0 port0 = Ok (h, n)" "connect_nodes inet_addr fds conn 0 0 c h = Ok (xs, v, h')"
  shows "clean_server_info h' = ub Uninitialised"
proof -
  have start: "holds_list [new_node\<lparr>n_info := Some info_head\<rparr>] [] 0"
    by (simp add: holds_list_def open_end_def new_node_def)
  obtain input where input: "fopen info = Some input" "read_nodes input False addr0 port0 0 0 [new_node\<lparr>n_info := Some info_head\<rparr>] = Ok (h, n)"
    using assms(1) by (auto simp: read_server_nodes_def Let_def failHandler_def split: option.splits)
  from read_nodes_list [OF start, of input False addr0 port0] input(2) obtain nodes b where l: "holds_list h nodes b"
    by (auto split: sum.splits)
  have shape: "same_shape h h'" by (rule connect_nodes_shape [OF assms(2)])
  have h: "segment h 0 nodes b" "open_end h b" "b < length h" "0 < length h" using l by (auto simp: holds_list_def)
  obtain nodes' where "segment h' 0 nodes' b" using segment_shape [OF shape h(1,4)] by blast
  moreover have "open_end h' b" by (rule open_end_shape [OF shape h(2,3)])
  moreover have "0 < length h'" using shape h(4) by (simp add: same_shape_def)
  ultimately show ?thesis unfolding clean_server_info_def by (intro clean_from_list [of h' 0 nodes' b]) auto
qed

text \<open>The client never returns from \<open>main\<close>, with the file or without.\<close>

lemma tcp_client_never_returns:
  assumes "read_server_nodes fopen info addr0 port0 = Ok (h, n)" "connect_nodes inet_addr fds conn 0 0 c h = Ok (xs, v, h')"
  shows "tcp_client_finish found ended can_open parts v h' =
    (if found \<and> \<not> list_all id ended then Ok None
     else case (if found then combine_file can_open parts v else Ok []) of Inl e \<Rightarrow> Inl e | Inr _ \<Rightarrow> ub Uninitialised)"
  using cleaning_stops [OF assms] by (simp add: tcp_client_finish_def download_finish_def split: sum.splits)

section \<open>Properties\<close>

text \<open>
  Property C31.  The list in memory is the list of the model: for every file \<open>read_server_info\<close> stops
  where the model's loop does, or leaves linked nodes over which the connection loop of \<open>main\<close> makes
  the attempts, and gets the descriptors and the number of connections, that the loop over the model's
  list gives, or stops where it does.
\<close>

theorem server_list_in_memory:
  "case read_server_info fopen info addr0 port0 of
     Inl e \<Rightarrow> read_server_nodes fopen info addr0 port0 = Inl e
   | Inr (infos, m) \<Rightarrow> \<exists>h. read_server_nodes fopen info addr0 port0 = Ok (h, m)
       \<and> (case connect_loop inet_addr fds conn infos 0 c of
            Inl e \<Rightarrow> connect_nodes inet_addr fds conn 0 0 c h = Inl e
          | Inr (xs, v) \<Rightarrow> \<exists>h'. connect_nodes inet_addr fds conn 0 0 c h = Ok (xs, v, h'))"
proof (cases "fopen info")
  case (Some input)
  let ?h = "[new_node\<lparr>n_info := Some info_head\<rparr>]"
  have start: "holds_list ?h [] 0" by (simp add: holds_list_def open_end_def new_node_def)
  from read_nodes_list [OF start, of input False addr0 port0]
  have r: "case read_infos input False addr0 port0 info_head [] of Inl e \<Rightarrow> read_nodes input False addr0 port0 0 0 ?h = Inl e
    | Inr nodes \<Rightarrow> \<exists>h b. read_nodes input False addr0 port0 0 0 ?h = Ok (h, int (length nodes)) \<and> holds_list h nodes b" by (simp split: sum.splits)
  show ?thesis
  proof (cases "read_infos input False addr0 port0 info_head []")
    case (Inl e)
    with r Some show ?thesis by (simp add: read_server_info_def read_server_nodes_def)
  next
    case (Inr nodes)
    with r obtain h b where h: "read_nodes input False addr0 port0 0 0 ?h = Ok (h, int (length nodes))" "holds_list h nodes b" by auto
    then have "segment h 0 nodes b" "open_end h b" "0 < length h" by (auto simp: holds_list_def)
    from connect_nodes_list [OF this] Inr Some h(1) show ?thesis by (simp add: read_server_info_def read_server_nodes_def)
  qed
qed (simp add: read_server_info_def read_server_nodes_def failHandler_def)

text \<open>
  Property C32.  The end of \<open>main\<close>: whatever servers the file names and whichever of them are reached,
  \<open>clean_server_info\<close> frees the list and then follows the pointer of its last node, which no
  assignment has set.
\<close>

theorem cleaning_follows_unset_pointer:
  assumes "read_server_nodes fopen info addr0 port0 = Ok (h, n)" "connect_nodes inet_addr fds conn 0 0 c h = Ok (xs, v, h')"
  shows "clean_server_info h' = ub Uninitialised"
  by (rule cleaning_stops [OF assms])

theorem cleaning_follows_unset_pointer_witness:
  "\<exists>h n xs v h'. read_server_nodes (\<lambda>_. Some sample_info_text) ''info'' [] [] = Ok (h, n)
    \<and> connect_nodes (\<lambda>_. 1) (\<lambda>k. int k + 3) sample_conn 0 0 1 h = Ok (xs, v, h') \<and> v = 1
    \<and> clean_server_info h' = ub Uninitialised"
proof -
  have run: "case read_server_nodes (\<lambda>_. Some sample_info_text) ''info'' [] [] of
      Inl _ \<Rightarrow> False
    | Inr (h, n) \<Rightarrow> (case connect_nodes (\<lambda>_. 1) (\<lambda>k. int k + 3) sample_conn 0 0 1 h of
        Inl _ \<Rightarrow> False | Inr (xs, v, h') \<Rightarrow> v = 1)" by code_simp
  then obtain h n xs v h' where r: "read_server_nodes (\<lambda>_. Some sample_info_text) ''info'' [] [] = Ok (h, n)"
    "connect_nodes (\<lambda>_. 1) (\<lambda>k. int k + 3) sample_conn 0 0 1 h = Ok (xs, v, h')" "v = 1"
    by (auto split: sum.splits prod.splits)
  from cleaning_follows_unset_pointer [OF r(1,2)] r show ?thesis by blast
qed

end
