(* ===== verification/Hw5_Proxy.thy ===== *)
theory Hw5_Proxy
  imports Hw4_Spec
begin

text \<open>
  \<^verbatim>\<open>hw5/proxy.c\<close> and \<^verbatim>\<open>hw5/dynamicarray.c\<close>: the HTTP proxy's list of forbidden
  sites, the parsing of a request, the decision what to do with it, the forwarding and the relay
  of the response.  Addresses, the date and the results of the network calls are parameters.
\<close>

section \<open>The forbidden sites\<close>

record forbidden_sites_t =
  sitesArray :: "string option list"
  st_occupied :: int

definition initSitesArray :: forbidden_sites_t where
  "initSitesArray = \<lparr>sitesArray = [None], st_occupied = 0\<rparr>"

definition addSiteItem :: "forbidden_sites_t \<Rightarrow> string \<Rightarrow> forbidden_sites_t res" where
  "addSiteItem a n =
    (let arr = realloc (sitesArray a) (nat (st_occupied a + 1))
     in res_bind (cstore 128 n) (\<lambda>item.
        res_bind (poke arr (st_occupied a) (Some item)) (\<lambda>arr'.
          Ok \<lparr>sitesArray = arr', st_occupied = st_occupied a + 1\<rparr>)))"

definition getSiteItem :: "forbidden_sites_t \<Rightarrow> int \<Rightarrow> string option res" where
  "getSiteItem a idx = (if st_occupied a \<le> idx then Ok None else peek (sitesArray a) idx)"

definition sites_wf :: "forbidden_sites_t \<Rightarrow> bool" where
  "sites_wf a \<longleftrightarrow> filled (sitesArray a) (st_occupied a)"

definition site_names :: "forbidden_sites_t \<Rightarrow> string list" where
  "site_names a = live (sitesArray a) (st_occupied a)"

lemma initSitesArray_wf: "sites_wf initSitesArray" "site_names initSitesArray = []"
  by (simp_all add: sites_wf_def site_names_def initSitesArray_def)

lemma sites_count: "sites_wf a \<Longrightarrow> st_occupied a = int (length (site_names a))"
  by (simp add: sites_wf_def site_names_def int_length_live)

lemma realloc_live:
  assumes "filled xs n" "n \<le> int k"
  shows "filled (realloc xs k) n" "live (realloc xs k) n = live xs n"
proof -
  have "take (nat n) (realloc xs k) = take (nat n) xs"
    using assms take_realloc [of "nat n" k xs] by (simp add: filled_def nat_le_iff)
  then show "filled (realloc xs k) n" "live (realloc xs k) n = live xs n"
    using assms by (simp_all add: filled_def live_def)
qed

lemma addSiteItem_spec:
  assumes "sites_wf a" "length n < 128"
  shows "\<exists>a'. addSiteItem a n = Ok a' \<and> sites_wf a' \<and> site_names a' = site_names a @ [n]"
proof -
  let ?arr = "realloc (sitesArray a) (nat (st_occupied a + 1))"
  have f: "filled (sitesArray a) (st_occupied a)" using assms(1) by (simp add: sites_wf_def)
  then have k: "st_occupied a \<le> int (nat (st_occupied a + 1))" "st_occupied a < int (length ?arr)"
    by (simp_all add: filled_def)
  obtain ys where "poke ?arr (st_occupied a) (Some n) = Ok ys" "filled ys (st_occupied a + 1)"
    "live ys (st_occupied a + 1) = live (sitesArray a) (st_occupied a) @ [n]"
    using poke_append [OF realloc_live(1) [OF f k(1)] k(2), of n] realloc_live(2) [OF f k(1)] by auto
  with assms(2) show ?thesis
    by (simp add: addSiteItem_def cstore_def sites_wf_def site_names_def)
qed

lemma getSiteItem_in:
  assumes "sites_wf a" "0 \<le> i" "i < int (length (site_names a))"
  shows "getSiteItem a i = Ok (Some (site_names a ! nat i))"
proof -
  from assms(3) sites_count [OF assms(1)] have "i < st_occupied a" by simp
  with assms(1,2) peek_live [of "sitesArray a" "st_occupied a" i] show ?thesis
    by (simp add: getSiteItem_def sites_wf_def site_names_def)
qed

interpretation sites_array: append_array sites_wf site_names "\<lambda>_ n. length n < 128" addSiteItem
  by unfold_locales (rule addSiteItem_spec)

interpretation sites_index: indexed_array sites_wf site_names "\<lambda>_ n. length n < 128" addSiteItem getSiteItem
  by unfold_locales (simp add: getSiteItem_in)

lemma scan_word_rest: "(w, r) = scan_word s \<Longrightarrow> w \<noteq> [] \<Longrightarrow> length r < length s"
  using scan_word_shorter [of s] by (cases w; cases "scan_word s") auto

text \<open>
  Loading the file; \<open>url\<close> is the array of 128 bytes, whose first contents the code does not set.  At
  the end of the file the last word is still in it and is added once more.
\<close>

function load_sites :: "string \<Rightarrow> string \<Rightarrow> forbidden_sites_t \<Rightarrow> forbidden_sites_t res" where
  "load_sites text url a =
    (case scan_word text of (w, rest) \<Rightarrow>
       if w = [] then addSiteItem a url
       else res_bind (cstore 128 w) (\<lambda>url'. res_bind (addSiteItem a url') (\<lambda>a'.
            if rest = [] then Ok a' else load_sites rest url' a')))"
  by pat_completeness auto
termination
  by (relation "measure (\<lambda>(text, url, a). length text)") (auto dest: scan_word_rest)

declare load_sites.simps [simp del]

text \<open>The loop that looks for the host among the sites.\<close>

function is_forbidden_from :: "forbidden_sites_t \<Rightarrow> string \<Rightarrow> int \<Rightarrow> bool res" where
  "is_forbidden_from a host i =
    (if i < st_occupied a
     then res_bind (getSiteItem a i) (\<lambda>p. res_bind (deref p) (\<lambda>site.
          if host = site then Ok True else is_forbidden_from a host (i + 1)))
     else Ok False)"
  by pat_completeness auto
termination
  by (relation "measure (\<lambda>(a, host, i). nat (st_occupied a - i))") auto

declare is_forbidden_from.simps [simp del]

section \<open>Scanning words\<close>

text \<open>
  \<open>sscanf(text, "%s %s \<dots>", \<dots>)\<close> into arrays given by their sizes and their strings before: each word
  found must fit its array; from the first missing word on the strings stay as they were.
\<close>

fun scan_words :: "(nat \<times> string) list \<Rightarrow> string \<Rightarrow> string list res" where
  "scan_words [] text = Ok []"
| "scan_words ((cap, old) # vs) text =
    (case scan_word text of (w, rest) \<Rightarrow>
       if w = [] then Ok (old # map snd vs)
       else res_bind (cstore cap w) (\<lambda>w'. res_bind (scan_words vs rest) (\<lambda>ws. Ok (w' # ws))))"

section \<open>Parsing a request\<close>

definition REQUERST_SIZE :: nat where "REQUERST_SIZE = 2048"
definition TEMP_SIZE :: nat where "TEMP_SIZE = 32"
definition PROXY_BUFFER_SIZE :: nat where "PROXY_BUFFER_SIZE = 1024"

abbreviation CR :: char where "CR \<equiv> CHR 0x0D"
abbreviation LF :: char where "LF \<equiv> CHR 0x0A"

definition crlf :: string where "crlf = [CR, LF]"

text \<open>
  The header loop over the text from the first carriage return on: the host, whether one was found,
  and whether the connection persists.
\<close>

fun scan_headers :: "string \<Rightarrow> string \<times> bool \<times> bool \<Rightarrow> (string \<times> bool \<times> bool) res" where
  "scan_headers [] st = Ok st"
| "scan_headers (c # s) st =
    (if c = CR
     then res_bind (scan_words [(TEMP_SIZE, []), (TEMP_SIZE, [])] (c # s)) (\<lambda>ws.
          case st of (host, found, persistent) \<Rightarrow>
            let cmd1 = ws ! 0; cmd2 = ws ! 1
            in res_bind (if cmd1 = ''Host:'' then res_bind (cstore 128 cmd2) (\<lambda>h. Ok (h, True)) else Ok (host, found))
                 (\<lambda>(host', found').
                   scan_headers s (host', found',
                     persistent \<or> (cmd1 = ''Proxy-Connection:'' \<and> cmd2 = ''Keep-Alive''))))
     else scan_headers s st)"

section \<open>The decision\<close>

datatype proxy_action =
    Log string                       \<comment> \<open>the line added to the log\<close>
  | Open_host string
  | Send_host int "char list"
  | Send_client "char list"

text \<open>
  The results of the calls made for one request: the client's address, the addresses \<open>gethostbyname\<close>
  finds for the proxy's own name, the date of an error page, the time
  and what \<open>strftime\<close> makes of its seconds, whether the log opens, the host's lookup, \<open>socket\<close>, \<open>connect\<close> and \<open>write\<close>, the reads of the response
  and the writes of its blocks.
\<close>

record proxy_env =
  pe_client_ip :: string
  pe_local :: "string list option"
  pe_date :: string
  pe_sec :: int
  pe_usec :: int
  pe_strftime :: "int \<Rightarrow> string"
  pe_log :: bool
  pe_resolves :: "string \<Rightarrow> bool"
  pe_socket :: int
  pe_connect :: int
  pe_write :: int
  pe_response :: "char list list"
  pe_relay :: "nat \<Rightarrow> int"

text \<open>
  What a connection keeps between requests: the host's socket, the text to insert and the response
  code, which is not initialised before the first response.
\<close>

record proxy_state =
  host_sock :: int
  forwardstr :: string
  log_responsecode :: "string option"

definition init_proxy_state :: proxy_state where
  "init_proxy_state = \<lparr>host_sock = - 8, forwardstr = [], log_responsecode = None\<rparr>"

section \<open>Addresses\<close>

text \<open>
  The proxy's own address, the first of the list \<open>gethostbyname\<close> returns for it; neither NULL nor
  an empty list is tested for.
\<close>

definition getlocalIP :: "string list option \<Rightarrow> string res" where
  "getlocalIP host = res_bind (deref host) (\<lambda>addrs. case addrs of [] \<Rightarrow> ub Null_Pointer | a # _ \<Rightarrow> Ok a)"

text \<open>The address of the other end of a socket, if \<open>getpeername\<close> finds one.\<close>

definition getclientIP :: "(int \<Rightarrow> string option) \<Rightarrow> int \<Rightarrow> string res" where
  "getclientIP getpeername sock =
    (case getpeername sock of None \<Rightarrow> failHandler ''create socket error!'' | Some a \<Rightarrow> Ok a)"

section \<open>The log\<close>

text \<open>\<open>lrint(tv_usec/1000.0)\<close>: the nearest integer, the even one of two.\<close>

definition log_millisec :: "int \<Rightarrow> int" where
  "log_millisec usec =
    (let q = usec div 1000; r = usec mod 1000
     in if r < 500 \<or> (r = 500 \<and> even q) then q else q + 1)"

text \<open>\<open>sprintf\<close> with \<open>%03d\<close> for a number that is not negative.\<close>

definition show_int3 :: "int \<Rightarrow> string" where
  "show_int3 n = replicate (3 - length (show_int n)) CHR ''0'' @ show_int n"

text \<open>The text stored in the array \<open>date\<close> of 26 bytes.\<close>

definition generateLogTime :: "(int \<Rightarrow> string) \<Rightarrow> int \<Rightarrow> int \<Rightarrow> string res" where
  "generateLogTime strftime sec usec =
    (let millisec = log_millisec usec;
         (sec', millisec') = (if 1000 \<le> millisec then (sec + 1, millisec - 1000) else (sec, millisec))
     in cstore 26 (strftime sec' @ ''.'' @ show_int3 millisec' @ ''Z''))"

definition log_line :: "string \<Rightarrow> string \<Rightarrow> string \<Rightarrow> string \<Rightarrow> int \<Rightarrow> string" where
  "log_line date client_ip firstline code len =
    date @ '' '' @ client_ip @ '' \"'' @ firstline @ ''\" '' @ code @ '' '' @ show_int len @ [LF]"

definition remotelog :: "proxy_env \<Rightarrow> string \<Rightarrow> string \<Rightarrow> int \<Rightarrow> proxy_action list res" where
  "remotelog e firstline code len =
    res_bind (generateLogTime (pe_strftime e) (pe_sec e) (pe_usec e)) (\<lambda>date.
      if pe_log e then Ok [Log (log_line date (pe_client_ip e) firstline code len)]
      else failHandler ''open file error!'')"

section \<open>The error page\<close>

definition error_message :: "int \<Rightarrow> string" where
  "error_message code =
    (if code = 403 then ''Forbidden''
     else if code = 501 then ''Not Implemented''
     else if code = 400 then ''Bad Request''
     else if code = 405 then ''Method Not Allowed''
     else ''Bad Request'')"

definition error_text :: "string \<Rightarrow> int \<Rightarrow> string \<Rightarrow> string" where
  "error_text date code httpversion =
    (let msg = error_message code
     in httpversion @ '' '' @ show_int code @ '' '' @ msg @ crlf
        @ ''Content-Type: text/html; charset=UTF-8'' @ crlf @ ''Connection: close'' @ crlf @ ''Date: '' @ date @ crlf @ crlf
        @ ''<!DOCTYPE html>'' @ [LF] @ ''<html>'' @ [LF] @ ''<title>'' @ show_int code @ '' '' @ msg @ ''</title>'' @ [LF]
        @ ''<p>'' @ show_int code @ '' '' @ msg @ ''</p>'' @ [LF] @ ''</html>'' @ [LF])"

definition proxyResponseError :: "string \<Rightarrow> int \<Rightarrow> string \<Rightarrow> proxy_action list res" where
  "proxyResponseError date code httpversion =
    res_bind (cstore PROXY_BUFFER_SIZE (error_text date code httpversion)) (\<lambda>s.
      Ok [Send_client (zbuf PROXY_BUFFER_SIZE s)])"

text \<open>The two calls made for every refused request.\<close>

definition refuse :: "proxy_env \<Rightarrow> string \<Rightarrow> int \<Rightarrow> string \<Rightarrow> proxy_action list res" where
  "refuse e firstline code version =
    res_bind (remotelog e firstline (show_int code) 0) (\<lambda>o1.
    res_bind (proxyResponseError (pe_date e) code version) (\<lambda>o2. Ok (o1 @ o2)))"

section \<open>Relaying the response\<close>

fun find_length :: "string \<Rightarrow> string \<Rightarrow> string \<Rightarrow> int option res" where
  "find_length [] cmd1 cmd2 = Ok None"
| "find_length (c # s) cmd1 cmd2 =
    (if c = CR
     then res_bind (scan_words [(TEMP_SIZE, cmd1), (TEMP_SIZE, cmd2)] (c # s)) (\<lambda>ws.
          if ws ! 0 = ''Content-Length:'' then Ok (Some (atol (ws ! 1)))
          else find_length s (ws ! 0) (ws ! 1))
     else find_length s cmd1 cmd2)"

text \<open>
  The reads after the first one, with \<open>k\<close> the number of the next write: the length counted, what
  is written, and whether the loop ended without a failed write.
\<close>

fun relay_rest ::
    "(nat \<Rightarrow> int) \<Rightarrow> nat \<Rightarrow> bool \<Rightarrow> int \<Rightarrow> char list list \<Rightarrow> (int \<times> proxy_action list \<times> bool) res" where
  "relay_rest sent k has_length n [] = Ok (n, [], True)"
| "relay_rest sent k has_length n (chunk # chunks) =
    (if chunk = [] then Ok (n, [], True)
     else res_bind
       (if has_length then Ok n
        else res_bind (cstr (zbuf PROXY_BUFFER_SIZE chunk)) (\<lambda>t. Ok (n + int (length t))))
       (\<lambda>n'. if sent k < 0 then Ok (n', [], False)
             else res_bind (relay_rest sent (k + 1) has_length n' chunks) (\<lambda>(m, acts, ended).
               Ok (m, Send_client (zbuf PROXY_BUFFER_SIZE chunk) # acts, ended))))"

text \<open>
  The whole loop over the reads up to the first that returns nothing: the response code of the last response, what is logged and written, and whether
  no write failed.
\<close>

definition relay ::
    "proxy_env \<Rightarrow> string \<Rightarrow> string option \<Rightarrow> (string option \<times> proxy_action list \<times> bool) res" where
  "relay e firstline code0 =
    (case takeWhile (\<lambda>c. c \<noteq> []) (pe_response e) of
       [] \<Rightarrow> res_bind (case code0 of None \<Rightarrow> ub Uninitialised | Some c \<Rightarrow> remotelog e firstline c 0)
               (\<lambda>o1. Ok (code0, o1, True))
     | chunk # rest \<Rightarrow>
         res_bind (cstr (zbuf PROXY_BUFFER_SIZE chunk)) (\<lambda>text.
         res_bind (scan_words [(TEMP_SIZE, []), (8, []), (TEMP_SIZE, [])] text) (\<lambda>ws.
         res_bind (find_length text [] []) (\<lambda>len.
           case len of
             Some n \<Rightarrow>
               res_bind (remotelog e firstline (ws ! 1) n) (\<lambda>o1.
               res_bind (relay_rest (pe_relay e) 0 True n (chunk # rest)) (\<lambda>(m, o2, ended).
                 Ok (Some (ws ! 1), o1 @ o2, ended)))
           | None \<Rightarrow>
               res_bind (deref (strstr text (crlf @ crlf))) (\<lambda>t.
               if pe_relay e 0 < 0 then Ok (Some (ws ! 1), [], False)
               else res_bind (relay_rest (pe_relay e) 1 False (int (length t) - 4) rest) (\<lambda>(m, o2, ended).
                 res_bind (if ended then remotelog e firstline (ws ! 1) m else Ok []) (\<lambda>o3.
                   Ok (Some (ws ! 1), Send_client (zbuf PROXY_BUFFER_SIZE chunk) # o2 @ o3, ended))))))))"

section \<open>One request\<close>

definition forward_text :: "string \<Rightarrow> string \<Rightarrow> string" where
  "forward_text client_ip proxy_ip =
    ''Forwarded: for='' @ client_ip @ ''; proto=http; by='' @ proxy_ip @ crlf @ crlf"

text \<open>
  The part behind the filter: connecting, unless the connection has a host already, inserting the
  text in front of the last two characters, writing the whole buffer, relaying the response.  The
  Boolean says whether the connection goes on.
\<close>

definition forward_request ::
    "proxy_env \<Rightarrow> string \<Rightarrow> string \<Rightarrow> string \<Rightarrow> string \<Rightarrow> bool \<Rightarrow> proxy_state \<Rightarrow>
      (proxy_state \<times> proxy_action list \<times> bool) res" where
  "forward_request e full_buf firstline version host persistent s =
    res_bind
      (if host_sock s < 0
       then res_bind (getlocalIP (pe_local e)) (\<lambda>proxy_ip.
            res_bind (cstore 128 (forward_text (pe_client_ip e) proxy_ip)) (\<lambda>f.
            if \<not> pe_resolves e host
            then res_bind (refuse e firstline 400 version) (\<lambda>o1. Ok (s\<lparr>forwardstr := f\<rparr>, o1, False))
            else if pe_socket e < 0 then failHandler ''create socket error!''
            else if pe_connect e < 0 then failHandler ''connect host socket error!''
            else Ok (s\<lparr>host_sock := pe_socket e, forwardstr := f\<rparr>, [Open_host host], True)))
       else Ok (s, [], True))
      (\<lambda>(s1, o1, ready).
        if \<not> ready then Ok (s1, o1, True)
        else res_bind (cstore REQUERST_SIZE (take (length full_buf - 2) full_buf @ forwardstr s1)) (\<lambda>buf.
          if pe_write e < 0 then Ok (s1, o1, False)
          else res_bind (relay e firstline (log_responsecode s1)) (\<lambda>(code, o2, ended).
            Ok (s1\<lparr>log_responsecode := code\<rparr>,
                o1 @ Send_host (host_sock s1) (zbuf REQUERST_SIZE buf) # o2, ended \<and> persistent))))"

definition handle_request ::
    "proxy_env \<Rightarrow> forbidden_sites_t \<Rightarrow> string \<Rightarrow> proxy_state \<Rightarrow> (proxy_state \<times> proxy_action list \<times> bool) res" where
  "handle_request e sites full_buf s =
    (let retn = length (takeWhile (\<lambda>c. c \<noteq> CR) full_buf)
     in res_bind (if retn < length full_buf then strncpy_zeroed 128 full_buf retn else Ok []) (\<lambda>firstline.
        res_bind (scan_words [(TEMP_SIZE, []), (TEMP_SIZE, []), (TEMP_SIZE, [])] full_buf) (\<lambda>ws.
        let cmd1 = ws ! 0; version = ws ! 2;
            refused = (\<lambda>code goes_on. res_bind (refuse e firstline code version) (\<lambda>acts. Ok (s, acts, goes_on)))
        in if cmd1 \<noteq> ''GET'' \<and> cmd1 \<noteq> ''HEAD'' then refused 501 True
           else if version \<noteq> ''HTTP/1.1'' \<and> version \<noteq> ''HTTP/1.0'' then refused 400 True
           else res_bind (scan_headers (drop retn full_buf) ([], False, version = ''HTTP/1.1''))
             (\<lambda>(host, found, persistent).
               if \<not> found then refused 400 True
               else res_bind (is_forbidden_from sites host 0) (\<lambda>bad.
                 if bad then refused 403 False
                 else forward_request e full_buf firstline version host persistent s)))))"

text \<open>
  The reading loop of \<open>thread_proxy\<close>: bytes gather in \<open>full_buf\<close> until an empty line is in it;
  \<open>es\<close> are the results of the calls for the requests in turn.
\<close>

fun thread_proxy ::
    "forbidden_sites_t \<Rightarrow> (nat \<Rightarrow> proxy_env) \<Rightarrow> nat \<Rightarrow> string \<Rightarrow> char list list \<Rightarrow> proxy_state \<Rightarrow>
      (proxy_state \<times> proxy_action list) res" where
  "thread_proxy sites es k full_buf [] s = Ok (s, [])"
| "thread_proxy sites es k full_buf (chunk # chunks) s =
    (if chunk = [] then Ok (s, [])
     else res_bind (cstr (zbuf PROXY_BUFFER_SIZE chunk)) (\<lambda>text.
          res_bind (cstore REQUERST_SIZE (full_buf @ text)) (\<lambda>buf.
            if strstr buf (crlf @ crlf) = None then thread_proxy sites es k buf chunks s
            else res_bind (handle_request (es k) sites buf s) (\<lambda>(s1, o1, goes_on).
              if goes_on
              then res_bind (thread_proxy sites es (k + 1) [] chunks s1) (\<lambda>(s2, o2). Ok (s2, o1 @ o2))
              else Ok (s1, o1)))))"

definition proxy_checkParam :: "(string \<Rightarrow> int) \<Rightarrow> string list \<Rightarrow> unit res" where
  "proxy_checkParam access argv =
    (if length argv \<noteq> 3 then
       failHandler ''Please use client by correct input! usage: ./proxy <listen-port> <forbidden-sites-file>''
     else if isNumber (argv ! 1) = 0 then failHandler ''Please input correct port number!''
     else if hasFile access (argv ! 2) = 0 then failHandler ''forbidden-sites-file does not exist!''
     else Ok ())"

section \<open>Starting the proxy\<close>

text \<open>
  \<open>main\<close> up to its accept loop: the sites and the address it listens on, given the file and the
  results of \<open>socket\<close>, \<open>setsockopt\<close>, \<open>bind\<close> and \<open>listen\<close>; \<open>url0\<close> is what the
  array \<open>url\<close> holds at first.  A failed \<open>accept\<close> is ignored.
\<close>

definition proxy_start ::
    "(string \<Rightarrow> int) \<Rightarrow> (string \<Rightarrow> char list option) \<Rightarrow> string \<Rightarrow> string list \<Rightarrow> int \<Rightarrow> int \<Rightarrow> int \<Rightarrow> int \<Rightarrow>
      (forbidden_sites_t \<times> sockaddr_in) res" where
  "proxy_start access fopen url0 argv proxy_sock opt bound listening =
    res_bind (proxy_checkParam access argv) (\<lambda>_.
      case fopen (argv ! 2) of
        None \<Rightarrow> failHandler ''open file error!''
      | Some content \<Rightarrow> res_bind (load_sites content url0 initSitesArray) (\<lambda>sites.
          if proxy_sock < 0 then failHandler ''create socket error!''
          else if opt < 0 then failHandler ''set socket error!''
          else if bound < 0 then failHandler ''bind socket error!''
          else if listening < 0 then failHandler ''listen socket error!''
          else Ok (sites, init_address INADDR_ANY (atoi (argv ! 1)))))"

definition proxy_accept :: "int \<Rightarrow> int \<Rightarrow> int option res" where
  "proxy_accept server_sock create_ret =
    (if server_sock < 0 then Ok None
     else if create_ret \<noteq> 0 then failHandler ''create thread error!''
     else Ok (Some server_sock))"

end
