(* ===== verification/Hw5_Spec.thy ===== *)
theory Hw5_Spec
  imports Hw5_Proxy
begin

text \<open>
  What the proxy does with a request: a form of the requests it can read, the decision it takes for
  each of them, what it sends to the host and to the client, which host a connection talks to, and
  the sites it forbids.
\<close>

section \<open>Requests\<close>

text \<open>
  A header is its name, the first word of its value and what follows on the line; words fit the
  arrays of 32 bytes they are scanned into.
\<close>

type_synonym header = "string \<times> string \<times> string"

definition short_word :: "string \<Rightarrow> bool" where
  "short_word w \<longleftrightarrow> w \<noteq> [] \<and> (\<forall>c \<in> set w. \<not> is_space c) \<and> no_nul w \<and> length w < 32"

fun header_ok :: "header \<Rightarrow> bool" where
  "header_ok (n, v, r) \<longleftrightarrow> short_word n \<and> short_word v \<and> CR \<notin> set r \<and> no_nul r \<and> (r = [] \<or> is_space (hd r))"

fun header_line :: "header \<Rightarrow> string" where
  "header_line (n, v, r) = n @ '' '' @ v @ r"

definition request_line :: "string \<Rightarrow> string \<Rightarrow> string \<Rightarrow> string" where
  "request_line m t v = m @ '' '' @ t @ '' '' @ v"

definition header_text :: "header list \<Rightarrow> string" where
  "header_text hs = concat (map (\<lambda>h. crlf @ header_line h) hs)"

definition http_request :: "string \<Rightarrow> string \<Rightarrow> string \<Rightarrow> header list \<Rightarrow> string" where
  "http_request m t v hs = request_line m t v @ header_text hs @ crlf @ crlf"

definition request_ok :: "string \<Rightarrow> string \<Rightarrow> string \<Rightarrow> header list \<Rightarrow> bool" where
  "request_ok m t v hs \<longleftrightarrow> short_word m \<and> short_word t \<and> short_word v \<and> list_all header_ok hs"

definition host_values :: "header list \<Rightarrow> string list" where
  "host_values hs = map (\<lambda>(n, v, r). v) (filter (\<lambda>(n, v, r). n = ''Host:'') hs)"

definition keep_alive :: "header list \<Rightarrow> bool" where
  "keep_alive hs = list_ex (\<lambda>(n, v, r). n = ''Proxy-Connection:'' \<and> v = ''Keep-Alive'') hs"

section \<open>Scanning a request\<close>

lemma short_wordD:
  "short_word w \<Longrightarrow> word_ok w" "short_word w \<Longrightarrow> no_nul w" "short_word w \<Longrightarrow> length w < TEMP_SIZE"
  "short_word w \<Longrightarrow> w \<noteq> []"
  by (auto simp: short_word_def word_ok_def TEMP_SIZE_def)

lemma short_word_no_CR: "short_word w \<Longrightarrow> CR \<notin> set w"
  by (auto simp: short_word_def is_space_def)

lemma spaces: "is_space CR" "is_space LF" "is_space CHR '' ''"
  by (simp_all add: is_space_def)

lemma scan_words_step:
  assumes "short_word w" "is_space c"
  shows "scan_words ((TEMP_SIZE, old) # vs) (w @ c # r) = res_bind (scan_words vs (c # r)) (\<lambda>ws. Ok (w # ws))"
  using scan_word_one [of w c r] short_wordD [OF assms(1)] assms(2) by (simp add: cstore_def)

lemma scan_words_space: "is_space c \<Longrightarrow> scan_words vs (c # r) = scan_words vs r"
  by (cases vs) (auto simp: scan_word_skip)

lemma scan_words_end: "\<forall>c \<in> set s. is_space c \<Longrightarrow> scan_words vs s = Ok (map snd vs)"
proof (cases vs)
  case (Cons p vs')
  assume "\<forall>c \<in> set s. is_space c"
  then have "dropWhile is_space s = []" by simp
  then have "scan_word s = ([], [])" by (simp add: scan_word_def Let_def del: dropWhile_eq_Nil_conv)
  with Cons show ?thesis by (cases p) simp
qed simp

lemma scan_header_words:
  assumes "header_ok (n, v, r)" "is_space c"
  shows "scan_words [(TEMP_SIZE, a), (TEMP_SIZE, b)] (CR # LF # header_line (n, v, r) @ c # x) = Ok [n, v]"
proof -
  have w: "short_word n" "short_word v" using assms(1) by simp_all
  have tail: "\<exists>d s. r @ c # x = d # s \<and> is_space d"
    using assms by (cases r) auto
  then obtain d s where ds: "r @ c # x = d # s" "is_space d" by blast
  have "scan_words [(TEMP_SIZE, a), (TEMP_SIZE, b)] (n @ CHR '' '' # v @ d # s) = Ok [n, v]"
    by (simp only: scan_words_step [OF w(1) spaces(3)] scan_words_step [OF w(2) ds(2)] scan_words_space [OF spaces(3)])
      simp
  with ds(1) show ?thesis by (simp add: scan_words_space spaces del: scan_words.simps)
qed

lemma scan_request_words:
  assumes "short_word m" "short_word t" "short_word v" "is_space c"
  shows "scan_words [(TEMP_SIZE, x), (TEMP_SIZE, y), (TEMP_SIZE, z)] (request_line m t v @ c # r) = Ok [m, t, v]"
proof -
  have "scan_words [(TEMP_SIZE, x), (TEMP_SIZE, y), (TEMP_SIZE, z)] (m @ CHR '' '' # t @ CHR '' '' # v @ c # r) = Ok [m, t, v]"
    by (simp only: scan_words_step [OF assms(1) spaces(3)] scan_words_step [OF assms(2) spaces(3)]
        scan_words_step [OF assms(3,4)] scan_words_space [OF spaces(3)]) simp
  then show ?thesis by (simp add: request_line_def)
qed

lemma scan_headers_skip: "CR \<notin> set s \<Longrightarrow> scan_headers (s @ x) st = scan_headers x st"
  by (induction s) auto

text \<open>What one header does to the scan's state.\<close>

fun note_header :: "header \<Rightarrow> string \<times> bool \<times> bool \<Rightarrow> string \<times> bool \<times> bool" where
  "note_header (n, v, r) (host, found, persistent) =
    (if n = ''Host:'' then v else host, n = ''Host:'' \<or> found,
     persistent \<or> (n = ''Proxy-Connection:'' \<and> v = ''Keep-Alive''))"

lemma scan_header_one:
  assumes "header_ok h" "is_space c"
  shows "scan_headers (crlf @ header_line h @ c # x) st = scan_headers (c # x) (note_header h st)"
proof -
  obtain n v r where h: "h = (n, v, r)" by (cases h)
  obtain host found persistent where st: "st = (host, found, persistent)" by (cases st)
  have "CR \<notin> set (LF # header_line h)"
    using assms(1) short_word_no_CR by (auto simp: h)
  then have skip: "scan_headers (LF # header_line h @ c # x) st' = scan_headers (c # x) st'" for st'
    using scan_headers_skip [of "LF # header_line h" "c # x" st'] by simp
  have v: "length v < 128" using assms(1) by (simp add: h short_word_def)
  have "scan_headers (CR # LF # header_line h @ c # x) st =
      scan_headers (LF # header_line h @ c # x) (note_header h st)"
    using scan_header_words [OF assms [unfolded h], of "[]" "[]" x] v
    by (subst scan_headers.simps(2)) (auto simp: h st cstore_def simp del: scan_words.simps header_line.simps scan_headers.simps)
  with skip show ?thesis by (simp add: crlf_def del: scan_headers.simps header_line.simps)
qed

lemma scan_headers_end: "scan_headers (crlf @ crlf) st = Ok st"
  by (cases st) (simp add: crlf_def scan_words_end is_space_def del: scan_words.simps)

lemma scan_headers_text:
  "list_all header_ok hs \<Longrightarrow> scan_headers (header_text hs @ crlf @ crlf) st = Ok (fold note_header hs st)"
proof (induction hs arbitrary: st)
  case Nil
  then show ?case using scan_headers_end by (simp add: header_text_def)
next
  case (Cons h hs)
  obtain x where x: "header_text hs @ crlf @ crlf = CR # x"
    by (cases hs) (auto simp: header_text_def crlf_def)
  with Cons scan_header_one [of h CR x st] show ?case
    by (simp add: header_text_def spaces del: header_line.simps)
qed

lemma fold_note_header:
  "fold note_header hs (host, found, persistent) =
    (if host_values hs = [] then host else last (host_values hs), found \<or> host_values hs \<noteq> [],
     persistent \<or> keep_alive hs)"
  by (induction hs arbitrary: host found persistent) (auto simp: host_values_def keep_alive_def)

section \<open>The decision\<close>

lemma is_forbidden_names:
  assumes "sites_wf a"
  shows "is_forbidden_from a host (int i) = Ok (host \<in> set (drop i (site_names a)))"
proof (induction "length (site_names a) - i" arbitrary: i)
  case 0
  then show ?case using sites_count [OF assms] by (simp add: is_forbidden_from.simps [of a host])
next
  case (Suc d)
  then have i: "i < length (site_names a)" by linarith
  have "is_forbidden_from a host (int (Suc i)) = Ok (host \<in> set (drop (Suc i) (site_names a)))"
    using Suc(1) [of "Suc i"] Suc(2) by linarith
  moreover have "drop i (site_names a) = site_names a ! i # drop (Suc i) (site_names a)"
    using i by (simp add: Cons_nth_drop_Suc)
  ultimately show ?case
    using i sites_count [OF assms] getSiteItem_in [OF assms, of "int i"]
    by (simp add: is_forbidden_from.simps [of a host "int i"] add.commute)
qed

lemma length_error_text:
  assumes "length v < 32" "length date < 50" "fits_int32 code"
  shows "length (error_text date code v) < 1024"
proof -
  have "length (error_message code) \<le> 18" by (simp add: error_message_def)
  with assms(1,2) length_show_int32 [OF assms(3)] show ?thesis
    by (simp add: error_text_def Let_def crlf_def)
qed

text \<open>
  The milliseconds of a time are at most 999 and take three digits, so with the 19 characters of a
  date with a year of four digits the log's date fits its array.
\<close>

lemma length_show_int3: "0 \<le> n \<Longrightarrow> n < 1000 \<Longrightarrow> length (show_int3 n) = 3"
proof -
  assume n: "0 \<le> n" "n < 1000"
  have "nat n div 10 div 10 < 10" using n by linarith
  then have "length (show_int n) \<le> 3"
    using n(1) by (simp add: show_int_def show_nat.simps [of "nat n"] show_nat.simps [of "nat n div 10"]
        show_nat.simps [of "nat n div 10 div 10"])
  then show ?thesis by (simp add: show_int3_def)
qed

lemma log_date_fits:
  assumes "0 \<le> usec" "usec < 1000000" "\<forall>n. length (strftime n) = 19"
  shows "\<exists>n k. generateLogTime strftime sec usec = Ok (strftime n @ ''.'' @ show_int3 k @ ''Z'')
    \<and> 0 \<le> k \<and> k < 1000 \<and> \<bar>(n * 1000 + k) * 1000 - (sec * 1000000 + usec)\<bar> \<le> 500"
proof -
  define q r where "q = usec div 1000" and "r = usec mod 1000"
  have usec: "usec = q * 1000 + r" "0 \<le> r" "r < 1000" "0 \<le> q" "q < 1000"
    using assms(1,2) by (simp_all add: q_def r_def)
  define m where "m = log_millisec usec"
  have m: "0 \<le> m" "m \<le> 1000" "\<bar>m * 1000 - usec\<bar> \<le> 500"
    using usec by (simp_all add: m_def log_millisec_def Let_def q_def [symmetric] r_def [symmetric])
  define n k where "n = (if 1000 \<le> m then sec + 1 else sec)" and "k = (if 1000 \<le> m then m - 1000 else m)"
  have k: "0 \<le> k" "k < 1000" "n * 1000 + k = sec * 1000 + m" using m by (simp_all add: n_def k_def)
  have "generateLogTime strftime sec usec = cstore 26 (strftime n @ ''.'' @ show_int3 k @ ''Z'')"
    by (simp add: generateLogTime_def m_def [symmetric] n_def k_def)
  then have "generateLogTime strftime sec usec = Ok (strftime n @ ''.'' @ show_int3 k @ ''Z'')"
    using assms(3) length_show_int3 [OF k(1,2)] by (simp add: cstore_def)
  moreover have "\<bar>(n * 1000 + k) * 1000 - (sec * 1000000 + usec)\<bar> \<le> 500"
  proof -
    have "(n * 1000 + k) * 1000 - (sec * 1000000 + usec) = m * 1000 - usec" unfolding k(3) by simp
    with m(3) show ?thesis by (simp only:)
  qed
  ultimately show ?thesis using k by blast
qed

lemma refuse_result:
  assumes "pe_log e" "length (pe_date e) < 50" "length v < 32" "fits_int32 code"
    and "generateLogTime (pe_strftime e) (pe_sec e) (pe_usec e) = Ok d"
  shows "refuse e line code v =
    Ok [Log (log_line d (pe_client_ip e) line (show_int code) 0), Send_client (zbuf PROXY_BUFFER_SIZE (error_text (pe_date e) code v))]"
  using assms length_error_text [OF assms(3,2,4)]
  by (simp add: refuse_def remotelog_def proxyResponseError_def cstore_def PROXY_BUFFER_SIZE_def)

lemma header_text_CR: "\<exists>x. header_text hs @ crlf @ crlf = CR # x"
  by (cases hs) (auto simp: header_text_def crlf_def)

lemma request_line_clean:
  assumes "short_word m" "short_word t" "short_word v"
  shows "CR \<notin> set (request_line m t v)" "no_nul (request_line m t v)" "length (request_line m t v) < 128"
proof -
  show "CR \<notin> set (request_line m t v)"
    using assms [THEN short_word_no_CR] by (simp add: request_line_def)
  show "no_nul (request_line m t v)"
    using assms [THEN short_wordD(2)] by (simp add: request_line_def)
  show "length (request_line m t v) < 128"
    using assms [THEN short_wordD(3)] by (simp add: request_line_def TEMP_SIZE_def)
qed

lemma header_text_no_nul: "list_all header_ok hs \<Longrightarrow> no_nul (header_text hs)"
proof (induction hs)
  case (Cons h hs)
  obtain n v r where h: "h = (n, v, r)" by (cases h)
  from Cons.prems have "short_word n" "short_word v" "no_nul r" by (simp_all add: h)
  with Cons show ?case by (simp add: header_text_def crlf_def h short_wordD(2))
qed (simp add: header_text_def)

lemma takeWhile_line:
  "CR \<notin> set l \<Longrightarrow> takeWhile (\<lambda>c. c \<noteq> CR) (l @ CR # x) = l"
  by (induction l) auto

lemma request_splits:
  assumes "request_ok m t v hs"
  shows "length (takeWhile (\<lambda>c. c \<noteq> CR) (http_request m t v hs)) = length (request_line m t v)"
    "length (request_line m t v) < length (http_request m t v hs)"
    "strncpy_zeroed 128 (http_request m t v hs) (length (request_line m t v)) = Ok (request_line m t v)"
    "scan_words [(TEMP_SIZE, []), (TEMP_SIZE, []), (TEMP_SIZE, [])] (http_request m t v hs) = Ok [m, t, v]"
    "drop (length (request_line m t v)) (http_request m t v hs) = header_text hs @ crlf @ crlf"
proof -
  have w: "short_word m" "short_word t" "short_word v" "list_all header_ok hs"
    using assms by (simp_all add: request_ok_def)
  obtain x where x: "header_text hs @ crlf @ crlf = CR # x" using header_text_CR by blast
  have line: "http_request m t v hs = request_line m t v @ CR # x" by (simp add: http_request_def x)
  have n: "no_nul (http_request m t v hs)"
    using header_text_no_nul [OF w(4)] request_line_clean(2) [OF w(1-3)] by (simp add: http_request_def crlf_def)
  show "length (takeWhile (\<lambda>c. c \<noteq> CR) (http_request m t v hs)) = length (request_line m t v)"
    by (simp add: line takeWhile_line request_line_clean(1) [OF w(1-3)])
  show "length (request_line m t v) < length (http_request m t v hs)" by (simp add: line)
  show "strncpy_zeroed 128 (http_request m t v hs) (length (request_line m t v)) = Ok (request_line m t v)"
    using strncpy_zeroed_Ok [OF request_line_clean(3) [OF w(1-3)] n] by (simp add: line)
  show "scan_words [(TEMP_SIZE, []), (TEMP_SIZE, []), (TEMP_SIZE, [])] (http_request m t v hs) = Ok [m, t, v]"
    unfolding line by (rule scan_request_words [OF w(1-3) spaces(1)])
  show "drop (length (request_line m t v)) (http_request m t v hs) = header_text hs @ crlf @ crlf"
    by (simp add: http_request_def)
qed

text \<open>
  The decision about a text \<open>T\<close> with the first line \<open>L\<close> of the words \<open>m\<close>, \<open>t\<close> and \<open>v\<close>, in which the
  header loop finds the headers \<open>hs\<close>.
\<close>

definition decision ::
    "proxy_env \<Rightarrow> forbidden_sites_t \<Rightarrow> string \<Rightarrow> string \<Rightarrow> string \<Rightarrow> string \<Rightarrow> string \<Rightarrow> header list \<Rightarrow> proxy_state
      \<Rightarrow> (proxy_state \<times> proxy_action list \<times> bool) res" where
  "decision e sites d T L m v hs s =
    (let logged = (\<lambda>code. Log (log_line d (pe_client_ip e) L code 0));
         page = (\<lambda>code. Send_client (zbuf 1024 (error_text (pe_date e) code v)))
     in if m \<notin> {''GET'', ''HEAD''} then Ok (s, [logged ''501'', page 501], True)
        else if v \<notin> {''HTTP/1.1'', ''HTTP/1.0''} \<or> host_values hs = [] then Ok (s, [logged ''400'', page 400], True)
        else if last (host_values hs) \<in> set (site_names sites) then Ok (s, [logged ''403'', page 403], False)
        else forward_request e T L v (last (host_values hs)) (v = ''HTTP/1.1'' \<or> keep_alive hs) s)"

lemma text_decided:
  assumes "length (takeWhile (\<lambda>c. c \<noteq> CR) T) = length L" "length L < length T" "strncpy_zeroed 128 T (length L) = Ok L"
    and "scan_words [(TEMP_SIZE, []), (TEMP_SIZE, []), (TEMP_SIZE, [])] T = Ok [m, t, v]"
    and "\<And>st. scan_headers (drop (length L) T) st = Ok (fold note_header hs st)"
    and "length v < 32" "sites_wf sites" "pe_log e" "length (pe_date e) < 50"
    and "generateLogTime (pe_strftime e) (pe_sec e) (pe_usec e) = Ok d"
  shows "handle_request e sites T s = decision e sites d T L m v hs s"
proof -
  have codes: "show_int 501 = ''501''" "show_int 400 = ''400''" "show_int 403 = ''403''"
    by (simp_all add: show_int_def show_nat.simps digit_char_def)
  have fits: "fits_int32 501" "fits_int32 400" "fits_int32 403" by (simp_all add: fits_int32_def)
  note refused = refuse_result [OF assms(8,9,6) fits(1) assms(10)] refuse_result [OF assms(8,9,6) fits(2) assms(10)]
    refuse_result [OF assms(8,9,6) fits(3) assms(10)]
  show ?thesis
    using is_forbidden_names [OF assms(7), of _ 0] refused [of L]
    by (auto simp: handle_request_def decision_def assms(1-5) fold_note_header codes Let_def
        PROXY_BUFFER_SIZE_def simp del: scan_words.simps)
qed

lemma request_decided:
  assumes "request_ok m t v hs" "sites_wf sites" "pe_log e" "length (pe_date e) < 50"
    and "generateLogTime (pe_strftime e) (pe_sec e) (pe_usec e) = Ok d"
  shows "handle_request e sites (http_request m t v hs) s
    = decision e sites d (http_request m t v hs) (request_line m t v) m v hs s"
proof -
  have w: "length v < 32" "list_all header_ok hs" using assms(1) by (simp_all add: request_ok_def short_word_def)
  note splits = request_splits [OF assms(1)]
  have scan: "scan_headers (drop (length (request_line m t v)) (http_request m t v hs)) st = Ok (fold note_header hs st)" for st
    unfolding splits(5) by (rule scan_headers_text [OF w(2)])
  show ?thesis by (rule text_decided [OF splits(1-4) scan w(1) assms(2-5)])
qed

text \<open>
  Property C33.  The decision.  For every request whose words fit the proxy's arrays: a method other
  than GET and HEAD is answered with the 501 page, another version than 1.0 and 1.1 with the 400
  page, a request without Host header with the 400 page, and the connection goes on; a request whose
  last Host header names a forbidden site gets the 403 page and ends the connection, where
  \<^verbatim>\<open>hw5/readme.md\<close> has the proxy go back to reading; every other one is forwarded, as persistent if it
  is of version 1.1 or asks for it, over the host the connection has open, and only without one to
  the host of its last Host header.  Each refusal is logged with its code.
\<close>

theorem proxy_decides:
  assumes "request_ok m t v hs" "sites_wf sites" "pe_log e" "length (pe_date e) < 50"
    and "generateLogTime (pe_strftime e) (pe_sec e) (pe_usec e) = Ok d"
  shows "handle_request e sites (http_request m t v hs) s =
    (let line = request_line m t v;
         logged = (\<lambda>code. Log (log_line d (pe_client_ip e) line code 0));
         page = (\<lambda>code. Send_client (zbuf 1024 (error_text (pe_date e) code v)))
     in if m \<notin> {''GET'', ''HEAD''} then Ok (s, [logged ''501'', page 501], True)
        else if v \<notin> {''HTTP/1.1'', ''HTTP/1.0''} \<or> host_values hs = [] then Ok (s, [logged ''400'', page 400], True)
        else if last (host_values hs) \<in> set (site_names sites) then Ok (s, [logged ''403'', page 403], False)
        else forward_request e (http_request m t v hs) line v (last (host_values hs))
               (v = ''HTTP/1.1'' \<or> keep_alive hs) s)"
  using request_decided [OF assms] by (simp only: decision_def Let_def)

text \<open>
  A target of 32 or more characters is written past the end of the array it is
  scanned into, whatever else the request holds.
\<close>

lemma long_target_overruns:
  assumes "short_word m" "\<forall>c \<in> set t. \<not> is_space c" "32 \<le> length t" "short_word v"
    and "length (request_line m t v) < 128" "no_nul (request_line m t v)" "list_all header_ok hs"
  shows "handle_request e sites (http_request m t v hs) s = ub Out_Of_Bounds"
proof -
  obtain x where x: "header_text hs @ crlf @ crlf = CR # x" using header_text_CR by blast
  let ?line = "request_line m t v"
  have line: "http_request m t v hs = ?line @ CR # x" by (simp add: http_request_def x)
  have "CR \<notin> set t" using assms(2) spaces(1) by blast
  then have cr: "CR \<notin> set ?line"
    using short_word_no_CR [OF assms(1)] short_word_no_CR [OF assms(4)] by (simp add: request_line_def)
  have n: "no_nul (http_request m t v hs)"
    using header_text_no_nul [OF assms(7)] assms(6) by (simp add: http_request_def crlf_def)
  have t: "scan_word (t @ c # r) = (t, c # r)" if "is_space c" for c r
  proof -
    have "dropWhile is_space (t @ c # r) = t @ c # r" using assms(2,3) by (cases t) auto
    moreover have "takeWhile (\<lambda>c. \<not> is_space c) (t @ c # r) = t" "dropWhile (\<lambda>c. \<not> is_space c) (t @ c # r) = c # r"
      using assms(2) that by (auto simp: takeWhile_append dropWhile_append)
    ultimately show ?thesis by (simp add: scan_word_def)
  qed
  have "t \<noteq> []" "\<not> length t < TEMP_SIZE" using assms(3) by (auto simp: TEMP_SIZE_def)
  then have "scan_words [(TEMP_SIZE, []), (TEMP_SIZE, [])] (t @ CHR '' '' # v @ CR # x) = ub Out_Of_Bounds"
    by (simp add: t spaces cstore_def del: scan_words.simps add: scan_words.simps(2) [of TEMP_SIZE "[]"])
  then have "scan_words [(TEMP_SIZE, []), (TEMP_SIZE, []), (TEMP_SIZE, [])] (m @ CHR '' '' # t @ CHR '' '' # v @ CR # x)
      = ub Out_Of_Bounds"
    by (simp only: scan_words_step [OF assms(1) spaces(3)] scan_words_space [OF spaces(3)] res_bind_simps)
  then have w: "scan_words [(TEMP_SIZE, []), (TEMP_SIZE, []), (TEMP_SIZE, [])] (?line @ CR # x) = ub Out_Of_Bounds"
    by (simp add: request_line_def)
  have "strncpy_zeroed 128 (?line @ CR # x) (length ?line) = Ok ?line"
    using strncpy_zeroed_Ok [OF assms(5) n] by (simp add: line)
  with w cr show ?thesis
    by (simp add: handle_request_def line takeWhile_line Let_def del: scan_words.simps)
qed

section \<open>Forwarding and relaying\<close>

text \<open>A response: status line, headers and the part of the body that came with them.\<close>

definition http_response :: "string \<Rightarrow> string \<Rightarrow> string \<Rightarrow> string \<Rightarrow> header list \<Rightarrow> string \<Rightarrow> string" where
  "http_response a c r x hs body = request_line a c r @ x @ header_text hs @ crlf @ crlf @ body"

lemma find_length_skip: "CR \<notin> set s \<Longrightarrow> find_length (s @ x) p q = find_length x p q"
  by (induction s) auto

lemma header_line_no_CR: "header_ok h \<Longrightarrow> CR \<notin> set (LF # header_line h)"
  using short_word_no_CR by (cases h) auto

lemma find_length_one:
  assumes "header_ok (n, v, r)" "is_space c"
  shows "find_length (crlf @ header_line (n, v, r) @ c # x) p q =
    (if n = ''Content-Length:'' then Ok (Some (atol v)) else find_length (c # x) n v)"
proof -
  let ?s = "LF # header_line (n, v, r)"
  have skip: "find_length (?s @ c # x) n v = find_length (c # x) n v"
    by (rule find_length_skip [OF header_line_no_CR [OF assms(1)]])
  have "find_length (CR # ?s @ c # x) p q =
      (if n = ''Content-Length:'' then Ok (Some (atol v)) else find_length (?s @ c # x) n v)"
    using scan_header_words [OF assms, of p q x]
    by (subst find_length.simps(2)) (simp del: scan_words.simps header_line.simps find_length.simps)
  with skip show ?thesis by (simp add: crlf_def del: find_length.simps header_line.simps)
qed

lemma header_text_CR_tail: "\<exists>x. header_text hs @ crlf @ y = CR # x"
  by (cases hs) (auto simp: header_text_def crlf_def)

text \<open>
  The headers the code looks at, up to the first Content-Length, and the length that one gives.
\<close>

definition looked_at :: "header list \<Rightarrow> header list" where
  "looked_at hs = takeWhile (\<lambda>h. fst h \<noteq> ''Content-Length:'') hs @ take 1 (dropWhile (\<lambda>h. fst h \<noteq> ''Content-Length:'') hs)"

definition declared :: "header list \<Rightarrow> int option" where
  "declared hs = (case dropWhile (\<lambda>h. fst h \<noteq> ''Content-Length:'') hs of [] \<Rightarrow> None | h # _ \<Rightarrow> Some (atol (fst (snd h))))"

lemma looked_at_Cons: "looked_at (h # hs) = (if fst h = ''Content-Length:'' then [h] else h # looked_at hs)"
  by (simp add: looked_at_def)

lemma declared_Cons: "declared (h # hs) = (if fst h = ''Content-Length:'' then Some (atol (fst (snd h))) else declared hs)"
  by (simp add: declared_def)

lemma looked_at_none: "declared hs = None \<Longrightarrow> looked_at hs = hs"
  by (induction hs) (auto simp: declared_Cons looked_at_Cons split: if_splits, simp add: looked_at_def)

text \<open>
  Without that header the scan goes on over the start of the body, whose first two words are stored
  in the arrays too.
\<close>

definition body_ok :: "string \<Rightarrow> bool" where
  "body_ok body \<longleftrightarrow> CR \<notin> set body \<and>
    (case scan_word body of (w, rest) \<Rightarrow> w \<noteq> ''Content-Length:'' \<and> length w < TEMP_SIZE \<and> length (fst (scan_word rest)) < TEMP_SIZE)"

lemma body_words:
  assumes "body_ok body" "p \<noteq> ''Content-Length:''"
  shows "\<exists>p' q'. scan_words [(TEMP_SIZE, p), (TEMP_SIZE, q)] body = Ok [p', q'] \<and> p' \<noteq> ''Content-Length:''"
proof -
  obtain w rest where w: "scan_word body = (w, rest)" by (cases "scan_word body")
  obtain w2 rest2 where w2: "scan_word rest = (w2, rest2)" by (cases "scan_word rest")
  from assms w w2 show ?thesis by (auto simp: body_ok_def cstore_def)
qed

lemma find_length_body:
  assumes "body_ok body" "p \<noteq> ''Content-Length:''"
  shows "find_length (crlf @ crlf @ body) p q = Ok None"
proof -
  obtain p1 q1 where w1: "scan_words [(TEMP_SIZE, p), (TEMP_SIZE, q)] body = Ok [p1, q1]" "p1 \<noteq> ''Content-Length:''"
    using body_words [OF assms] by blast
  obtain p2 q2 where w2: "scan_words [(TEMP_SIZE, p1), (TEMP_SIZE, q1)] body = Ok [p2, q2]" "p2 \<noteq> ''Content-Length:''"
    using body_words [OF assms(1) w1(2)] by blast
  have "CR \<notin> set body" using assms(1) by (simp add: body_ok_def)
  with find_length_skip [of body "[]"] have "find_length body p2 q2 = Ok None" by simp
  with w1 w2 show ?thesis
    by (simp add: crlf_def scan_words_space spaces find_length.simps(2) del: scan_words.simps)
qed

lemma find_length_text:
  assumes "list_all header_ok (looked_at hs)" "declared hs = None \<Longrightarrow> body_ok body" "p \<noteq> ''Content-Length:''"
  shows "find_length (header_text hs @ crlf @ crlf @ body) p q = Ok (declared hs)"
  using assms
proof (induction hs arbitrary: p q)
  case Nil
  then show ?case using find_length_body by (simp add: header_text_def declared_def)
next
  case (Cons h hs)
  obtain k v r where h: "h = (k, v, r)" by (cases h)
  obtain x where x: "header_text hs @ crlf @ crlf @ body = CR # x"
    using header_text_CR_tail by blast
  have k: "header_ok (k, v, r)" using Cons.prems(1) by (simp add: looked_at_Cons h split: if_splits)
  have "header_text (h # hs) @ crlf @ crlf @ body = crlf @ header_line (k, v, r) @ CR # x"
    using x by (simp add: header_text_def h del: header_line.simps)
  with find_length_one [OF k spaces(1), of x p q]
  have "find_length (header_text (h # hs) @ crlf @ crlf @ body) p q =
      (if k = ''Content-Length:'' then Ok (Some (atol v)) else find_length (CR # x) k v)"
    by (simp only:)
  with Cons.IH [of k v] Cons.prems x show ?case
    by (simp add: looked_at_Cons declared_Cons h del: find_length.simps header_line.simps split: if_splits)
qed

text \<open>The first empty line of a text is the one after its headers.\<close>

lemma strstr_skip: "p \<noteq> [] \<Longrightarrow> hd p \<notin> set s \<Longrightarrow> strstr (s @ x) p = strstr x p"
proof (induction s)
  case (Cons c s)
  then have "take (length p) (c # s @ x) \<noteq> p" by (cases p) auto
  with Cons show ?case by simp
qed simp

lemma strstr_header:
  assumes "header_ok h"
  shows "strstr (crlf @ header_line h @ x) (crlf @ crlf) = strstr x (crlf @ crlf)"
proof -
  obtain n w r where h: "h = (n, w, r)" by (cases h)
  with assms have line: "header_line h \<noteq> []" "CR \<notin> set (header_line h)"
    using short_word_no_CR by auto
  then obtain a l where al: "header_line h = a # l" "a \<noteq> CR" by (cases "header_line h") auto
  have "strstr (LF # header_line h @ x) (crlf @ crlf) = strstr x (crlf @ crlf)"
    using strstr_skip [of "crlf @ crlf" "LF # header_line h" x] line(2) by (simp add: crlf_def)
  with al show ?thesis by (simp add: crlf_def)
qed

lemma strstr_header_text:
  "list_all header_ok hs \<Longrightarrow> strstr (header_text hs @ x) (crlf @ crlf) = strstr x (crlf @ crlf)"
  by (induction hs) (simp_all add: header_text_def strstr_header del: header_line.simps)

lemma strstr_empty_line: "strstr (crlf @ crlf @ x) (crlf @ crlf) = Some (crlf @ crlf @ x)"
  by (simp add: crlf_def)

text \<open>The later reads: passed on as they are, and counted as strings when no length is known.\<close>

definition text_bytes :: "char list \<Rightarrow> int" where
  "text_bytes c = int (length (takeWhile (\<lambda>b. b \<noteq> NUL) c))"

definition ends_in_block :: "char list \<Rightarrow> bool" where
  "ends_in_block c \<longleftrightarrow> length c < 1024 \<or> NUL \<in> set c"

definition passed_on :: "char list list \<Rightarrow> proxy_action list" where
  "passed_on chunks = map (\<lambda>b. Send_client (zbuf 1024 b)) chunks"

lemma relay_rest_known:
  "[] \<notin> set chunks \<Longrightarrow> \<forall>j. 0 \<le> sent j \<Longrightarrow>
    relay_rest sent k True n chunks = Ok (n, passed_on chunks, True)"
proof (induction chunks arbitrary: k)
  case (Cons c cs)
  then have "\<not> sent k < 0" "c \<noteq> []" by (auto simp: not_less)
  with Cons show ?case by (auto simp: passed_on_def PROXY_BUFFER_SIZE_def)
qed (simp add: passed_on_def)

lemma relay_rest_counted:
  "[] \<notin> set chunks \<Longrightarrow> \<forall>j. 0 \<le> sent j \<Longrightarrow>
    relay_rest sent k False n chunks =
      (if list_all ends_in_block chunks then Ok (n + sum_list (map text_bytes chunks), passed_on chunks, True) else ub Unterminated)"
proof (induction chunks arbitrary: k n)
  case (Cons c cs)
  then have "\<not> sent k < 0" "c \<noteq> []" by (auto simp: not_less)
  moreover have "cstr (zbuf PROXY_BUFFER_SIZE c) = (if ends_in_block c then Ok (takeWhile (\<lambda>b. b \<noteq> NUL) c) else ub Unterminated)"
  proof (cases "NUL \<in> set c")
    case False
    then have all: "takeWhile (\<lambda>b. b \<noteq> NUL) c = c" by (auto simp: takeWhile_eq_all_conv)
    show ?thesis unfolding all using False by (simp add: cstr_zbuf ends_in_block_def PROXY_BUFFER_SIZE_def)
  qed (simp add: cstr_zbuf ends_in_block_def)
  moreover have "int (length (takeWhile (\<lambda>b. b \<noteq> NUL) c)) = text_bytes c" by (simp add: text_bytes_def)
  ultimately show ?case using Cons
    by (simp add: passed_on_def PROXY_BUFFER_SIZE_def add.assoc)
qed (simp add: passed_on_def)

lemma response_scans:
  assumes "short_word a" "short_word c" "length c < 8" "short_word r" "x = [] \<or> is_space (hd x)"
  shows "scan_words [(TEMP_SIZE, []), (8, []), (TEMP_SIZE, [])] (http_response a c r x hs body) = Ok [a, c, r]"
proof -
  obtain y where y: "header_text hs @ crlf @ crlf @ body = CR # y" using header_text_CR_tail by blast
  have "\<exists>d s. x @ CR # y = d # s \<and> is_space d" using assms(5) spaces(1) by (cases x) auto
  then obtain d s where ds: "x @ CR # y = d # s" "is_space d" by blast
  have "scan_words [(8, []), (TEMP_SIZE, [])] (c @ CHR '' '' # r @ d # s) =
      res_bind (scan_words [(TEMP_SIZE, [])] (CHR '' '' # r @ d # s)) (\<lambda>ws. Ok (c # ws))"
    using scan_word_one [OF short_wordD(1) [OF assms(2)] spaces(3), of "r @ d # s"] short_wordD(4) [OF assms(2)] assms(3)
    by (simp add: cstore_def del: scan_words.simps add: scan_words.simps(2) [of 8 "[]"])
  then have "scan_words [(TEMP_SIZE, []), (8, []), (TEMP_SIZE, [])] (a @ CHR '' '' # c @ CHR '' '' # r @ d # s) = Ok [a, c, r]"
    by (simp only: scan_words_step [OF assms(1) spaces(3)] scan_words_step [OF assms(4) ds(2)] scan_words_space [OF spaces(3)])
      simp
  moreover have "http_response a c r x hs body = a @ CHR '' '' # c @ CHR '' '' # r @ d # s"
    using y ds(1) by (simp add: http_response_def request_line_def)
  ultimately show ?thesis by (simp only:)
qed

text \<open>What a response's reads make the proxy do, and what it logs.\<close>

definition relayed :: "proxy_env \<Rightarrow> string \<Rightarrow> string \<Rightarrow> string \<Rightarrow> header list \<Rightarrow> string \<Rightarrow> char list list \<Rightarrow> proxy_action list res" where
  "relayed e d line c hs body chunks =
    (let logged = (\<lambda>n. Log (log_line d (pe_client_ip e) line c n)); sent = passed_on (pe_response e)
     in case declared hs of
          Some n \<Rightarrow> Ok (logged n # sent)
        | None \<Rightarrow> if list_all ends_in_block chunks
                  then Ok (sent @ [logged (int (length body) + sum_list (map text_bytes chunks))]) else ub Unterminated)"

lemma relay_result:
  assumes "short_word a" "short_word c" "length c < 8" "short_word r" "x = [] \<or> is_space (hd x)" "CR \<notin> set x"
    and "list_all header_ok (looked_at hs)" "declared hs = None \<Longrightarrow> body_ok body"
    and "resp = http_response a c r x hs body" "no_nul resp" "length resp \<le> 1024"
    and "pe_response e = resp # chunks" "[] \<notin> set chunks" "\<forall>j. 0 \<le> pe_relay e j" "pe_log e"
    and "generateLogTime (pe_strftime e) (pe_sec e) (pe_usec e) = Ok d"
  shows "relay e line code0 =
    (if length resp = 1024 then ub Unterminated
     else res_bind (relayed e d line c hs body chunks) (\<lambda>acts. Ok (Some c, acts, True)))"
proof -
  have str: "cstr (zbuf 1024 resp) = (if length resp = 1024 then ub Unterminated else Ok resp)"
    using assms(10,11) by (auto simp: cstr_zbuf no_nul_def)
  have line: "CR \<notin> set (request_line a c r @ x)"
    using request_line_clean(1) [OF assms(1,2,4)] assms(6) by simp
  have whole: "resp = (request_line a c r @ x) @ header_text hs @ crlf @ crlf @ body"
    by (simp add: assms(9) http_response_def)
  have len: "find_length resp [] [] = Ok (declared hs)"
    unfolding whole find_length_skip [OF line] using assms(7,8) by (intro find_length_text) auto
  have scan: "scan_words [(TEMP_SIZE, []), (8, []), (TEMP_SIZE, [])] resp = Ok [a, c, r]"
    unfolding assms(9) by (rule response_scans [OF assms(1-5)])
  have tail: "strstr resp (crlf @ crlf) = Some (crlf @ crlf @ body)" if "declared hs = None"
  proof -
    have "list_all header_ok hs" using assms(7) looked_at_none [OF that] by simp
    moreover have "hd (crlf @ crlf) \<notin> set (request_line a c r @ x)" "crlf @ crlf \<noteq> []"
      using line by (simp_all add: crlf_def)
    ultimately show ?thesis unfolding whole
      by (simp only: strstr_skip strstr_header_text strstr_empty_line not_False_eq_True)
  qed
  have four: "length crlf = 2" by (simp add: crlf_def)
  have "resp \<noteq> []" using short_wordD(4) [OF assms(1)] by (simp add: assms(9) http_response_def request_line_def)
  then have reads: "[] \<notin> set (resp # chunks)" using assms(13) by auto
  then have tw: "resp \<noteq> []" "takeWhile (\<lambda>c. c \<noteq> []) chunks = chunks"
    by (auto simp: takeWhile_eq_all_conv)
  have sent: "\<not> pe_relay e 0 < 0" using assms(14) by (simp add: not_less)
  have log: "remotelog e line c n = Ok [Log (log_line d (pe_client_ip e) line c n)]" for n
    by (simp add: remotelog_def assms(15,16))
  show ?thesis
  proof (cases "declared hs")
    case None
    with relay_rest_counted [OF assms(13,14), of 1 "int (length body)"] tail show ?thesis
      by (simp add: relay_def relayed_def Let_def assms(12) tw str scan len log sent four passed_on_def PROXY_BUFFER_SIZE_def
          del: scan_words.simps find_length.simps relay_rest.simps strstr.simps)
  next
    case (Some n)
    with relay_rest_known [OF reads assms(14), of 0 n] show ?thesis
      by (simp add: relay_def relayed_def assms(12) tw str scan len log PROXY_BUFFER_SIZE_def
          del: scan_words.simps find_length.simps relay_rest.simps)
  qed
qed

text \<open>
  The connection to the host: the one already open, or a new one when every call for it succeeds;
  the state with it, and what that takes.
\<close>

definition host_ready :: "proxy_env \<Rightarrow> string \<Rightarrow> proxy_state \<Rightarrow> (proxy_state \<times> proxy_action list) option" where
  "host_ready e host s =
    (if 0 \<le> host_sock s then Some (s, [])
     else case pe_local e of
            Some (ip # ips) \<Rightarrow>
              (let f = forward_text (pe_client_ip e) ip
               in if length f < 128 \<and> pe_resolves e host \<and> 0 \<le> pe_socket e \<and> 0 \<le> pe_connect e
                  then Some (s\<lparr>host_sock := pe_socket e, forwardstr := f\<rparr>, [Open_host host]) else None)
          | _ \<Rightarrow> None)"

lemma forward_ready:
  assumes "host_ready e host s = Some (s1, o1)" "0 \<le> pe_write e"
    and "length (http_request m t v rq) + length (forwardstr s1) < 2050"
  shows "forward_request e (http_request m t v rq) line v host persistent s =
    res_bind (relay e line (log_responsecode s1)) (\<lambda>(code, o2, ended).
      Ok (s1\<lparr>log_responsecode := code\<rparr>,
          o1 @ Send_host (host_sock s1) (zbuf 2048 (request_line m t v @ header_text rq @ crlf @ forwardstr s1)) # o2,
          ended \<and> persistent))"
proof -
  define T where "T = http_request m t v rq"
  have cut: "take (length T - 2) T = request_line m t v @ header_text rq @ crlf"
    by (simp add: T_def http_request_def crlf_def)
  have "length T = length (request_line m t v @ header_text rq @ crlf) + 2"
    by (simp add: T_def http_request_def crlf_def)
  then have "cstore REQUERST_SIZE (take (length T - 2) T @ forwardstr s1) = Ok (take (length T - 2) T @ forwardstr s1)"
    using assms(3) by (simp add: REQUERST_SIZE_def T_def [symmetric] cstore_def cut)
  moreover have "\<not> pe_write e < 0" using assms(2) by simp
  moreover have "(if host_sock s < 0
       then res_bind (getlocalIP (pe_local e)) (\<lambda>proxy_ip.
            res_bind (cstore 128 (forward_text (pe_client_ip e) proxy_ip)) (\<lambda>f.
            if \<not> pe_resolves e host
            then res_bind (refuse e line 400 v) (\<lambda>o1. Ok (s\<lparr>forwardstr := f\<rparr>, o1, False))
            else if pe_socket e < 0 then failHandler ''create socket error!''
            else if pe_connect e < 0 then failHandler ''connect host socket error!''
            else Ok (s\<lparr>host_sock := pe_socket e, forwardstr := f\<rparr>, [Open_host host], True)))
       else Ok (s, [], True)) = Ok (s1, o1, True)"
    using assms(1) by (auto simp: host_ready_def getlocalIP_def cstore_def Let_def split: if_splits option.splits list.splits)
  ultimately show ?thesis unfolding T_def [symmetric]
    by (simp add: forward_request_def cut REQUERST_SIZE_def)
qed

text \<open>
  Property C34.  Forwarding and relaying, for the first request of a connection and for every later
  one.  When the calls for the request succeed, its text with the Forwarded header fits 2048 bytes,
  and the host's first read returns the head of a response free of zero bytes whose scanned words fit
  their arrays, the proxy opens the host unless the connection has one, and sends it the request with
  its empty line replaced by the Forwarded header and an empty line, in a block of 2048 bytes.  A
  first read of less than 1024 bytes and every later one are written to the client in order, each
  padded with zero bytes to 1024, and one line with the time, the response's code and its length is
  added to the log: the declared length, before the writes, if there is a Content-Length header;
  otherwise, after them, the bytes of the body counted up to the first zero byte of each read.  What
  has undefined behaviour is exactly a first read that fills the 1024 bytes, and without a declared
  length a later one that fills them and has no zero byte: both are taken for strings.
\<close>

theorem forward_exact:
  assumes "host_ready e host s = Some (s1, o1)" "0 \<le> pe_write e" "pe_log e" "\<forall>j. 0 \<le> pe_relay e j"
    and "length (http_request m t v rq) + length (forwardstr s1) < 2050"
    and "short_word a" "short_word c" "length c < 8" "short_word r" "x = [] \<or> is_space (hd x)" "CR \<notin> set x"
      "list_all header_ok (looked_at hs)" "declared hs = None \<Longrightarrow> body_ok body"
      "resp = http_response a c r x hs body" "no_nul resp" "length resp \<le> 1024"
      "pe_response e = resp # chunks" "[] \<notin> set chunks"
    and "generateLogTime (pe_strftime e) (pe_sec e) (pe_usec e) = Ok d"
  shows "forward_request e (http_request m t v rq) line v host persistent s =
    (let done = (\<lambda>acts. Ok (s1\<lparr>log_responsecode := Some c\<rparr>,
           o1 @ Send_host (host_sock s1) (zbuf 2048 (request_line m t v @ header_text rq @ crlf @ forwardstr s1)) # acts,
           persistent));
         logged = (\<lambda>n. Log (log_line d (pe_client_ip e) line c n));
         sent = map (\<lambda>b. Send_client (zbuf 1024 b)) (resp # chunks)
     in if length resp = 1024 then ub Unterminated
        else case declared hs of
            Some n \<Rightarrow> done (logged n # sent)
          | None \<Rightarrow>
              if list_all ends_in_block chunks
              then done (sent @ [logged (int (length body) + sum_list (map text_bytes chunks))])
              else ub Unterminated)"
  using relay_result [OF assms(6-18,4,3,19), of line "log_responsecode s1"]
  by (auto simp: forward_ready [OF assms(1,2,5)] relayed_def Let_def passed_on_def assms(17) split: option.splits)

section \<open>The hosts of a connection\<close>

definition opened :: "proxy_action list \<Rightarrow> string list" where
  "opened acts = concat (map (\<lambda>a. case a of Open_host h \<Rightarrow> [h] | _ \<Rightarrow> []) acts)"

definition host_socks :: "proxy_action list \<Rightarrow> int list" where
  "host_socks acts = concat (map (\<lambda>a. case a of Send_host fd b \<Rightarrow> [fd] | _ \<Rightarrow> []) acts)"

lemma host_actions [simp]:
  "opened [] = []" "host_socks [] = []"
  "opened (xs @ ys) = opened xs @ opened ys" "host_socks (xs @ ys) = host_socks xs @ host_socks ys"
  "opened (Open_host h # xs) = h # opened xs" "host_socks (Open_host h # xs) = host_socks xs"
  "opened (Send_host fd b # xs) = opened xs" "host_socks (Send_host fd b # xs) = fd # host_socks xs"
  "opened (Send_client b # xs) = opened xs" "host_socks (Send_client b # xs) = host_socks xs"
  "opened (Log l # xs) = opened xs" "host_socks (Log l # xs) = host_socks xs"
  by (simp_all add: opened_def host_socks_def)

lemma refuse_host: "refuse e line code v = Ok acts \<Longrightarrow> opened acts = [] \<and> host_socks acts = []"
  by (auto simp: refuse_def remotelog_def proxyResponseError_def failHandler_def res_simps split: if_splits)

lemma remotelog_host: "remotelog e line code n = Ok acts \<Longrightarrow> opened acts = [] \<and> host_socks acts = []"
  by (auto simp: remotelog_def failHandler_def res_simps split: if_splits)

lemma relay_rest_host:
  "relay_rest sent k b n chunks = Ok (n', acts, ended) \<Longrightarrow> opened acts = [] \<and> host_socks acts = []"
proof (induction chunks arbitrary: k n n' acts ended)
  case (Cons c cs)
  then show ?case by (auto simp: res_simps split: if_splits)
qed simp

lemma relay_host:
  assumes "relay e line code0 = Ok (code, acts, ended)"
  shows "opened acts = [] \<and> host_socks acts = []"
  using assms
  by (auto simp: relay_def res_simps simp del: scan_words.simps find_length.simps
      dest!: remotelog_host relay_rest_host split: list.splits option.splits if_splits)

definition one_host :: "proxy_state \<Rightarrow> proxy_state \<Rightarrow> proxy_action list \<Rightarrow> bool" where
  "one_host s s' acts \<longleftrightarrow>
    (if 0 \<le> host_sock s
     then host_sock s' = host_sock s \<and> opened acts = [] \<and> set (host_socks acts) \<subseteq> {host_sock s}
     else if 0 \<le> host_sock s' then length (opened acts) = 1 \<and> set (host_socks acts) \<subseteq> {host_sock s'}
     else opened acts = [] \<and> host_socks acts = [])"

lemma one_host_trans: "one_host s s1 o1 \<Longrightarrow> one_host s1 s2 o2 \<Longrightarrow> one_host s s2 (o1 @ o2)"
  by (auto simp: one_host_def split: if_splits)

lemma one_host_quiet: "opened acts = [] \<Longrightarrow> host_socks acts = [] \<Longrightarrow> one_host s s acts"
  by (simp add: one_host_def)

lemma one_host_refuse:
  "refuse e line code v = Ok acts \<Longrightarrow> host_sock s' = host_sock s \<Longrightarrow> one_host s s' acts"
  using refuse_host by (auto simp: one_host_def)

lemma forward_request_one_host:
  assumes "forward_request e buf line v host p s = Ok (s', acts, go)"
  shows "one_host s s' acts"
proof (cases "host_sock s < 0")
  case True
  with assms show ?thesis
    by (auto simp: forward_request_def res_simps failHandler_def one_host_def split: if_splits
        dest!: relay_host refuse_host)
next
  case False
  with assms show ?thesis
    by (auto simp: forward_request_def res_simps one_host_def split: if_splits dest!: relay_host)
qed

lemma handle_request_one_host:
  assumes "handle_request e sites buf s = Ok (s', acts, go)"
  shows "one_host s s' acts"
  using assms
  by (auto simp: handle_request_def Let_def res_simps simp del: scan_words.simps split: if_splits
      dest: one_host_refuse forward_request_one_host)

lemma thread_proxy_one_host:
  "thread_proxy sites es k buf chunks s = Ok (s', acts) \<Longrightarrow> one_host s s' acts"
proof (induction sites es k buf chunks s arbitrary: s' acts rule: thread_proxy.induct)
  case (1 sites es k full_buf s)
  then show ?case by (simp add: one_host_quiet)
next
  case (2 sites es k full_buf chunk chunks s)
  show ?case
  proof (cases "chunk = []")
    case True
    with 2(3) show ?thesis by (simp add: one_host_quiet)
  next
    case False
    from 2(3) False obtain t where t: "cstr (zbuf PROXY_BUFFER_SIZE chunk) = Ok t"
      "cstore REQUERST_SIZE (full_buf @ t) = Ok (full_buf @ t)"
      by (auto simp: res_simps cstore_Ok_iff)
    show ?thesis
    proof (cases "strstr (full_buf @ t) (crlf @ crlf) = None")
      case True
      with 2(3) t False have "thread_proxy sites es k (full_buf @ t) chunks s = Ok (s', acts)" by simp
      with 2(1) [OF False t True] show ?thesis by blast
    next
      case no: False
      with 2(3) t False obtain s1 o1 go where h: "handle_request (es k) sites (full_buf @ t) s = Ok (s1, o1, go)"
        and r: "(if go then res_bind (thread_proxy sites es (k + 1) [] chunks s1) (\<lambda>(s2, o2). Ok (s2, o1 @ o2))
                 else Ok (s1, o1)) = Ok (s', acts)"
        by (auto simp: res_simps)
      show ?thesis
      proof (cases go)
        case True
        with r obtain o2 where "thread_proxy sites es (k + 1) [] chunks s1 = Ok (s', o2)" "acts = o1 @ o2"
          by (auto simp: res_simps)
        with 2(2) [OF False t no h refl refl True] handle_request_one_host [OF h] show ?thesis
          using one_host_trans by blast
      next
        case False
        with r handle_request_one_host [OF h] show ?thesis by simp
      qed
    qed
  qed
qed

text \<open>
  Property C35.  A connection opens at most one host, and everything it forwards goes to that host's
  socket, whatever hosts its later requests name.
\<close>

theorem one_host_per_connection:
  assumes "thread_proxy sites es k [] chunks init_proxy_state = Ok (s', acts)"
  shows "length (opened acts) \<le> 1 \<and> set (host_socks acts) \<subseteq> {host_sock s'}"
  using thread_proxy_one_host [OF assms] by (auto simp: one_host_def init_proxy_state_def split: if_splits)

section \<open>The forbidden sites\<close>

definition site_lines :: "string list \<Rightarrow> string" where
  "site_lines ws = concat (map (\<lambda>w. w @ [LF]) ws)"

lemma load_sites_lines:
  assumes "list_all word_ok ws" "sites_wf a" "length url < 128"
  shows "\<exists>a'. load_sites (LF # site_lines ws) url a = Ok a' \<and> sites_wf a'
    \<and> site_names a' = site_names a @ ws @ [last (url # ws)]"
  using assms
proof (induction ws arbitrary: url a)
  case Nil
  have "scan_word [LF] = ([], [])" by (simp add: scan_word_def is_space_def)
  with addSiteItem_spec [OF Nil(2,3)] show ?case by (auto simp: load_sites.simps [of "[LF]"] site_lines_def)
next
  case (Cons w ws)
  have w: "word_ok w" "length w < 128" "w \<noteq> []" using Cons(2) by (auto simp: word_ok_def)
  obtain a1 where a1: "addSiteItem a w = Ok a1" "sites_wf a1" "site_names a1 = site_names a @ [w]"
    using addSiteItem_spec [OF Cons(3) w(2)] by blast
  have "scan_word (LF # site_lines (w # ws)) = (w, LF # site_lines ws)"
    using scan_word_one [OF w(1) spaces(2)] by (simp add: scan_word_skip spaces site_lines_def)
  then have "load_sites (LF # site_lines (w # ws)) url a = load_sites (LF # site_lines ws) w a1"
    using w a1(1) by (simp add: load_sites.simps [of "LF # site_lines (w # ws)"] cstore_def)
  with Cons.IH [of a1 w] Cons(2) a1 w(2) show ?case by auto
qed

lemma load_sites_first: "is_space c \<Longrightarrow> load_sites (c # s) url a = load_sites s url a"
  by (simp add: load_sites.simps [of s] load_sites.simps [of "c # s"] scan_word_skip)

text \<open>
  Loading a list of sites, one to a line: every site of the file is in the table, in
  order, and the last one a second time; an empty file puts the unset array into it.
\<close>

lemma sites_loaded:
  assumes "list_all word_ok ws" "length url < 128"
  shows "\<exists>a. load_sites (site_lines ws) url initSitesArray = Ok a \<and> sites_wf a
    \<and> site_names a = ws @ [last (url # ws)]
    \<and> (\<forall>host. is_forbidden_from a host 0 = Ok (host \<in> set (ws @ [last (url # ws)])))"
  using load_sites_lines [OF assms(1) initSitesArray_wf(1) assms(2)] is_forbidden_names [of _ _ 0]
  by (auto simp: load_sites_first spaces initSitesArray_wf)

section \<open>Concrete instances\<close>

definition sample_env :: "string \<Rightarrow> proxy_env" where
  "sample_env resp =
    \<lparr>pe_client_ip = ''1.1.1.1'', pe_local = Some [''2.2.2.2''], pe_date = ''now'',
     pe_sec = 0, pe_usec = 999500, pe_strftime = (\<lambda>n. if n = 1 then ''1970-01-01T00:00:01'' else ''1970-01-01T00:00:00''), pe_log = True,
     pe_resolves = (\<lambda>_. True), pe_socket = 5, pe_connect = 0, pe_write = 0,
     pe_response = [resp], pe_relay = (\<lambda>_. 0)\<rparr>"

text \<open>Half a millisecond before the second ends, which rounds up to the next one.\<close>

definition sample_date :: string where
  "sample_date = ''1970-01-01T00:00:01.000Z''"

lemma sample_log_time:
  "generateLogTime (pe_strftime (sample_env r)) (pe_sec (sample_env r)) (pe_usec (sample_env r)) = Ok sample_date"
  unfolding sample_env_def proxy_env.simps by code_simp

definition sample_sites :: forbidden_sites_t where
  "sample_sites = \<lparr>sitesArray = [Some ''bad''], st_occupied = 1\<rparr>"

lemma short_words:
  "short_word ''GET''" "short_word ''/x''" "short_word ''HTTP/1.1''" "short_word ''Host:''" "short_word ''bad''"
  "short_word ''a''" "short_word ''b''" "short_word ''200''" "short_word ''OK''" "short_word ''Content-Length:''" "short_word ''0''"
  by (simp_all add: short_word_def is_space_def)

lemma sample_sites_wf: "sites_wf sample_sites" "site_names sample_sites = [''bad'']"
  by (simp_all add: sample_sites_def sites_wf_def site_names_def filled_def live_def)

theorem proxy_decides_witness:
  "handle_request (sample_env []) sample_sites (http_request ''GET'' ''/x'' ''HTTP/1.1'' [(''Host:'', ''bad'', [])]) init_proxy_state =
    Ok (init_proxy_state,
      [Log (log_line sample_date ''1.1.1.1'' (request_line ''GET'' ''/x'' ''HTTP/1.1'') ''403'' 0), Send_client (zbuf 1024 (error_text ''now'' 403 ''HTTP/1.1''))],
      False)"
proof -
  have "request_ok ''GET'' ''/x'' ''HTTP/1.1'' [(''Host:'', ''bad'', [])]"
    by (simp add: request_ok_def short_words)
  moreover have "pe_log (sample_env [])" "length (pe_date (sample_env [])) < 50" "pe_date (sample_env []) = ''now''"
    by (simp_all add: sample_env_def)
  moreover have ip: "pe_client_ip (sample_env []) = ''1.1.1.1''" by (simp add: sample_env_def)
  moreover have "host_values [(''Host:'', ''bad'', [])] = [''bad'']" by (simp add: host_values_def)
  ultimately show ?thesis
    using proxy_decides [of "''GET''" "''/x''" "''HTTP/1.1''" "[(''Host:'', ''bad'', [])]" sample_sites "sample_env []"
        sample_date init_proxy_state] sample_sites_wf sample_log_time [of "[]"] ip
    by simp
qed

lemma long_target_instance:
  "handle_request (sample_env []) sample_sites
     (http_request ''GET'' (replicate 32 CHR ''x'') ''HTTP/1.1'' [(''Host:'', ''a'', [])]) init_proxy_state = ub Out_Of_Bounds"
proof -
  let ?t = "replicate 32 CHR ''x''"
  have "\<forall>c \<in> set ?t. \<not> is_space c" "32 \<le> length ?t" "no_nul (request_line ''GET'' ?t ''HTTP/1.1'')"
    "length (request_line ''GET'' ?t ''HTTP/1.1'') < 128"
    by (simp_all add: is_space_def request_line_def no_nul_def)
  then show ?thesis
    by (intro long_target_overruns) (simp_all add: short_words)
qed

definition sample_response :: string where
  "sample_response = http_response ''HTTP/1.1'' ''200'' ''OK'' [] [(''Content-Length:'', ''0'', [])] []"

lemma sample_response_facts: "no_nul sample_response" "length sample_response < 1024" "length sample_response \<le> 1024"
  by (simp_all add: sample_response_def http_response_def request_line_def header_text_def crlf_def)

definition sample_page :: string where
  "sample_page = http_response ''HTTP/1.1'' ''200'' ''OK'' [] [] ''hi''"

lemma sample_page_facts: "no_nul sample_page" "length sample_page < 1024" "length sample_page \<le> 1024" "body_ok ''hi''"
  by (simp_all add: sample_page_def http_response_def request_line_def header_text_def crlf_def body_ok_def scan_word_def
      is_space_def TEMP_SIZE_def)

abbreviation sample_request :: string where
  "sample_request \<equiv> http_request ''GET'' ''/x'' ''HTTP/1.1'' [(''Host:'', ''a'', [])]"

abbreviation sample_line :: string where
  "sample_line \<equiv> request_line ''GET'' ''/x'' ''HTTP/1.1''"

lemma sample_fits: "length sample_request + length (forward_text ''1.1.1.1'' ''2.2.2.2'') < 2050"
  by (simp add: forward_text_def crlf_def http_request_def request_line_def header_text_def)

text \<open>
  The first request of a connection, whose response declares its length, and one on a connection
  that has its host, whose response does not.
\<close>

theorem forward_exact_witness:
  "forward_request (sample_env sample_response) sample_request sample_line ''HTTP/1.1'' ''a'' True init_proxy_state =
    Ok (\<lparr>host_sock = 5, forwardstr = forward_text ''1.1.1.1'' ''2.2.2.2'', log_responsecode = Some ''200''\<rparr>,
        [Open_host ''a'',
         Send_host 5 (zbuf 2048 (sample_line @ header_text [(''Host:'', ''a'', [])] @ crlf @ forward_text ''1.1.1.1'' ''2.2.2.2'')),
         Log (log_line sample_date ''1.1.1.1'' sample_line ''200'' 0),
         Send_client (zbuf 1024 sample_response)], True)
   \<and> forward_request (sample_env sample_page\<lparr>pe_response := [sample_page, ''you'']\<rparr>) sample_request sample_line ''HTTP/1.1'' ''b'' True
        \<lparr>host_sock = 5, forwardstr = forward_text ''1.1.1.1'' ''2.2.2.2'', log_responsecode = Some ''404''\<rparr> =
    Ok (\<lparr>host_sock = 5, forwardstr = forward_text ''1.1.1.1'' ''2.2.2.2'', log_responsecode = Some ''200''\<rparr>,
        [Send_host 5 (zbuf 2048 (sample_line @ header_text [(''Host:'', ''a'', [])] @ crlf @ forward_text ''1.1.1.1'' ''2.2.2.2'')),
         Send_client (zbuf 1024 sample_page), Send_client (zbuf 1024 ''you''),
         Log (log_line sample_date ''1.1.1.1'' sample_line ''200'' 5)], True)"
    (is "?first \<and> ?second")
proof
  let ?e = "sample_env sample_response"
  let ?f = "forward_text ''1.1.1.1'' ''2.2.2.2''"
  let ?s1 = "init_proxy_state\<lparr>host_sock := 5, forwardstr := ?f\<rparr>"
  have ready: "host_ready ?e ''a'' init_proxy_state = Some (?s1, [Open_host ''a''])"
    by (simp add: host_ready_def init_proxy_state_def sample_env_def forward_text_def crlf_def)
  have e: "0 \<le> pe_write ?e" "pe_log ?e" "\<forall>j. 0 \<le> pe_relay ?e j" "pe_response ?e = [sample_response]" "pe_client_ip ?e = ''1.1.1.1''"
    by (simp_all add: sample_env_def)
  have fits: "length sample_request + length (forwardstr ?s1) < 2050" using sample_fits by simp
  have r: "[] = [] \<or> is_space (hd [])" "CR \<notin> set []" "length ''200'' < 8" "[] \<notin> set ([] :: char list list)"
    "list_all header_ok (looked_at [(''Content-Length:'', ''0'', [])])"
    "declared [(''Content-Length:'', ''0'', [])] = None \<Longrightarrow> body_ok []"
    by (simp_all add: short_words looked_at_def declared_def)
  have "atol ''0'' = 0" by (simp add: atol_def strtol_def is_space_def is_digit_def digit_val_def clamp_long_def)
  then show ?first
    using forward_exact [OF ready e(1-3) fits short_words(3,8) r(3) short_words(9) r(1,2,5,6)
        sample_response_def sample_response_facts(1,3) e(4) r(4) sample_log_time, of sample_line True] sample_response_facts(2)
    by (simp add: init_proxy_state_def declared_def e(5))
next
  let ?e = "sample_env sample_page\<lparr>pe_response := [sample_page, ''you'']\<rparr>"
  let ?f = "forward_text ''1.1.1.1'' ''2.2.2.2''"
  let ?s = "\<lparr>host_sock = 5, forwardstr = ?f, log_responsecode = Some ''404''\<rparr>"
  have ready: "host_ready ?e ''b'' ?s = Some (?s, [])" by (simp add: host_ready_def)
  have e: "0 \<le> pe_write ?e" "pe_log ?e" "\<forall>j. 0 \<le> pe_relay ?e j" "pe_response ?e = [sample_page, ''you'']" "pe_client_ip ?e = ''1.1.1.1''"
    by (simp_all add: sample_env_def)
  have fits: "length sample_request + length (forwardstr ?s) < 2050" using sample_fits by simp
  have r: "[] = [] \<or> is_space (hd [])" "CR \<notin> set []" "length ''200'' < 8" "[] \<notin> set [''you'']"
    "list_all header_ok (looked_at [])" "declared [] = None" "list_all ends_in_block [''you'']" "text_bytes ''you'' = 3"
    by (simp_all add: looked_at_def declared_def ends_in_block_def text_bytes_def)
  have time: "generateLogTime (pe_strftime ?e) (pe_sec ?e) (pe_usec ?e) = Ok sample_date"
    using sample_log_time [of sample_page] by simp
  show ?second
    using forward_exact [OF ready e(1-3) fits short_words(3,8) r(3) short_words(9) r(1,2,5) sample_page_facts(4)
        sample_page_def sample_page_facts(1,3) e(4) r(4) time, of sample_line True] sample_page_facts(2) r(6-8)
    by (simp add: e(5))
qed

theorem one_host_per_connection_witness:
  "\<exists>s acts. thread_proxy sample_sites (\<lambda>_. sample_env sample_response) 0 []
       [http_request ''GET'' ''/x'' ''HTTP/1.1'' [(''Host:'', ''a'', [])],
        http_request ''GET'' ''/x'' ''HTTP/1.1'' [(''Host:'', ''b'', [])]] init_proxy_state = Ok (s, acts)
     \<and> opened acts = [''a''] \<and> host_socks acts = [5, 5]
     \<and> length (opened acts) \<le> 1 \<and> set (host_socks acts) \<subseteq> {host_sock s}"
proof -
  let ?run = "thread_proxy sample_sites (\<lambda>_. sample_env sample_response) 0 []
       [http_request ''GET'' ''/x'' ''HTTP/1.1'' [(''Host:'', ''a'', [])],
        http_request ''GET'' ''/x'' ''HTTP/1.1'' [(''Host:'', ''b'', [])]] init_proxy_state"
  have run: "(case ?run of Inr (s, acts) \<Rightarrow> opened acts = [''a''] \<and> host_socks acts = [5, 5] | Inl _ \<Rightarrow> False)"
    by code_simp
  then obtain s acts where r: "?run = Ok (s, acts)" by (cases ?run) auto
  have "opened acts = [''a''] \<and> host_socks acts = [5, 5]" using run unfolding r by simp
  with one_host_per_connection [OF r] r show ?thesis by blast
qed

lemma sites_loaded_instance:
  "\<exists>a. load_sites ''x.com
y.com
'' [] initSitesArray = Ok a \<and> site_names a = [''x.com'', ''y.com'', ''y.com'']"
  using sites_loaded [of "[''x.com'', ''y.com'']" "[]"]
  by (auto simp: site_lines_def word_ok_def is_space_def)

end
