(* ===== verification/Hw5_Serve.thy ===== *)
theory Hw5_Serve
  imports Hw5_Spec
begin

text \<open>
  The connections of \<^verbatim>\<open>hw5/proxy.c\<close>: a thread's whole life, its reading loop against the requests a
  client sends, and the accept loop that hands the threads their descriptors.
\<close>

section \<open>Reading requests\<close>












section \<open>Requests that share a read\<close>






section \<open>A connection's thread\<close>

text \<open>
  The thread of the connection \<open>server_sock\<close>: the client's address, the loop over what it reads, and
  the descriptors closed at the end (a host's socket numbered zero apart, which the loop's end leaves
  open).
\<close>

definition proxy_thread ::
    "(int \<Rightarrow> string option) \<Rightarrow> forbidden_sites_t \<Rightarrow> (nat \<Rightarrow> proxy_env) \<Rightarrow> char list list \<Rightarrow> int \<Rightarrow>
      (proxy_action list \<times> int list) res" where
  "proxy_thread getpeername sites es chunks server_sock =
    res_bind (getclientIP getpeername server_sock) (\<lambda>client_ip.
    res_bind (thread_proxy sites (\<lambda>k. es k\<lparr>pe_client_ip := client_ip\<rparr>) 0 [] chunks init_proxy_state) (\<lambda>(s, acts).
      Ok (acts, server_sock # (if 0 < host_sock s then [host_sock s] else []))))"

section \<open>The accept loop\<close>

text \<open>
  Every pass of the loop declares \<open>server_sock\<close> in the same place, stores there what \<open>accept\<close>
  returns, also when it fails, and hands a new thread its address: the variable, the threads that have
  not read it yet, and the connections threads have begun to serve.
\<close>

record proxy_loop =
  server_sock :: int
  pending :: nat
  begun :: "int list"

definition proxy_loop_start :: proxy_loop where
  "proxy_loop_start = \<lparr>server_sock = 0, pending = 0, begun = []\<rparr>"

datatype proxy_event =
    Accept_returns int int     \<comment> \<open>the results of \<open>accept\<close> and \<open>pthread_create\<close>\<close>
  | Handler_reads int          \<comment> \<open>the result of \<open>pthread_detach\<close>\<close>

text \<open>
  A thread's first step: it reads the variable and asks for the address of its client.  \<open>exit\<close> ends
  the program without a message.
\<close>

definition thread_handler :: "(int \<Rightarrow> string option) \<Rightarrow> int \<Rightarrow> proxy_loop \<Rightarrow> proxy_loop res" where
  "thread_handler getpeername detach_ret s =
    (if pending s = 0 then Ok s
     else if detach_ret \<noteq> 0 then Inl (Exit [])
     else res_bind (getclientIP getpeername (server_sock s)) (\<lambda>_.
       Ok (s\<lparr>pending := pending s - 1, begun := begun s @ [server_sock s]\<rparr>)))"

fun proxy_loop_step :: "(int \<Rightarrow> string option) \<Rightarrow> proxy_event \<Rightarrow> proxy_loop \<Rightarrow> proxy_loop res" where
  "proxy_loop_step getpeername (Accept_returns fd create_ret) s =
    res_bind (proxy_accept fd create_ret) (\<lambda>accepted.
      Ok (s\<lparr>server_sock := fd, pending := pending s + (case accepted of None \<Rightarrow> 0 | Some _ \<Rightarrow> 1)\<rparr>))"
| "proxy_loop_step getpeername (Handler_reads detach_ret) s = thread_handler getpeername detach_ret s"

fun proxy_loop_run :: "(int \<Rightarrow> string option) \<Rightarrow> proxy_event list \<Rightarrow> proxy_loop \<Rightarrow> proxy_loop res" where
  "proxy_loop_run getpeername [] s = Ok s"
| "proxy_loop_run getpeername (ev # evs) s =
    res_bind (proxy_loop_step getpeername ev s) (proxy_loop_run getpeername evs)"

text \<open>Every thread reads its descriptor before \<open>accept\<close> returns again, and its client is still there.\<close>

fun undisturbed :: "(int \<Rightarrow> string option) \<Rightarrow> proxy_event list \<Rightarrow> bool" where
  "undisturbed getpeername [] = True"
| "undisturbed getpeername (Accept_returns fd ret # evs) =
    (if fd < 0 then undisturbed getpeername evs
     else ret = 0 \<and> getpeername fd \<noteq> None
       \<and> (case evs of Handler_reads d # evs' \<Rightarrow> d = 0 \<and> undisturbed getpeername evs' | _ \<Rightarrow> False))"
| "undisturbed getpeername (Handler_reads d # evs) = undisturbed getpeername evs"

fun connections :: "proxy_event list \<Rightarrow> int list" where
  "connections [] = []"
| "connections (Accept_returns fd ret # evs) = (if fd < 0 then connections evs else fd # connections evs)"
| "connections (Handler_reads d # evs) = connections evs"

lemma undisturbed_serves:
  "undisturbed getpeername evs \<Longrightarrow> pending s = 0 \<Longrightarrow>
    \<exists>s'. proxy_loop_run getpeername evs s = Ok s' \<and> begun s' = begun s @ connections evs \<and> pending s' = 0"
proof (induction getpeername evs arbitrary: s rule: undisturbed.induct)
  case (2 getpeername fd ret evs)
  show ?case
  proof (cases "fd < 0")
    case True
    with 2(1) [OF True, of "s\<lparr>server_sock := fd, pending := 0\<rparr>"] 2(3,4) show ?thesis by (simp add: proxy_accept_def)
  next
    case False
    with 2(3) obtain evs' where e: "ret = 0" "getpeername fd \<noteq> None" "evs = Handler_reads 0 # evs'" "undisturbed getpeername evs'"
      by (auto split: list.splits proxy_event.splits)
    from e(2) obtain a where "getpeername fd = Some a" by blast
    with 2(2) [OF False e(3) refl e(4), of "s\<lparr>server_sock := fd, pending := 0, begun := begun s @ [fd]\<rparr>"] 2(4) e False show ?thesis
      by (auto simp: proxy_accept_def thread_handler_def getclientIP_def)
  qed
next
  case (3 getpeername evs)
  then show ?case by (simp add: thread_handler_def)
qed simp

text \<open>
  A thread that finds its client gone, or a failed \<open>accept\<close>'s result in its variable, ends the
  program, for every client.
\<close>

lemma late_thread_ends_proxy:
  assumes "0 < pending s" "fd < 0" "getpeername fd = None"
  shows "proxy_loop_run getpeername [Accept_returns fd ret, Handler_reads 0] s = failHandler ''create socket error!''"
  using assms by (simp add: proxy_accept_def thread_handler_def getclientIP_def failHandler_def)

lemma gone_client_ends_proxy:
  assumes "pending s = 0" "0 \<le> fd" "getpeername fd = None"
  shows "proxy_loop_run getpeername [Accept_returns fd 0, Handler_reads 0] s = failHandler ''create socket error!''"
  using assms by (simp add: proxy_accept_def thread_handler_def getclientIP_def failHandler_def)

section \<open>Properties\<close>



section \<open>Concrete instances\<close>





end
