(* ===== verification/C_Lines.thy ===== *)
theory C_Lines
  imports C_String
begin

text \<open>
  \<open>fgets\<close> on a stream whose remaining text is known: one line, the text behind it, and whether
  the end of the stream was met.  A call that meets the end without a character returns NULL and
  leaves its array alone; here its line is empty.
\<close>

fun take_line :: "nat \<Rightarrow> string \<Rightarrow> string \<times> string \<times> bool" where
  "take_line 0 s = ([], s, False)"
| "take_line (Suc k) [] = ([], [], True)"
| "take_line (Suc k) (c # s) =
    (if c = CHR 0x0A then ([c], s, False)
     else case take_line k s of (l, r, eof) \<Rightarrow> (c # l, r, eof))"

definition fgets :: "nat \<Rightarrow> string \<Rightarrow> string \<times> string \<times> bool" where
  "fgets n s = take_line (n - 1) s"

text \<open>A line and the text behind it make up the text.\<close>

lemma take_line_split: "take_line k s = (l, r, eof) \<Longrightarrow> s = l @ r"
proof (induction k s arbitrary: l rule: take_line.induct)
  case (3 k c s)
  then show ?case by (cases "take_line k s") (auto split: if_splits)
qed auto

lemma take_line_eof: "take_line k s = (l, r, eof) \<Longrightarrow> eof \<Longrightarrow> r = []"
proof (induction k s arbitrary: l rule: take_line.induct)
  case (3 k c s)
  then show ?case by (cases "take_line k s") (auto split: if_splits)
qed auto

lemma take_line_nonempty: "take_line k s = (l, r, eof) \<Longrightarrow> 0 < k \<Longrightarrow> l = [] \<longleftrightarrow> s = []"
  by (cases k; cases s; cases "take_line (k - 1) (tl s)") (auto split: if_splits)

lemma take_line_length: "take_line k s = (l, r, eof) \<Longrightarrow> length l \<le> k"
proof (induction k s arbitrary: l rule: take_line.induct)
  case (3 k c s)
  then show ?case by (cases "take_line k s") (auto split: if_splits)
qed auto

lemma take_line_shorter:
  assumes "(l, r, eof) = take_line k s" "0 < k" "\<not> eof"
  shows "length r < length s"
proof -
  have t: "take_line k s = (l, r, eof)" using assms(1) by simp
  have "s \<noteq> []" using t assms(2,3) by (cases k) auto
  with take_line_nonempty [OF t assms(2)] take_line_split [OF t] show ?thesis by auto
qed

lemma fgets_split: "fgets n s = (l, r, eof) \<Longrightarrow> s = l @ r"
  by (auto simp: fgets_def dest: take_line_split)

lemma fgets_eof: "fgets n s = (l, r, True) \<Longrightarrow> r = []"
  by (auto simp: fgets_def dest: take_line_eof)

lemma fgets_nonempty: "fgets n s = (l, r, eof) \<Longrightarrow> 1 < n \<Longrightarrow> l = [] \<longleftrightarrow> s = []"
  by (auto simp: fgets_def dest: take_line_nonempty)

lemma fgets_shorter: "(l, r, eof) = fgets n s \<Longrightarrow> 1 < n \<Longrightarrow> \<not> eof \<Longrightarrow> length r < length s"
  by (simp add: fgets_def take_line_shorter)

lemma fgets_length: "fgets n s = (l, r, eof) \<Longrightarrow> length l \<le> n - 1"
  by (auto simp: fgets_def dest: take_line_length)

text \<open>A line that fits is read whole.\<close>

lemma take_line_whole:
  "CHR 0x0A \<notin> set w \<Longrightarrow> length w < k \<Longrightarrow> take_line k (w @ CHR 0x0A # r) = (w @ [CHR 0x0A], r, False)"
proof (induction w arbitrary: k)
  case Nil
  then show ?case by (cases k) auto
next
  case (Cons c w)
  then show ?case by (cases k) auto
qed

lemma fgets_whole:
  "CHR 0x0A \<notin> set w \<Longrightarrow> length w + 1 < n \<Longrightarrow> fgets n (w @ CHR 0x0A # r) = (w @ [CHR 0x0A], r, False)"
  by (simp add: fgets_def take_line_whole)

text \<open>So is a last line without a newline; then the end of the stream is met.\<close>

lemma take_line_last: "CHR 0x0A \<notin> set w \<Longrightarrow> length w < k \<Longrightarrow> take_line k w = (w, [], True)"
proof (induction w arbitrary: k)
  case Nil
  then show ?case by (cases k) auto
next
  case (Cons c w)
  then show ?case by (cases k) auto
qed

lemma fgets_last: "CHR 0x0A \<notin> set w \<Longrightarrow> length w + 1 < n \<Longrightarrow> fgets n w = (w, [], True)"
  by (simp add: fgets_def take_line_last)

end
