(* ===== verification/Hw1_Fetch.thy ===== *)
theory Hw1_Fetch
  imports C_Lines Pro_Util
begin

text \<open>
  \<^verbatim>\<open>hw1/hw1.c\<close>, the HTTP client: the arguments, the parts of the URL, the request, the file
  the response is saved in and the removal of its header.  A message on \<open>stderr\<close> followed by the
  return of -1 is the stop \<open>Exit\<close>, as in the other programs.
\<close>

section \<open>The arguments\<close>

text \<open>The address and whether only the header is asked for.\<close>

definition check_args :: "(string \<Rightarrow> int) \<Rightarrow> string list \<Rightarrow> (string \<times> bool) res" where
  "check_args inet_pton argv =
    (let argc = length argv
     in if argc < 3 \<or> argc > 4 then failHandler ''Please input as instruction!''
        else if argc = 4 \<and> argv ! 3 \<noteq> ''-h''
        then failHandler ''Please input correct command, \"-h\" at the end for head request!''
        else if isValidIP inet_pton (argv ! 1) = 0 then failHandler ''Please input legal IP address!''
        else res_bind (cstore 16 (argv ! 1)) (\<lambda>ipaddr. Ok (ipaddr, argc = 4)))"

section \<open>The URL\<close>

text \<open>\<open>temp\<close>: what follows the seven characters of the scheme, if the scheme occurs anywhere.\<close>

definition url_temp :: "string \<Rightarrow> string res" where
  "url_temp url =
    (if 4096 < length url then failHandler ''URL is too long!''
     else cstore 4096 (if strstr url ''http://'' \<noteq> None then drop 7 url else url))"

text \<open>
  Host, port and target.  After \<open>strtok(temp, ":")\<close> the string in \<open>temp\<close> ends where the token
  does.
\<close>

definition parse_url :: "string \<Rightarrow> (string \<times> int \<times> string) res" where
  "parse_url url =
    res_bind (url_temp url) (\<lambda>temp.
      case strstr temp '':'' of
        None \<Rightarrow>
          if strstr temp ''/'' \<noteq> None
          then (case strtok ''/'' temp of (h, rest) \<Rightarrow>
                res_bind (deref h) (\<lambda>h. res_bind (cstore 512 h) (\<lambda>host.
                  case strtok [] rest of (t, rest') \<Rightarrow>
                    (case t of None \<Rightarrow> Ok (host, 80, [])
                             | Some t \<Rightarrow> res_bind (cstore 3584 t) (\<lambda>target. Ok (host, 80, target))))))
          else res_bind (cstore 512 temp) (\<lambda>host. Ok (host, 80, []))
      | Some isPort \<Rightarrow>
          if 2 < length isPort \<and> is_digit (isPort ! 1)
          then (case strtok '':'' temp of (h, rest) \<Rightarrow>
                res_bind (deref h) (\<lambda>h. res_bind (cstore 512 h) (\<lambda>host.
                  let temp' = takeWhile (\<lambda>c. c = CHR '':'') temp @ h
                  in if strstr temp' ''/'' \<noteq> None
                     then (case strtok ''/'' rest of (p, rest') \<Rightarrow>
                           res_bind (deref p) (\<lambda>p. case strtok [] rest' of (t, rest'') \<Rightarrow>
                             res_bind (deref t) (\<lambda>t. res_bind (cstore 3584 t) (\<lambda>target.
                               Ok (host, atoi p, target)))))
                     else (case strtok [] rest of (p, rest') \<Rightarrow>
                           res_bind (deref p) (\<lambda>p. Ok (host, atoi p, []))))))
          else failHandler ''Illegal port number!'')"

section \<open>The request\<close>

definition http_lines :: "string \<Rightarrow> string \<Rightarrow> string \<Rightarrow> string" where
  "http_lines verb target host =
    verb @ '' /'' @ target @ '' HTTP/1.1'' @ [CHR 0x0D, CHR 0x0A] @ ''Host: '' @ host
      @ [CHR 0x0D, CHR 0x0A, CHR 0x0D, CHR 0x0A]"

definition build_request :: "bool \<Rightarrow> string \<Rightarrow> string \<Rightarrow> char list res" where
  "build_request need_head target host =
    res_bind (cstore 4128 (http_lines (if need_head then ''HEAD'' else ''GET'') target host)) (\<lambda>request.
      Ok (zbuf 4128 request))"

text \<open>The address connected to, with the port in 16 bits, and the bytes sent.\<close>

definition send_request ::
    "(string \<Rightarrow> 32 word) \<Rightarrow> int \<Rightarrow> int \<Rightarrow> int \<Rightarrow> string \<Rightarrow> bool \<Rightarrow> string \<Rightarrow> (32 word \<times> 16 word \<times> char list) res" where
  "send_request inet_addr fd conn wrote ipaddr need_head url =
    res_bind (parse_url url) (\<lambda>(host, port, target).
    res_bind (build_request need_head target host) (\<lambda>request.
      if fd < 0 then failHandler ''Fail: cannot create socket!''
      else if conn < 0 then failHandler ''Fail: cannot make connection!''
      else if wrote < 0 then failHandler ''Fail: cannot send request!''
      else Ok (inet_addr ipaddr, word_of_int port, request)))"

section \<open>The response\<close>

text \<open>A read of at most 1023 bytes as \<open>printf("%s", buf)\<close> prints it.\<close>

definition printed :: "char list \<Rightarrow> string" where
  "printed chunk = takeWhile (\<lambda>c. c \<noteq> NUL) chunk"

fun show_head :: "char list list \<Rightarrow> string" where
  "show_head [] = []"
| "show_head (chunk # chunks) = (if chunk = [] then [] else printed chunk @ show_head chunks)"

text \<open>What \<^verbatim>\<open>output.dat\<close> receives; \<open>clock k\<close> is the processor time after read \<open>k\<close>.\<close>

fun save_response :: "int \<Rightarrow> (nat \<Rightarrow> int) \<Rightarrow> nat \<Rightarrow> char list list \<Rightarrow> string" where
  "save_response start clock k [] = []"
| "save_response start clock k (chunk # chunks) =
    (if chunk = [] then []
     else printed chunk @ (if start - clock k > 240 then [] else save_response start clock (k + 1) chunks))"

text \<open>
  The loop that copies the body to \<^verbatim>\<open>output2.dat\<close>.  \<open>line\<close> is the array of 4096 bytes: not
  initialised before the first line, unchanged by a call of \<open>fgets\<close> that finds no character.
\<close>

function copy_body :: "string \<Rightarrow> string option \<Rightarrow> bool \<Rightarrow> string res" where
  "copy_body content line isBody =
    (case fgets 4096 content of (l, rest, eof) \<Rightarrow>
       case (if l = [] then line else Some l) of
         None \<Rightarrow> ub Uninitialised
       | Some line' \<Rightarrow>
           let out = (if isBody then line' else []);
               isBody' = (isBody \<or> strstr line' [CHR 0x0D, CHR 0x0A] \<noteq> None \<and> line' ! 0 = CHR 0x0D)
           in if eof then Ok out
              else res_bind (copy_body rest (Some line') isBody') (\<lambda>out'. Ok (out @ out')))"
  by pat_completeness auto
termination
  by (relation "measure (\<lambda>(content, line, isBody). length content)") (auto dest: fgets_shorter)

declare copy_body.simps [simp del]

text \<open>Both files of a GET, and what a HEAD prints.\<close>

definition receive_get :: "bool \<Rightarrow> bool \<Rightarrow> int \<Rightarrow> (nat \<Rightarrow> int) \<Rightarrow> char list list \<Rightarrow> (string \<times> string) res" where
  "receive_get can_open can_open2 start clock chunks =
    (if \<not> can_open then failHandler ''Fail: cannot open target file!''
     else let content = save_response start clock 0 chunks
          in if \<not> can_open2 then failHandler ''Fail: cannot remove head in output file!''
             else res_bind (copy_body content None False) (\<lambda>body. Ok (content, body)))"

text \<open>
  \<open>main\<close>: the address, the port and the bytes sent, and what is printed for a HEAD or written to
  the two files for a GET.
\<close>

definition http_main ::
    "(string \<Rightarrow> int) \<Rightarrow> (string \<Rightarrow> 32 word) \<Rightarrow> string list \<Rightarrow> int \<Rightarrow> int \<Rightarrow> int \<Rightarrow> bool \<Rightarrow> bool \<Rightarrow> int \<Rightarrow> (nat \<Rightarrow> int) \<Rightarrow>
      char list list \<Rightarrow> ((32 word \<times> 16 word \<times> char list) \<times> (string + string \<times> string)) res" where
  "http_main inet_pton inet_addr argv fd conn wrote can_open can_open2 start clock chunks =
    res_bind (check_args inet_pton argv) (\<lambda>(ipaddr, need_head).
    res_bind (send_request inet_addr fd conn wrote ipaddr need_head (argv ! 2)) (\<lambda>sent.
      if need_head then Ok (sent, Inl (show_head chunks))
      else res_bind (receive_get can_open can_open2 start clock chunks) (\<lambda>files. Ok (sent, Inr files))))"

section \<open>Lemmas on strtok and strstr\<close>

lemma strstr_char: "strstr s [c] = None \<longleftrightarrow> c \<notin> set s"
  by (induction s) auto

lemma strtok_all: "strtok [] s = (if s = [] then None else Some s, [])"
proof -
  have "dropWhile (\<lambda>c. True) s = []" by (induction s) auto
  then show ?thesis by (simp add: strtok_def del: dropWhile_eq_Nil_conv)
qed

lemma strtok_first:
  assumes "t \<noteq> []" "d \<notin> set t"
  shows "strtok [d] (t @ d # s) = (Some t, s)" "strtok [d] t = (Some t, [])"
  using strtok_token [of t "[d]" d s] strtok_last [of t "[d]"] assms by auto

section \<open>The URL's parts\<close>

lemma strstr_start: "strstr (p @ s) p = Some (p @ s)"
proof (cases "p @ s")
  case (Cons c r)
  have "take (length p) (p @ s) = p" by simp
  with Cons show ?thesis by simp
qed simp

lemma url_temp_scheme: "length s < 4090 \<Longrightarrow> url_temp (''http://'' @ s) = Ok s"
  using strstr_start [of "''http://''" s] by (simp add: url_temp_def cstore_def)

text \<open>
  The parts of a URL: without a port, host and path are taken apart at the first
  slash, and the port is 80; with a port the path is lost, since by then the text searched for a
  slash ends with the host.
\<close>

lemma url_parts:
  assumes "h \<noteq> []" "CHR '':'' \<notin> set h" "CHR ''/'' \<notin> set h" "CHR '':'' \<notin> set p"
    and "length h < 512" "length p < 3000" "0 \<le> n" "fits_int32 n"
  shows "parse_url (''http://'' @ h @ ''/'' @ p) = Ok (h, 80, p)
    \<and> parse_url (''http://'' @ h) = Ok (h, 80, [])
    \<and> parse_url (''http://'' @ h @ '':'' @ show_int n @ ''/'' @ p) = Ok (h, n, [])"
proof (intro conjI)
  have no: "strstr s [c] = None" if "c \<notin> set s" for s c using that strstr_char by simp
  have slash: "strstr (h @ CHR ''/'' # p) ''/'' \<noteq> None"
    using strstr_char [of "h @ CHR ''/'' # p"] by simp
  show "parse_url (''http://'' @ h @ ''/'' @ p) = Ok (h, 80, p)"
    using assms slash strtok_first(1) [OF assms(1,3), of p] url_temp_scheme [of "h @ ''/'' @ p"]
    by (simp add: parse_url_def no strtok_all cstore_def)
  show "parse_url (''http://'' @ h) = Ok (h, 80, [])"
    using assms url_temp_scheme [of h] by (simp add: parse_url_def no cstore_def)
  let ?r = "show_int n @ ''/'' @ p"
  have len: "length (show_int n) \<le> 11" using assms(8) length_show_int32 by simp
  obtain d s where ds: "show_int n = d # s" "is_digit d"
    using show_nat_hd [of "nat n"] assms(7) by (auto simp: show_int_def)
  have port: "strstr (h @ CHR '':'' # ?r) '':'' = Some (CHR '':'' # ?r)"
    using assms(2) by (induction h) auto
  have num: "atoi ?r = n"
    using strtol_show_int [of n "''/'' @ p"] assms(8)
    by (simp add: atoi_def to_int32_id fits_int32_def fits_int64_def is_digit_def)
  have "takeWhile (\<lambda>c. c = CHR '':'') (h @ CHR '':'' # ?r) = []"
    using assms(1,2) by (cases h) auto
  then show "parse_url (''http://'' @ h @ '':'' @ show_int n @ ''/'' @ p) = Ok (h, n, [])"
    using assms len port num ds strtok_first(1) [OF assms(1,2), of ?r] url_temp_scheme [of "h @ CHR '':'' # ?r"]
    by (simp add: parse_url_def no strtok_all cstore_def)
qed

section \<open>The request fits its array\<close>

lemma url_temp_bound: "url_temp url = Ok temp \<Longrightarrow> length temp < 4096"
  by (auto simp: url_temp_def cstore_Ok_iff failHandler_def split: if_splits)

lemma parse_url_bounds:
  assumes "parse_url url = Ok (host, port, target)"
  shows "length host < 512 \<and> length target < 3584"
proof -
  obtain temp where t: "url_temp url = Ok temp" using assms by (auto simp: parse_url_def res_simps)
  show ?thesis
  proof (cases "strstr temp '':''")
    case None
    with assms t url_temp_bound [OF t] show ?thesis
      by (auto simp: parse_url_def res_simps cstore_Ok_iff deref_Ok_iff strtok_all split: if_splits prod.splits option.splits)
  next
    case (Some r)
    with assms t show ?thesis
      by (auto simp: parse_url_def res_simps cstore_Ok_iff deref_Ok_iff failHandler_def Let_def strtok_all
          split: if_splits prod.splits)
  qed
qed

text \<open>
  Property C38.  Whatever URL the program accepts, its request fits the array of 4128 bytes, and
  what is sent is the request line, the Host header and an empty line, padded with zero bytes.
\<close>

theorem request_fits:
  assumes "parse_url url = Ok (host, port, target)" "0 \<le> fd" "0 \<le> conn" "0 \<le> wrote"
  shows "send_request inet_addr fd conn wrote ipaddr need_head url =
    Ok (inet_addr ipaddr, word_of_int port,
        zbuf 4128 (http_lines (if need_head then ''HEAD'' else ''GET'') target host))"
proof -
  have "length (http_lines (if need_head then ''HEAD'' else ''GET'') target host) < 4128"
    using parse_url_bounds [OF assms(1)] by (simp add: http_lines_def)
  with assms show ?thesis by (simp add: send_request_def build_request_def cstore_def)
qed

section \<open>The body\<close>

definition body_lines :: "string list \<Rightarrow> string" where
  "body_lines ws = concat (map (\<lambda>w. w @ [CHR 0x0A]) ws)"

definition head_lines :: "string list \<Rightarrow> string" where
  "head_lines hs = concat (map (\<lambda>h. h @ [CHR 0x0D, CHR 0x0A]) hs)"

definition line_ok :: "string \<Rightarrow> bool" where
  "line_ok w \<longleftrightarrow> CHR 0x0A \<notin> set w \<and> length w < 4094"

definition head_ok :: "string \<Rightarrow> bool" where
  "head_ok h \<longleftrightarrow> CHR 0x0A \<notin> set h \<and> length h < 4093 \<and> h \<noteq> [] \<and> hd h \<noteq> CHR 0x0D"

lemma body_lines_simps: "body_lines [] = []" "body_lines (w # ws) @ e = w @ CHR 0x0A # body_lines ws @ e"
  by (simp_all add: body_lines_def)

lemma copy_body_rest:
  "list_all line_ok ws \<Longrightarrow> line_ok e \<Longrightarrow>
    copy_body (body_lines ws @ e) (Some line) True =
      Ok (body_lines ws @ e @ (if e = [] then last (line # map (\<lambda>w. w @ [CHR 0x0A]) ws) else []))"
proof (induction ws arbitrary: line)
  case Nil
  then have "fgets 4096 e = (e, [], True)" by (intro fgets_last) (auto simp: line_ok_def)
  then show ?case by (simp add: copy_body.simps [of e] body_lines_simps)
next
  case (Cons w ws)
  then have "fgets 4096 (w @ CHR 0x0A # body_lines ws @ e) = (w @ [CHR 0x0A], body_lines ws @ e, False)"
    by (intro fgets_whole) (auto simp: line_ok_def)
  with Cons show ?case
    by (simp add: copy_body.simps [of "w @ CHR 0x0A # body_lines ws @ e"] body_lines_simps)
qed

lemma copy_body_head:
  assumes "head_ok h"
  shows "copy_body (h @ [CHR 0x0D, CHR 0x0A] @ r) line False = copy_body r (Some (h @ [CHR 0x0D, CHR 0x0A])) False"
proof -
  have "fgets 4096 ((h @ [CHR 0x0D]) @ CHR 0x0A # r) = ((h @ [CHR 0x0D]) @ [CHR 0x0A], r, False)"
    using assms by (intro fgets_whole) (auto simp: head_ok_def)
  moreover have "(h @ [CHR 0x0D, CHR 0x0A]) ! 0 \<noteq> CHR 0x0D" using assms by (cases h) (auto simp: head_ok_def)
  ultimately show ?thesis
    by (simp add: copy_body.simps [of "h @ CHR 0x0D # CHR 0x0A # r"] res_bind_def split: sum.splits)
qed

lemma copy_body_empty_line:
  "copy_body ([CHR 0x0D, CHR 0x0A] @ r) line False = copy_body r (Some [CHR 0x0D, CHR 0x0A]) True"
proof -
  have "fgets 4096 ([CHR 0x0D] @ CHR 0x0A # r) = ([CHR 0x0D] @ [CHR 0x0A], r, False)"
    by (intro fgets_whole) auto
  then show ?thesis by (simp add: copy_body.simps [of "CHR 0x0D # CHR 0x0A # r"] res_bind_def split: sum.splits)
qed

lemma copy_body_response:
  "list_all head_ok hs \<Longrightarrow> list_all line_ok ws \<Longrightarrow> line_ok e \<Longrightarrow>
    copy_body (head_lines hs @ [CHR 0x0D, CHR 0x0A] @ body_lines ws @ e) line False =
      Ok (body_lines ws @ e @ (if e = [] then last ([CHR 0x0D, CHR 0x0A] # map (\<lambda>w. w @ [CHR 0x0A]) ws) else []))"
proof (induction hs arbitrary: line)
  case Nil
  then show ?case
    using copy_body_empty_line [of "body_lines ws @ e" line] copy_body_rest [of ws e] by (simp add: head_lines_def)
next
  case (Cons h hs)
  then show ?case
    using copy_body_head [of h "head_lines hs @ [CHR 0x0D, CHR 0x0A] @ body_lines ws @ e" line]
    by (simp add: head_lines_def)
qed

text \<open>The clock never runs backwards, so every read is saved.\<close>

lemma save_response_all:
  "[] \<notin> set chunks \<Longrightarrow> \<forall>k. start \<le> clock k \<Longrightarrow> \<forall>c \<in> set chunks. no_nul c \<Longrightarrow>
    save_response start clock k chunks = concat chunks"
proof (induction chunks arbitrary: k)
  case (Cons c cs)
  then have "printed c = c" by (auto simp: printed_def no_nul_def takeWhile_eq_all_conv)
  moreover have "start \<le> clock k" using Cons.prems(2) by blast
  then have "\<not> start - clock k > 240" by simp
  moreover have "c \<noteq> []" "save_response start clock (k + 1) cs = concat cs"
    using Cons by auto
  ultimately show ?case by simp
qed simp

text \<open>
  Property C39.  Saving a text response whose lines fit the array of 4096 bytes, without zero bytes:
  however it is split into reads, and however long they take, \<^verbatim>\<open>output.dat\<close> is the response, and
  \<^verbatim>\<open>output2.dat\<close> is its body, followed by the last line once more when the response ends with a
  newline.  In particular the timer of four minutes of \<^verbatim>\<open>hw1/report.md\<close> never ends the loop while the
  clock does not run backwards: the code computes \<^verbatim>\<open>difftime(start, finish)\<close>, which is not positive.
\<close>

theorem body_saved:
  assumes "concat chunks = head_lines hs @ [CHR 0x0D, CHR 0x0A] @ body_lines ws @ e"
    and "[] \<notin> set chunks" "\<forall>c \<in> set chunks. no_nul c" "\<forall>k. start \<le> clock k"
    and "list_all head_ok hs" "list_all line_ok ws" "line_ok e"
  shows "receive_get True True start clock chunks =
    Ok (concat chunks,
        body_lines ws @ e @ (if e = [] then last ([CHR 0x0D, CHR 0x0A] # map (\<lambda>w. w @ [CHR 0x0A]) ws) else []))"
  using copy_body_response [OF assms(5-7), of None] save_response_all [OF assms(2,4,3)]
  by (simp add: receive_get_def assms(1))

section \<open>Concrete instances\<close>

lemma url_parts_instance:
  "parse_url ''http://h.com/a'' = Ok (''h.com'', 80, ''a'') \<and> parse_url ''http://h.com:8080/a'' = Ok (''h.com'', 8080, [])"
proof -
  have "show_int 8080 = ''8080''" by (simp add: show_int_def show_nat.simps digit_char_def)
  then show ?thesis using url_parts [of "''h.com''" "''a''" 8080] by (simp add: fits_int32_def)
qed

theorem request_fits_witness:
  "send_request (\<lambda>_. 7) 3 0 4128 ''1.1.1.1'' True ''http://h.com/a'' =
    Ok (7, 80, zbuf 4128 (http_lines ''HEAD'' ''a'' ''h.com''))"
proof -
  have "parse_url ''http://h.com/a'' = Ok (''h.com'', 80, ''a'')" by code_simp
  from request_fits [OF this, of 3 0 4128] show ?thesis by simp
qed

theorem body_saved_witness:
  "receive_get True True 0 int [''a: b'', [CHR 0x0D, CHR 0x0A, CHR 0x0D], CHR 0x0A # ''x'' @ [CHR 0x0A]] =
    Ok (''a: b'' @ [CHR 0x0D, CHR 0x0A, CHR 0x0D, CHR 0x0A] @ ''x'' @ [CHR 0x0A], [CHR ''x'', CHR 0x0A, CHR ''x'', CHR 0x0A])"
proof -
  let ?chunks = "[''a: b'', [CHR 0x0D, CHR 0x0A, CHR 0x0D], CHR 0x0A # ''x'' @ [CHR 0x0A]]"
  have c: "concat ?chunks = head_lines [''a: b''] @ [CHR 0x0D, CHR 0x0A] @ body_lines [''x''] @ []"
    by (simp add: head_lines_def body_lines_def)
  have n: "[] \<notin> set ?chunks" "\<forall>c \<in> set ?chunks. no_nul c" "\<forall>k. 0 \<le> int k" by simp_all
  have l: "list_all head_ok [''a: b'']" "list_all line_ok [''x'']" "line_ok []"
    by (simp_all add: head_ok_def line_ok_def)
  show ?thesis
    using body_saved [OF c n l] by (simp add: body_lines_def)
qed

end
