(* ===== verification/Hw2_Shell.thy ===== *)
theory Hw2_Shell
  imports C_Lines Sockets
begin

text \<open>
  The remote shell of \<^verbatim>\<open>hw2\<close>: the packages \<^verbatim>\<open>executer.c\<close> cuts a command's output into,
  the reading loop of \<^verbatim>\<open>server.c\<close> for one connection, the loop of \<^verbatim>\<open>client.c\<close>, and a
  session of the two.  \<open>popen\<close> is a parameter: the output of a shell command, \<open>None\<close> when it
  fails.
\<close>

section \<open>Packages\<close>

definition SHELL_BUFFER_SIZE :: nat where "SHELL_BUFFER_SIZE = 1024"

record my_socket_package =
  pk_length :: int
  pk_is_end :: int
  pk_message :: string

text \<open>
  The reads of \<open>fgets(popen_buf, 1024, fp)\<close> until it returns NULL.
\<close>

function output_lines :: "string \<Rightarrow> string list" where
  "output_lines out =
    (case fgets SHELL_BUFFER_SIZE out of (l, rest, eof) \<Rightarrow>
       if l = [] then [] else l # (if eof then [] else output_lines rest))"
  by pat_completeness auto
termination
  by (relation "measure length") (auto dest: fgets_shorter simp: SHELL_BUFFER_SIZE_def)

declare output_lines.simps [simp del]

definition line_package :: "string \<Rightarrow> my_socket_package res" where
  "line_package popen_buf =
    res_bind (cstore SHELL_BUFFER_SIZE (takeWhile (\<lambda>c. c \<noteq> NUL) popen_buf)) (\<lambda>m.
      Ok \<lparr>pk_length = 1, pk_is_end = 0, pk_message = m\<rparr>)"

definition end_package :: my_socket_package where
  "end_package = \<lparr>pk_length = 1, pk_is_end = 1, pk_message = []\<rparr>"

fun answer_packages :: "string list \<Rightarrow> my_socket_package list res" where
  "answer_packages [] = Ok [end_package]"
| "answer_packages (l # ls) =
    res_bind (line_package l) (\<lambda>p. res_bind (answer_packages ls) (\<lambda>ps. Ok (p # ps)))"

definition execute :: "(string \<Rightarrow> string option) \<Rightarrow> string \<Rightarrow> my_socket_package list res" where
  "execute popen cmd =
    res_bind (cstore (SHELL_BUFFER_SIZE + 5) cmd) (\<lambda>redir.
    res_bind (cstore (SHELL_BUFFER_SIZE + 5) (redir @ '' 2>&1'')) (\<lambda>redir'.
      case popen redir' of
        None \<Rightarrow> failHandler ''Fail to execute!''
      | Some out \<Rightarrow> answer_packages (output_lines out)))"

section \<open>The server\<close>

text \<open>
  One round of its loop on the bytes a read delivers, at most 1024: \<open>None\<close> when the connection
  ends, else the packages written.
\<close>

definition server_round :: "(string \<Rightarrow> string option) \<Rightarrow> char list \<Rightarrow> my_socket_package list option res" where
  "server_round popen data =
    res_bind (poke (replicate SHELL_BUFFER_SIZE NUL) (int (length data)) NUL) (\<lambda>_.
      let cmd_buf = takeWhile (\<lambda>c. c \<noteq> NUL) data
      in if cmd_buf = ''exit'' then Ok None
         else res_bind (execute popen cmd_buf) (\<lambda>ps. Ok (Some ps)))"

fun serve_shell :: "(string \<Rightarrow> string option) \<Rightarrow> char list list \<Rightarrow> my_socket_package list res" where
  "serve_shell popen [] = Ok []"
| "serve_shell popen (data # reads) =
    (if data = [] then Ok []
     else res_bind (server_round popen data) (\<lambda>r.
       case r of None \<Rightarrow> Ok []
               | Some ps \<Rightarrow> res_bind (serve_shell popen reads) (\<lambda>qs. Ok (ps @ qs))))"

definition shell_server_checkParam :: "string list \<Rightarrow> unit res" where
  "shell_server_checkParam argv =
    (if length argv \<noteq> 2 then failHandler ''Please use server by correct input!''
     else if isValidPort (argv ! 1) = 0 then failHandler ''Please use legal port number!''
     else Ok ())"

section \<open>The client\<close>

datatype client_action = Too_long | Send_command "char list" | Send_exit

text \<open>What the client does with an input line.\<close>

definition client_input :: "string \<Rightarrow> client_action" where
  "client_input input =
    (if SHELL_BUFFER_SIZE < length input then Too_long
     else if input = ''exit'' then Send_exit
     else Send_command input)"

text \<open>
  The printing loop: the text printed, the packages left unread, and whether the last package of the
  answer has come.
\<close>

fun print_answer :: "my_socket_package list \<Rightarrow> string \<times> my_socket_package list \<times> bool" where
  "print_answer [] = ([], [], False)"
| "print_answer (p # ps) =
    (if pk_is_end p \<noteq> 0 then (pk_message p, ps, True)
     else case print_answer ps of (t, rest, ended) \<Rightarrow> (pk_message p @ t, rest, ended))"

text \<open>The handler of the interrupt signal: the bytes written and the descriptor closed before it exits.\<close>

definition crashHandler :: "int \<Rightarrow> char list \<times> int" where
  "crashHandler s = (''exit'', s)"

definition too_long_text :: string where
  "too_long_text = ''Please input less that 1024 char length!'' @ [CHR 0x0A]"

definition shell_client_checkParam :: "(string \<Rightarrow> int) \<Rightarrow> string list \<Rightarrow> unit res" where
  "shell_client_checkParam inet_pton argv =
    (if length argv \<noteq> 3 then failHandler ''Please use client by correct input!''
     else if isValidIP inet_pton (argv ! 1) = 0 then failHandler ''Please use legal ip address!''
     else if isValidPort (argv ! 2) = 0 then failHandler ''Please use legal port number!''
     else Ok ())"

section \<open>The two programs from the start\<close>

text \<open>
  The server's \<open>main\<close>: the address it listens on, and the packages written on its connections one
  after the other, each given by the result of \<open>accept\<close> and its reads.
\<close>

definition shell_server_message :: string where
  "shell_server_message = ''Sever Fail: Cannot establish socket connection. End of server.''"

fun shell_accept_loop :: "(string \<Rightarrow> string option) \<Rightarrow> (int \<times> char list list) list \<Rightarrow> my_socket_package list list res" where
  "shell_accept_loop popen [] = Ok []"
| "shell_accept_loop popen ((accepted, reads) # conns) =
    res_bind (server_socket_accept accepted shell_server_message) (\<lambda>_.
    res_bind (serve_shell popen reads) (\<lambda>ps.
    res_bind (shell_accept_loop popen conns) (\<lambda>pss. Ok (ps # pss))))"

definition shell_server_main ::
    "(string \<Rightarrow> string option) \<Rightarrow> string list \<Rightarrow> int \<Rightarrow> int \<Rightarrow> int \<Rightarrow> (int \<times> char list list) list \<Rightarrow>
      (sockaddr_in \<times> my_socket_package list list) res" where
  "shell_server_main popen argv sock bound listening conns =
    res_bind (shell_server_checkParam argv) (\<lambda>_.
    res_bind (init_socket sock shell_server_message) (\<lambda>_.
    res_bind (server_socket_bind_listen bound listening shell_server_message) (\<lambda>_.
    res_bind (shell_accept_loop popen conns) (\<lambda>pss.
      Ok (init_address INADDR_ANY (atoi (argv ! 1)), pss)))))"

text \<open>The client's \<open>main\<close> up to its loop.\<close>

definition shell_client_message :: string where
  "shell_client_message = ''Client Fail: Cannot establish socket connection. End of client.''"

definition shell_client_start ::
    "(string \<Rightarrow> int) \<Rightarrow> (string \<Rightarrow> 32 word) \<Rightarrow> string list \<Rightarrow> int \<Rightarrow> int \<Rightarrow> sockaddr_in res" where
  "shell_client_start inet_pton inet_addr argv sock connected =
    res_bind (shell_client_checkParam inet_pton argv) (\<lambda>_.
    res_bind (init_socket sock shell_client_message) (\<lambda>_.
    res_bind (client_socket_connect connected shell_client_message) (\<lambda>_.
      Ok (init_address (inet_addr (argv ! 1)) (atoi (argv ! 2))))))"

section \<open>A session\<close>

text \<open>
  The two programs on one connection, a write arriving as one read, as it does when both sides wait
  for each other in turn.  Writing nothing leaves both waiting in \<open>read\<close>.
\<close>

datatype session_end = Prompting | Closed | Blocked

fun session :: "(string \<Rightarrow> string option) \<Rightarrow> string list \<Rightarrow> (string \<times> session_end) res" where
  "session popen [] = Ok ([], Prompting)"
| "session popen (input # inputs) =
    (case client_input input of
       Too_long \<Rightarrow> res_bind (session popen inputs) (\<lambda>(t, e). Ok (too_long_text @ t, e))
     | Send_exit \<Rightarrow> res_bind (server_round popen ''exit'') (\<lambda>_. Ok ([], Closed))
     | Send_command data \<Rightarrow>
         if data = [] then Ok ([], Blocked)
         else res_bind (server_round popen data) (\<lambda>r.
           case r of None \<Rightarrow> Ok ([], Closed)
           | Some ps \<Rightarrow> (case print_answer ps of (t, rest, ended) \<Rightarrow>
               if \<not> ended then Ok (t, Blocked)
               else res_bind (session popen inputs) (\<lambda>(u, e). Ok (t @ u, e)))))"

section \<open>Lemmas\<close>

text \<open>An interrupted client ends its connection on the server too, which serves the next one.\<close>

lemma interrupt_ends_connection: "serve_shell popen (fst (crashHandler s) # reads) = Ok []"
  by (simp add: crashHandler_def server_round_def SHELL_BUFFER_SIZE_def poke_def)

text \<open>Whatever the output, its pieces make it up, and each fits the package's array.\<close>

lemma concat_output_lines: "concat (output_lines out) = out"
proof (induction out rule: output_lines.induct)
  case (1 out)
  obtain l r eof where f: "fgets SHELL_BUFFER_SIZE out = (l, r, eof)" by (cases "fgets SHELL_BUFFER_SIZE out")
  have s: "out = l @ r" "l = [] \<longleftrightarrow> out = []" "eof \<Longrightarrow> r = []"
    using fgets_split [OF f] fgets_nonempty [OF f] fgets_eof [of SHELL_BUFFER_SIZE out l r] f
    by (auto simp: SHELL_BUFFER_SIZE_def)
  show ?case
  proof (cases "l = []")
    case True
    with s(2) have "out = []" by simp
    with f True show ?thesis by (simp add: output_lines.simps [of "[]"])
  next
    case False
    have "output_lines out = l # (if eof then [] else output_lines r)"
      using f False by (subst output_lines.simps) simp
    with 1 [OF f [symmetric] refl False] s(1,3) show ?thesis by (cases eof) simp_all
  qed
qed

lemma output_lines_fit: "l \<in> set (output_lines out) \<Longrightarrow> length l < SHELL_BUFFER_SIZE"
proof (induction out rule: output_lines.induct)
  case (1 out)
  obtain k r eof where f: "fgets SHELL_BUFFER_SIZE out = (k, r, eof)" by (cases "fgets SHELL_BUFFER_SIZE out")
  have "length k < SHELL_BUFFER_SIZE" using fgets_length [OF f] by (simp add: SHELL_BUFFER_SIZE_def)
  with 1(1) [OF f [symmetric] refl] 1(2) f show ?case
    by (auto simp: output_lines.simps [of out] split: if_splits)
qed

text \<open>The packages of an answer and what printing them gives, whatever follows.\<close>

lemma answer_round:
  assumes "\<forall>l \<in> set ls. length l < SHELL_BUFFER_SIZE \<and> no_nul l"
  shows "\<exists>ps. answer_packages ls = Ok ps \<and> (\<forall>qs. print_answer (ps @ qs) = (concat ls, qs, True))"
  using assms
proof (induction ls)
  case Nil
  then show ?case by (simp add: end_package_def)
next
  case (Cons l ls)
  then obtain ps where ps: "answer_packages ls = Ok ps" "\<forall>qs. print_answer (ps @ qs) = (concat ls, qs, True)"
    by auto
  have l: "length l < SHELL_BUFFER_SIZE" "no_nul l" using Cons.prems by simp_all
  then have "takeWhile (\<lambda>c. c \<noteq> NUL) l = l" by (auto simp: no_nul_def takeWhile_eq_all_conv)
  then have "line_package l = Ok \<lparr>pk_length = 1, pk_is_end = 0, pk_message = l\<rparr>"
    using l(1) by (simp add: line_package_def cstore_def del: takeWhile_eq_all_conv)
  with ps show ?case by simp
qed

lemma execute_round:
  assumes "length cmd < SHELL_BUFFER_SIZE" "popen (cmd @ '' 2>&1'') = Some out" "no_nul out"
  shows "\<exists>ps. execute popen cmd = Ok ps \<and> (\<forall>qs. print_answer (ps @ qs) = (out, qs, True))"
proof -
  have "\<forall>l \<in> set (output_lines out). length l < SHELL_BUFFER_SIZE \<and> no_nul l"
    using assms(3) output_lines_fit concat_output_lines [of out] by (auto simp: no_nul_def) (metis UN_I set_concat)
  from answer_round [OF this] show ?thesis
    using assms(1,2) by (simp add: execute_def cstore_def concat_output_lines)
qed

lemma server_round_short:
  assumes "length data < SHELL_BUFFER_SIZE" "no_nul data" "data \<noteq> ''exit''"
    and "popen (data @ '' 2>&1'') = Some out" "no_nul out"
  shows "\<exists>ps. server_round popen data = Ok (Some ps) \<and> print_answer ps = (out, [], True)"
proof -
  have "takeWhile (\<lambda>c. c \<noteq> NUL) data = data" using assms(2) by (auto simp: no_nul_def takeWhile_eq_all_conv)
  moreover obtain ps where "execute popen data = Ok ps" "\<forall>qs. print_answer (ps @ qs) = (out, qs, True)"
    using execute_round [where popen = popen, OF assms(1,4,5)] by blast
  ultimately show ?thesis
    using assms(1,3) spec [of "\<lambda>qs. print_answer (ps @ qs) = (out, qs, True)" "[]"]
    by (simp add: server_round_def Let_def del: takeWhile_eq_all_conv)
qed

lemma server_round_exit: "server_round popen ''exit'' = Ok None"
  by (simp add: server_round_def poke_def SHELL_BUFFER_SIZE_def)

text \<open>The lines a user types, and the answers of the shell.\<close>

definition command_ok :: "(string \<Rightarrow> string option) \<Rightarrow> (string \<Rightarrow> string) \<Rightarrow> string \<Rightarrow> bool" where
  "command_ok popen answer c \<longleftrightarrow>
    c \<noteq> [] \<and> c \<noteq> ''exit'' \<and> length c < 1024 \<and> no_nul c
      \<and> popen (c @ '' 2>&1'') = Some (answer c) \<and> no_nul (answer c)"

lemma session_step:
  assumes "command_ok popen answer c"
  shows "session popen (c # cs) = res_bind (session popen cs) (\<lambda>(u, e). Ok (answer c @ u, e))"
proof -
  have c: "length c < SHELL_BUFFER_SIZE" "no_nul c" "c \<noteq> ''exit''" "c \<noteq> []"
    "popen (c @ '' 2>&1'') = Some (answer c)" "no_nul (answer c)"
    using assms by (simp_all add: command_ok_def SHELL_BUFFER_SIZE_def)
  obtain ps where "server_round popen c = Ok (Some ps)" "print_answer ps = (answer c, [], True)"
    using server_round_short [where popen = popen, OF c(1,2,3,5,6)] by blast
  with c show ?thesis by (simp add: client_input_def)
qed

text \<open>
  Property C40.  A session of commands that are not empty and have at most 1023 characters, whose
  outputs have no zero byte, ended by \<open>exit\<close>, when every read returns one whole package: what the
  client prints is the output of the commands, one after the other and exactly, and both sides close.
\<close>

theorem session_prints_outputs:
  assumes "list_all (command_ok popen answer) cs"
  shows "session popen (cs @ [''exit'']) = Ok (concat (map answer cs), Closed)"
  using assms
proof (induction cs)
  case Nil
  then show ?case by (simp add: client_input_def server_round_exit SHELL_BUFFER_SIZE_def)
next
  case (Cons c cs)
  then show ?case using session_step [of popen answer c "cs @ [''exit'']"] by simp
qed

text \<open>
  The two lines at which the client and the server disagree: one of exactly 1024
  characters passes the client's check and makes the server write behind its array, after any
  commands before it; an empty line leaves both sides waiting for each other.
\<close>

lemma session_boundary_lines:
  assumes "list_all (command_ok popen answer) cs" "length c = 1024" "1024 < length d"
  shows "session popen (cs @ c # ds) = ub Out_Of_Bounds
    \<and> session popen (cs @ [] # ds) = Ok (concat (map answer cs), Blocked)
    \<and> session popen (cs @ [d, ''exit'']) = Ok (concat (map answer cs) @ too_long_text, Closed)"
proof -
  have step: "session popen (cs @ r) = res_bind (session popen r) (\<lambda>(u, e). Ok (concat (map answer cs) @ u, e))" for r
    using assms(1)
  proof (induction cs)
    case Nil
    then show ?case by (cases "session popen r") auto
  next
    case (Cons c cs)
    then show ?case using session_step [of popen answer c "cs @ r"] by (cases "session popen r") auto
  qed
  have c: "session popen (c # ds) = ub Out_Of_Bounds"
    using assms(2) by (cases c) (auto simp: client_input_def SHELL_BUFFER_SIZE_def server_round_def poke_def)
  have d: "session popen [d, ''exit''] = Ok (too_long_text, Closed)"
    using assms(3) by (simp add: client_input_def server_round_exit SHELL_BUFFER_SIZE_def)
  have e: "session popen ([] # ds) = Ok ([], Blocked)" by (simp add: client_input_def)
  show ?thesis
    unfolding step [of "c # ds"] step [of "[d, ''exit'']"] step [of "[] # ds"] c d e by simp
qed

section \<open>Concrete instances\<close>

lemma sample_command_ok: "command_ok (\<lambda>_. Some ''out'') (\<lambda>_. ''out'') ''ls''"
  by (simp add: command_ok_def)

theorem session_prints_outputs_witness:
  "session (\<lambda>_. Some ''out'') [''ls'', ''ls'', ''exit''] = Ok (''outout'', Closed)"
  using session_prints_outputs [where popen = "\<lambda>_. Some ''out''" and answer = "\<lambda>_. ''out''" and cs = "[''ls'', ''ls'']"]
    sample_command_ok
  by simp

lemma session_boundary_lines_instance:
  "session (\<lambda>_. Some ''out'') [''ls'', replicate 1024 CHR ''x''] = ub Out_Of_Bounds
    \<and> session (\<lambda>_. Some ''out'') [''ls'', []] = Ok (''out'', Blocked)
    \<and> session (\<lambda>_. Some ''out'') [''ls'', replicate 1025 CHR ''x'', ''exit''] = Ok (''out'' @ too_long_text, Closed)"
  using session_boundary_lines [where popen = "\<lambda>_. Some ''out''" and answer = "\<lambda>_. ''out''" and cs = "[''ls'']"
      and c = "replicate 1024 CHR ''x''" and d = "replicate 1025 CHR ''x''" and ds = "[]"]
    sample_command_ok
  by (simp del: session.simps)

end
