(* ===== verification/Spec2Isabelle.thy ===== *)
theory Spec2Isabelle
  imports Pro_Accept Pro_Server_Alone Pro_Chat_Late Pro_Talk Hw4_Finish Hw4_Stall Hw3_List Hw5_Serve Hw1_Fetch Hw2_Shell
begin

text \<open>
  A verification library for the network programs of this repository.

  \<^bold>\<open>The programs.\<close>  Six C programs or pairs of programs, which share utility code by copying it:

  \<^item> \<^verbatim>\<open>pro\<close>, a peer-to-peer chat.  The server keeps the names in use and the clients that wait to
    be called; a client joins under a name, waits, lists the waiting clients, or asks for one and then
    talks to it directly.
  \<^item> \<^verbatim>\<open>HW4\<close>, a download over UDP.  The client drops the servers that do not answer, asks one for the
    file's size, cuts the file into jobs, and up to 100 threads fetch the jobs from free servers.
  \<^item> \<^verbatim>\<open>HW3\<close>, a download over TCP, with one part of the file for each connection.
  \<^item> \<^verbatim>\<open>hw5\<close>, an HTTP proxy with a list of forbidden sites.
  \<^item> \<^verbatim>\<open>hw2\<close>, a remote shell.
  \<^item> \<^verbatim>\<open>hw1\<close>, an HTTP client.

  \<^bold>\<open>How C is modelled.\<close>  \<open>C_Base\<close> has the results: a computation returns \<open>Ok x\<close>, or stops with
  \<open>UB f\<close> where C leaves the behaviour undefined (a NULL pointer, an index behind an array, a string
  that does not fit, an uninitialised variable) or \<open>Exit m\<close> where the code calls
  \<open>failHandler(m)\<close>.  Every error is a branch of the model, so a theorem with a result \<open>Ok\<close> says that
  nothing undefined happens.  Strings are character lists without the final zero byte; where a buffer
  may lack it the buffer is the list of its bytes.  \<open>C_String\<close> has the string functions, \<open>C_Lines\<close>
  has \<open>fgets\<close>, \<open>Regex\<close> a matcher for the two patterns of \<^verbatim>\<open>util.c\<close> with its proof, \<open>Dyn_Array\<close> the
  slots of the array lists, the moving loop of their removals, and the interfaces of an append, an
  indexed and a removing list as locales, which every list of the programs interprets.  Counters are
  unbounded integers; ports become 16-bit words and addresses 32-bit words in \<open>Sockets\<close>.

  The results of system calls (\<open>socket\<close>, \<open>accept\<close>, \<open>read\<close>, \<open>recvfrom\<close>, \<open>fopen\<close>, \<open>stat\<close>,
  \<open>inet_pton\<close>, \<open>popen\<close> and so on) are arguments of the definitions; what is written, printed or
  sent is part of the result.  No property assumes anything of a system call beyond what its hypotheses
  say of these arguments.

  \<^bold>\<open>Chat (\<^verbatim>\<open>pro/src\<close>).\<close>

  \<^item> \<open>Pro_Util\<close>: \<^verbatim>\<open>util.c\<close>; \<open>Pro_Protocol\<close>: \<^verbatim>\<open>myprotocol.c\<close>; \<open>Pro_Array\<close>: \<^verbatim>\<open>dynamicarray.c\<close>.
  \<^item> \<open>Pro_Server\<close>: \<^verbatim>\<open>server.c\<close> with one thread at a time; \<open>handle\<close> is one pass of the loop of
    \<open>command_response\<close> and \<open>on_join\<close> to \<open>on_unknown\<close> are its branches.
  \<^item> \<open>Pro_Server_Spec\<close>: the handler implements an abstract registry, exactly which bytes stop it, and
    what its tables hold for arbitrary bytes.
  \<^item> \<open>Pro_Server_Threads\<close>: the threads interleaved, a step having at most one access to the shared
    tables or to the static pointer of \<open>strtok\<close>; the conservation of waiting clients, the exact effect
    of every step that changes a table, and the races.
    \<open>Pro_Server_Alone\<close>: a thread that is not interrupted is the sequential program.
  \<^item> \<open>Pro_Accept\<close>: the accept loop of \<^verbatim>\<open>server.c\<close> and what its threads read from the one variable
    they are handed.
  \<^item> \<open>Pro_Client_Util\<close>: \<^verbatim>\<open>client_util.c\<close>; \<open>Pro_Client\<close>: \<^verbatim>\<open>client.c\<close> as a state machine whose
    events are the ends of blocking calls; \<open>Pro_Client_Spec\<close>: its invariant, what it sends, the
    way of an address from one client to another, and three interleavings of its threads.
  \<^item> \<open>Pro_System\<close>: client and server together on joins and lists, with the loop that waits for more
    of a list.
  \<^item> \<open>Pro_Chat\<close>: the server and any number of clients with the messages in transit between them.  The
    server handles one message at a time, but it may find several of a client in one read.  A client's
    read of an answer, that to its join request included, returns the answer, or any part of the bytes
    that have come, or nothing, as when it times out or is interrupted; a client that ends keeps
    the reason, so its undefined steps are seen.
  \<^item> \<open>Pro_Chat_Spec\<close>: an invariant of every run, and from it whose names differ and what stops the
    server, for all these runs; and for runs in which messages and answers are read as they were
    written, that clients connect to each other only, that every question has one answer, and what stops
    a client.  \<open>Pro_Chat_Late\<close>: what becomes of a client whose read failed or ended early, and
    of messages that the server reads at once.
  \<^item> \<open>Pro_Talk\<close>: two clients that talk.  What one shows of the lines typed at the other, the buffer being
    memory with arbitrary contents, and how a talk ends for both.

  \<^bold>\<open>UDP download (\<^verbatim>\<open>HW4\<close>).\<close>

  \<^item> \<open>Hw4_Array\<close>: \<^verbatim>\<open>mydatastructure.c\<close>; \<open>Hw4_Server\<close>: \<^verbatim>\<open>server.c\<close>; \<open>Hw4_Client\<close>: the functions
    of \<^verbatim>\<open>client.c\<close> that run before and after its threads.
  \<^item> \<open>Hw4_Spec\<close>: jobs tile the file, an upload is exact for two to 1023 bytes and is wrong outside, a
    download reassembles the file, and what happens to a missing file.
  \<^item> \<open>Hw4_Workers\<close>: \<open>thread_download\<close> as a step relation on the shared pools; a job is always in one
    place, and the one undefined step.  \<open>Hw4_Progress\<close>: every run ends, and what it has done by
    then.  \<open>Hw4_Stall\<close>: when its threads wait for ever.  \<open>Hw4_Main\<close>: \<open>main\<close>, and the
    download from the arguments to the last job, with every job answered by a server that has the file.  \<open>Hw4_Finish\<close>: the end of \<open>main\<close> behind the threads.

  \<^bold>\<open>TCP download (\<^verbatim>\<open>HW3\<close>).\<close>  \<open>Hw3_Socket\<close>: the packages and answers of \<^verbatim>\<open>mysocket.c\<close> and the server;
  \<open>Hw3_Client\<close>: the list of servers, the parts, receiving and combining; \<open>Hw3_Main\<close>: the connection
  attempts, \<open>main\<close>, and the download from the arguments to the parts and the files they are written
  to; \<open>Hw3_List\<close>: the list of servers
  as linked nodes in memory, which the lists of the other theories stand for, its freeing, and the end
  of \<open>main\<close>.

  \<^bold>\<open>The others.\<close>  \<open>Hw5_Proxy\<close> and \<open>Hw5_Spec\<close>: \<^verbatim>\<open>hw5/proxy.c\<close> and \<^verbatim>\<open>hw5/dynamicarray.c\<close>;
  what is decided for a request, what is forwarded and relayed, with and without a declared
  length, on a new or an open connection to the host; \<open>Hw5_Serve\<close>: how requests are read from the
  network, and the accept loop with its threads.  A write to a closed connection is a failed write
  there; the signal that would end the program is not modelled.
  \<open>Hw2_Shell\<close>: \<^verbatim>\<open>executer.c\<close>, \<^verbatim>\<open>server.c\<close> and \<^verbatim>\<open>client.c\<close> of \<^verbatim>\<open>hw2\<close>; \<open>Sockets\<close>: its
  \<^verbatim>\<open>mysocket.c\<close>, of which \<^verbatim>\<open>HW3\<close> has a copy.  \<open>Hw1_Fetch\<close>: \<^verbatim>\<open>hw1/hw1.c\<close>.

  \<^bold>\<open>Bounds and loops.\<close>  Buffers have the sizes of the code: 1024 bytes for a message of the chat, of
  \<^verbatim>\<open>hw2\<close> and of the file data, 2048 for a proxied request with words of 32, 4128 for the request
  of \<^verbatim>\<open>hw1\<close>, 128 for a forbidden site; the tables grow by the code's increments.  Loops are recursive
  functions with a termination proof.  The one exception is the upload loop of \<^verbatim>\<open>HW3\<close>, which need not
  end when the range lies behind the end of the file: it returns \<open>None\<close> then, and \<open>tcp_upload_exact\<close>
  shows that it returns for every range of the file.  Loops that serve for ever take the list of what
  they receive.  There is no fuel.

  \<^bold>\<open>Granularity.\<close>  The chat server's threads are cut at every access to shared data, the download
  threads of \<^verbatim>\<open>HW4\<close> at every mutex region and unguarded test, with one whole download as a step and a wait
  for a condition as a test that is repeated.  The
  chat client is cut at its blocking calls, so an interleaving inside the code between two of them is
  not in the model.  The threads of \<^verbatim>\<open>HW3\<close>
  share nothing they write, those of the proxy only its log.  A package of
  \<^verbatim>\<open>HW3\<close> is read as it was written; in a session of \<^verbatim>\<open>hw2\<close> one write is one read.  A message
  to the chat server is not cut by its read.  A buffer without a zero byte that is used as a string is
  undefined behaviour, also where \<open>strtok\<close> or \<open>strcmp\<close> could stop before its end.

  \<^bold>\<open>Not modelled.\<close>  What is left of the code are the option calls on sockets, declarations, and the
  text of \<open>printf\<close> messages that tell the user how far a download is.  Name lookups, \<open>getpeername\<close>,
  \<open>strftime\<close>, the shell of \<^verbatim>\<open>hw2\<close> and \<open>readline\<close> are arguments.  Memory is modelled where the code's
  behaviour rests on it (the arrays and their counts, the linked list of \<^verbatim>\<open>HW3\<close>, the pointers freed at
  the end of \<^verbatim>\<open>HW4\<close>, the buffers), not as one heap.  In \<open>Pro_Chat\<close> the server's threads are not interleaved,
  which \<open>Pro_Server_Threads\<close> has, and the peers' own connections are not linked up, which \<open>Pro_Talk\<close>
  has for one talk: it follows no client into the next one, and what is written to a connection the
  peer has left is lost there, where a second such write would end the process.  The
  copies of \<^verbatim>\<open>util.c\<close> in \<^verbatim>\<open>HW3\<close>, \<^verbatim>\<open>HW4\<close>, \<^verbatim>\<open>hw5\<close> and \<^verbatim>\<open>hw2\<close> are the functions of \<open>Pro_Util\<close>.  Test
  scripts and build files are left out.
\<close>

end
